(* ===== verification/Go_Prelude.thy ===== *)
theory Go_Prelude
  imports Main "HOL-Library.Word" "HOL-Library.AList"
begin

text \<open>
  Shared vocabulary of the development: Go's fixed-width integers, byte slices, big-endian
  packing (\<^verbatim>\<open>encoding/binary\<close> and \<^verbatim>\<open>pkg/binutil\<close>), Go maps, and two generic
  interfaces (a wire codec and a guarded state machine) that several components provide.

  A Go map is an association list with distinct keys: \<open>map_of m k\<close> is \<open>m[k]\<close>,
  \<open>AList.update k v m\<close> is \<open>m[k] = v\<close> and \<open>AList.delete k m\<close> is \<open>delete(m, k)\<close>. The
  order of the list stands for the order in which \<open>range\<close> visits the map, which Go leaves
  open: a statement about every list with the given bindings is a statement about every order.
\<close>

unbundle bit_operations_syntax

type_synonym u8 = "8 word"
type_synonym u16 = "16 word"
type_synonym u32 = "32 word"
type_synonym bytes = "u8 list"
type_synonym ('k, 'v) gomap = "('k \<times> 'v) list"

named_theorems wire_simps \<open>packing and unpacking of big-endian integers\<close>
named_theorems gomap_simps \<open>reads after writes of Go maps\<close>

section \<open>Big-endian integers\<close>

text \<open>\<open>byte(n >> 8)\<close> and \<open>byte(n)\<close> for a \<open>uint16\<close>, and \<open>binary.BigEndian.Uint16\<close>.\<close>

definition hi8 :: "u16 \<Rightarrow> u8" where
  "hi8 n = ucast (drop_bit 8 n)"

definition lo8 :: "u16 \<Rightarrow> u8" where
  "lo8 n = ucast n"

definition be16 :: "u8 \<Rightarrow> u8 \<Rightarrow> u16" where
  "be16 h l = push_bit 8 (ucast h) OR ucast l"

definition put16 :: "u16 \<Rightarrow> bytes" where
  "put16 n = [hi8 n, lo8 n]"

definition put32 :: "u32 \<Rightarrow> bytes" where
  "put32 n = [ucast (drop_bit 24 n), ucast (drop_bit 16 n), ucast (drop_bit 8 n), ucast n]"

definition be32 :: "u8 \<Rightarrow> u8 \<Rightarrow> u8 \<Rightarrow> u8 \<Rightarrow> u32" where
  "be32 a b c d = push_bit 24 (ucast a) OR push_bit 16 (ucast b) OR push_bit 8 (ucast c) OR ucast d"

lemma be16_hi8_lo8 [simp, wire_simps]: "be16 (hi8 n) (lo8 n) = n"
  unfolding be16_def hi8_def lo8_def
  by (rule bit_word_eqI) (auto simp: bit_simps not_less)

lemma be16_zero [simp, wire_simps]: "be16 0 0 = 0"
  by (simp add: be16_def)

lemma hi8_be16 [simp, wire_simps]: "hi8 (be16 h l) = h"
  unfolding be16_def hi8_def
  by (rule bit_word_eqI) (auto simp: bit_simps dest: bit_imp_le_length)

lemma lo8_be16 [simp, wire_simps]: "lo8 (be16 h l) = l"
  unfolding be16_def lo8_def
  by (rule bit_word_eqI) (auto simp: bit_simps)

lemma be32_put32 [simp, wire_simps]:
  "be32 (ucast (drop_bit 24 n)) (ucast (drop_bit 16 n)) (ucast (drop_bit 8 n)) (ucast n) = n"
proof (rule bit_word_eqI)
  fix k assume "k < LENGTH(32)"
  then consider "k < 8" | "8 \<le> k \<and> k < 16" | "16 \<le> k \<and> k < 24" | "24 \<le> k \<and> k < 32"
    by fastforce
  then show "bit (be32 (ucast (drop_bit 24 n)) (ucast (drop_bit 16 n)) (ucast (drop_bit 8 n))
      (ucast n)) k = bit n k"
    by cases (auto simp: be32_def bit_simps)
qed

lemma length_put16 [simp]: "length (put16 n) = 2"
  by (simp add: put16_def)

lemma length_put32 [simp]: "length (put32 n) = 4"
  by (simp add: put32_def)

lemma put16_eq_iff [simp]: "put16 a = put16 b \<longleftrightarrow> a = b"
  by (metis be16_hi8_lo8 list.inject put16_def)

text \<open>Two bytes of a length field, \<open>int(a)<<8 | int(b)\<close>, as a Go \<open>int\<close>.\<close>

definition int16 :: "u8 \<Rightarrow> u8 \<Rightarrow> nat" where
  "int16 a b = push_bit 8 (unat a) OR unat b"

lemma int16_eq [wire_simps]: "int16 a b = 256 * unat a + unat b"
proof -
  have "(push_bit 8 (unat a) AND unat b) = 0"
    by (rule bit_eqI) (auto simp: bit_simps dest!: bit_imp_le_length)
  then have "push_bit 8 (unat a) OR unat b = push_bit 8 (unat a) + unat b"
    by (simp add: disjunctive_add_eq_or)
  then show ?thesis
    by (simp add: int16_def push_bit_eq_mult)
qed

text \<open>Slicing a buffer at the end of a known prefix.\<close>

lemma drop_at: "n = length xs \<Longrightarrow> drop n (xs @ ys) = ys"
  by simp

lemma nth_at: "n = length xs \<Longrightarrow> (xs @ y # ys) ! n = y"
  by simp

lemma take_drop_at: "n = length xs \<Longrightarrow> m = length ys \<Longrightarrow> take m (drop n (xs @ ys @ zs)) = ys"
  by simp

section \<open>Errors\<close>

text \<open>The monadic bind of fallible code: the first error is the result.\<close>

definition bind_err :: "'e + 'a \<Rightarrow> ('a \<Rightarrow> 'e + 'b) \<Rightarrow> 'e + 'b" where
  "bind_err m f = (case m of Inl e \<Rightarrow> Inl e | Inr a \<Rightarrow> f a)"

lemma bind_err_simps [simp]:
  "bind_err (Inl e) f = Inl e" "bind_err (Inr a) f = f a"
  by (simp_all add: bind_err_def)

lemma bind_err_eq_Inr [simp]:
  "bind_err m f = Inr b \<longleftrightarrow> (\<exists>a. m = Inr a \<and> f a = Inr b)"
  by (cases m) auto

section \<open>The interface of a wire codec\<close>

text \<open>
  What every packet format of \<^verbatim>\<open>protocol/\<close> promises its clients: a value the encoder
  accepts is encoded in at most \<open>bound\<close> bytes, and decoding them gives the value back.
\<close>

locale wire_codec =
  fixes acceptable :: "'a \<Rightarrow> bool"
    and encode :: "'a \<Rightarrow> 'e + bytes"
    and decode :: "bytes \<Rightarrow> 'e + 'a"
    and bound :: nat
  assumes encodes: "acceptable x \<Longrightarrow> \<exists>b. encode x = Inr b"
    and decode_encode: "acceptable x \<Longrightarrow> encode x = Inr b \<Longrightarrow> decode b = Inr x"
    and encode_bound: "acceptable x \<Longrightarrow> encode x = Inr b \<Longrightarrow> length b \<le> bound"
begin

lemma roundtrip: "acceptable x \<Longrightarrow> \<exists>b. encode x = Inr b \<and> decode b = Inr x \<and> length b \<le> bound"
  using encodes decode_encode encode_bound by blast

lemma encode_injective:
  "acceptable x \<Longrightarrow> acceptable y \<Longrightarrow> encode x = Inr b \<Longrightarrow> encode y = Inr b \<Longrightarrow> x = y"
  using decode_encode by (metis sum.inject(2))

text \<open>A sender and a receiver joined by a faithful link agree on every acceptable value.\<close>

lemma link_transparent: "acceptable x \<Longrightarrow> bind_err (encode x) decode = Inr x"
  using encodes decode_encode by fastforce

end

section \<open>The interface of a stateful component\<close>

text \<open>
  A component whose operations keep an invariant: whatever sequence of operations it is
  given from its initial state, the invariant holds afterwards.
\<close>

locale guarded_component =
  fixes initial :: 's
    and perform :: "'op \<Rightarrow> 's \<Rightarrow> 's"
    and invar :: "'s \<Rightarrow> bool"
  assumes invar_initial: "invar initial"
    and invar_perform: "invar s \<Longrightarrow> invar (perform op s)"
begin

lemma invar_run_from: "invar s \<Longrightarrow> invar (fold perform ops s)"
  by (induction ops arbitrary: s) (auto intro: invar_perform)

lemma invar_run: "invar (fold perform ops initial)"
  by (rule invar_run_from) (rule invar_initial)

lemma invar_run_snoc: "invar (perform op (fold perform ops initial))"
  by (rule invar_perform) (rule invar_run)

end

section \<open>Go maps\<close>

declare map_of_eq_Some_iff [simp del]

abbreviation wf_gomap :: "('k, 'v) gomap \<Rightarrow> bool" where
  "wf_gomap m \<equiv> distinct (map fst m)"

lemma map_of_delete [gomap_simps, simp]:
  "map_of (AList.delete k m) k' = (if k' = k then None else map_of m k')"
  by (simp add: delete_conv')

lemma map_of_upd [gomap_simps, simp]:
  "map_of (AList.update k v m) k' = (if k' = k then Some v else map_of m k')"
  by (simp add: update_conv')

lemma wf_gomap_delete [simp]: "wf_gomap m \<Longrightarrow> wf_gomap (AList.delete k m)"
  by (rule distinct_delete)

lemma wf_gomap_update [simp]: "wf_gomap m \<Longrightarrow> wf_gomap (AList.update k v m)"
  by (rule distinct_update)

lemma map_of_eq_None_delete: "map_of m k = None \<Longrightarrow> AList.delete k m = m"
  by (simp add: delete_notin_dom dom_map_of_conv_image_fst map_of_eq_None_iff)

lemma wf_gomap_mem_iff: "wf_gomap m \<Longrightarrow> (k, v) \<in> set m \<longleftrightarrow> map_of m k = Some v"
  by (auto simp: map_of_eq_Some_iff dest: map_of_SomeD)

text \<open>Deleting every binding a \<open>range\<close> loop selects.\<close>

lemma map_of_filter_bindings:
  "wf_gomap m \<Longrightarrow> map_of (filter (\<lambda>(k, v). P k v) m) k
     = (case map_of m k of None \<Rightarrow> None | Some v \<Rightarrow> if P k v then Some v else None)"
  by (induction m) (auto split: option.splits simp: map_of_eq_None_iff dest: map_of_SomeD)

lemma wf_gomap_filter [simp]: "wf_gomap m \<Longrightarrow> wf_gomap (filter P m)"
  by (rule distinct_map_filter)

section \<open>Loops over network ranges\<close>

text \<open>
  Go's \<open>for n := lo; n <= hi; n++ \<dots>\<close> over a \<open>uint16\<close>. The counter wraps at 0xFFFF, so
  with \<open>hi = 0xFFFF\<close> the condition never fails: such a loop ends only by an early return.
  \<open>None\<close> is "does not return"; the body gives \<open>Inl r\<close> to return \<open>r\<close> from the
  enclosing function and \<open>Inr s\<close> to go on.
\<close>

partial_function (option) for_u16 ::
    "(u16 \<Rightarrow> 's \<Rightarrow> 'r + 's) \<Rightarrow> u16 \<Rightarrow> u16 \<Rightarrow> 's \<Rightarrow> ('r + 's) option" where
  "for_u16 body n hi s =
     (if n \<le> hi
      then (case body n s of Inl r \<Rightarrow> Some (Inl r) | Inr s' \<Rightarrow> for_u16 body (n + 1) hi s')
      else Some (Inr s))"

declare for_u16.simps [code]

primrec for_list :: "('a \<Rightarrow> 's \<Rightarrow> 'r + 's) \<Rightarrow> 'a list \<Rightarrow> 's \<Rightarrow> 'r + 's" where
  "for_list body [] s = Inr s"
| "for_list body (x # xs) s = (case body x s of Inl r \<Rightarrow> Inl r | Inr s' \<Rightarrow> for_list body xs s')"

definition nets :: "u16 \<Rightarrow> u16 \<Rightarrow> u16 list" where
  "nets lo hi = map word_of_nat [unat lo..<Suc (unat hi)]"

lemma unat_succ16: "n < 0xFFFF \<Longrightarrow> unat (n + 1 :: u16) = Suc (unat n)"
  by (simp add: unat_word_ariths word_less_nat_alt)

lemma set_nets [simp]: "n \<in> set (nets lo hi) \<longleftrightarrow> lo \<le> n \<and> n \<le> hi"
proof
  assume "n \<in> set (nets lo hi)"
  then obtain k where k: "n = word_of_nat k" "unat lo \<le> k" "k \<le> unat hi"
    by (auto simp: nets_def)
  have "k < 65536" using k(3) unsigned_less [of hi, where ?'a = nat] by simp
  then have "unat n = k" using k(1) by (simp add: unat_of_nat take_bit_eq_mod)
  then show "lo \<le> n \<and> n \<le> hi" using k by (simp add: word_le_nat_alt)
next
  assume "lo \<le> n \<and> n \<le> hi"
  then have "unat n \<in> set [unat lo..<Suc (unat hi)]" by (auto simp: word_le_nat_alt)
  then show "n \<in> set (nets lo hi)"
    unfolding nets_def set_map by (rule rev_image_eqI) simp
qed

lemma nets_step: "lo \<le> hi \<Longrightarrow> hi < 0xFFFF \<Longrightarrow> nets lo hi = lo # nets (lo + 1) hi"
proof -
  assume a: "lo \<le> hi" "hi < 0xFFFF"
  then have "unat (lo + 1) = Suc (unat lo)"
    by (intro unat_succ16) (rule order.strict_trans1)
  then show ?thesis
    using a by (simp add: nets_def upt_conv_Cons word_le_nat_alt del: upt_Suc)
qed

lemma nets_empty [simp]: "hi < lo \<Longrightarrow> nets lo hi = []"
  by (simp add: nets_def word_less_nat_alt)

lemma nets_single [simp]: "nets n n = [n]"
  by (simp add: nets_def)

text \<open>Below the top of the number range the loop visits the range once and ends.\<close>

lemma for_u16_eq:
  assumes "hi < 0xFFFF"
  shows "for_u16 body n hi s = Some (for_list body (nets n hi) s)"
  using assms
proof (induction "65536 - unat n" arbitrary: n s rule: less_induct)
  case less
  show ?case
  proof (cases "n \<le> hi")
    case True
    then have "unat (n + 1) = Suc (unat n)"
      using less.prems by (intro unat_succ16) (rule order.strict_trans1)
    moreover have "unat n < 65536" using unsigned_less [of n, where ?'a = nat] by simp
    ultimately have "65536 - unat (n + 1) < 65536 - unat n" by linarith
    note IH = less.hyps [OF this less.prems]
    show ?thesis
      using True by (subst for_u16.simps) (auto simp: nets_step [OF True less.prems] IH split: sum.split)
  next
    case False
    then show ?thesis by (subst for_u16.simps) (simp flip: not_le)
  qed
qed

text \<open>At the top of the range a body that never returns early makes the loop run for ever.\<close>

lemma for_u16_diverges:
  assumes nobreak: "\<And>n s. \<not> isl (body n s)"
  shows "for_u16 body n 0xFFFF s = None"
proof (rule ccontr)
  assume "for_u16 body n 0xFFFF s \<noteq> None"
  then obtain r where ret: "for_u16 body n 0xFFFF s = Some r" by auto
  have "(\<forall>n s. \<not> isl (body n s)) \<longrightarrow> (0xFFFF :: u16) \<noteq> 0xFFFF"
  proof (rule for_u16.raw_induct
      [where P = "\<lambda>body n hi s r. (\<forall>n s. \<not> isl (body n s)) \<longrightarrow> hi \<noteq> 0xFFFF", OF _ ret])
    fix f body and n hi :: u16 and s r
    assume IH: "\<And>body n hi s r. f body n hi s = Some r \<Longrightarrow> (\<forall>n s. \<not> isl (body n s)) \<longrightarrow> hi \<noteq> 0xFFFF"
      and eq: "(if n \<le> hi then case body n s of Inl r \<Rightarrow> Some (Inl r) | Inr s' \<Rightarrow> f body (n + 1) hi s'
         else Some (Inr s)) = Some r"
    show "(\<forall>n s. \<not> isl (body n s)) \<longrightarrow> hi \<noteq> 0xFFFF"
    proof (intro impI notI)
      assume nb: "\<forall>n s. \<not> isl (body n s)" and hi: "hi = 0xFFFF"
      have "n \<le> hi" unfolding hi using unsigned_less [of n, where ?'a = nat] by (simp add: word_le_nat_alt)
      moreover obtain s' where "body n s = Inr s'"
        using nb by (metis isl_def old.sum.exhaust)
      ultimately have "f body (n + 1) hi s' = Some r" using eq by simp
      with IH nb hi show False by blast
    qed
  qed
  then show False using nobreak by simp
qed

lemma for_list_Inr_fold:
  "for_list (\<lambda>x s. Inr (f x s)) xs s = Inr (fold f xs s)"
  by (induction xs arbitrary: s) auto

section \<open>Panics and loops that never end\<close>

text \<open>What a call may come to: a run-time panic and a loop that never ends are outcomes of their own.\<close>

datatype 'a outcome = Return 'a | Panic | Diverge

fun and_then :: "'a outcome \<Rightarrow> ('a \<Rightarrow> 'b outcome) \<Rightarrow> 'b outcome" where
  "and_then (Return a) f = f a"
| "and_then Panic f = Panic"
| "and_then Diverge f = Diverge"

lemma and_then_Return [simp]: "and_then m f = Return b \<longleftrightarrow> (\<exists>a. m = Return a \<and> f a = Return b)"
  by (cases m) auto

end
