(* ===== verification/Ddp.thy ===== *)
theory Ddp
  imports Go_Prelude
begin

text \<open>
  The Datagram Delivery Protocol of \<^verbatim>\<open>protocol/ddp/datagram.go\<close>: the datagram, the
  checksum, and the long-header and short-header codecs with every error branch. The lemmas
  show that both codecs are lossless on the datagrams the encoders accept and that the
  checksum catches every change of a single byte (up to the two encodings of zero).
\<close>

record Datagram =
  HopCount :: u8
  DestinationNetwork :: u16
  SourceNetwork :: u16
  DestinationNode :: u8
  SourceNode :: u8
  DestinationSocket :: u8
  SourceSocket :: u8
  DDPType :: u8
  Data :: bytes

datatype ddp_error =
    DataTooShort
  | InvalidHeader
  | InvalidLength
  | InvalidChecksum u16 u16
  | InvalidHeaderValues
  | DataTooLarge nat
  | NonzeroHopCount
  | NotDataFrame u8
  | NodeNotClaimed

definition MaxDataLength :: nat where
  "MaxDataLength = 586"

text \<open>One round of the loop of \<open>Checksum\<close>: add the byte, rotate left by one.\<close>

definition checksum_step :: "u8 \<Rightarrow> u16 \<Rightarrow> u16" where
  "checksum_step b v = (let v = v + ucast b in push_bit 1 (v AND 0x7FFF) OR (drop_bit 15 v AND 1))"

definition checksum_sum :: "bytes \<Rightarrow> u16" where
  "checksum_sum data = fold checksum_step data 0"

definition Checksum :: "bytes \<Rightarrow> u16" where
  "Checksum data = (let v = checksum_sum data in if v = 0 then 0xFFFF else v)"

definition DatagramFromLongHeaderBytes :: "bytes \<Rightarrow> bool \<Rightarrow> ddp_error + Datagram" where
  "DatagramFromLongHeaderBytes data verifyChecksum =
    (if length data < 13 then Inl DataTooShort else
     let first = data ! 0; second = data ! 1 in
     if first AND 0xC0 \<noteq> 0 then Inl InvalidHeader else
     let hop = drop_bit 2 (first AND 0x3C);
         len = int16 (first AND 0x03) second in
     if len > 13 + MaxDataLength \<or> len \<noteq> length data then Inl InvalidLength else
     let checksum = be16 (data ! 2) (data ! 3) in
     if checksum \<noteq> 0 \<and> verifyChecksum \<and> Checksum (drop 4 data) \<noteq> checksum
     then Inl (InvalidChecksum checksum (Checksum (drop 4 data)))
     else Inr \<lparr>HopCount = hop,
            DestinationNetwork = be16 (data ! 4) (data ! 5),
            SourceNetwork = be16 (data ! 6) (data ! 7),
            DestinationNode = data ! 8,
            SourceNode = data ! 9,
            DestinationSocket = data ! 10,
            SourceSocket = data ! 11,
            DDPType = data ! 12,
            Data = drop 13 data\<rparr>)"

definition DatagramFromShortHeaderBytes :: "u8 \<Rightarrow> u8 \<Rightarrow> bytes \<Rightarrow> ddp_error + Datagram" where
  "DatagramFromShortHeaderBytes destinationNode sourceNode data =
    (if length data < 5 then Inl DataTooShort else
     let first = data ! 0; second = data ! 1 in
     if first AND 0xFC \<noteq> 0 then Inl InvalidHeader else
     let len = int16 (first AND 0x03) second in
     if len > 5 + MaxDataLength \<or> len \<noteq> length data then Inl InvalidLength
     else Inr \<lparr>HopCount = 0,
            DestinationNetwork = 0,
            SourceNetwork = 0,
            DestinationNode = destinationNode,
            SourceNode = sourceNode,
            DestinationSocket = data ! 2,
            SourceSocket = data ! 3,
            DDPType = data ! 4,
            Data = drop 5 data\<rparr>)"

text \<open>\<open>Copy\<close> duplicates the payload; values of the model are never shared, so it is \<open>d\<close> itself.\<close>

definition Hop :: "Datagram \<Rightarrow> Datagram" where
  "Hop d = d\<lparr>HopCount := HopCount d + 1\<rparr>"

definition validate :: "Datagram \<Rightarrow> ddp_error option" where
  "validate d =
    (if HopCount d > 15 \<or> DestinationNetwork d > 65534 \<or> SourceNetwork d > 65534
        \<or> SourceNode d = 0 \<or> SourceNode d = 255
     then Some InvalidHeaderValues
     else if length (Data d) > MaxDataLength then Some (DataTooLarge (length (Data d)))
     else None)"

definition AsLongHeaderBytes :: "Datagram \<Rightarrow> bool \<Rightarrow> ddp_error + bytes" where
  "AsLongHeaderBytes d calculateChecksum =
    (case validate d of Some e \<Rightarrow> Inl e | None \<Rightarrow>
     let payload = put16 (DestinationNetwork d) @ put16 (SourceNetwork d) @
           [DestinationNode d, SourceNode d, DestinationSocket d, SourceSocket d, DDPType d] @
           Data d;
         len = 4 + length payload;
         out0 = push_bit 2 (HopCount d AND 0xF) OR word_of_nat (drop_bit 8 (len AND 0x300));
         out1 = word_of_nat (len AND 0xFF)
     in Inr ([out0, out1] @ put16 (if calculateChecksum then Checksum payload else 0) @ payload))"

definition AsShortHeaderBytes :: "Datagram \<Rightarrow> ddp_error + bytes" where
  "AsShortHeaderBytes d =
    (if HopCount d \<noteq> 0 then Inl NonzeroHopCount else
     case validate d of Some e \<Rightarrow> Inl e | None \<Rightarrow>
     let len = 5 + length (Data d) in
     Inr ([word_of_nat (drop_bit 8 (len AND 0x300)), word_of_nat (len AND 0xFF),
           DestinationSocket d, SourceSocket d, DDPType d] @ Data d))"

section \<open>The length field\<close>

lemma length_hi:
  fixes n :: nat
  assumes "n < 1024"
  shows "drop_bit 8 (n AND 0x300) = n div 256" "n div 256 < 4"
proof -
  have "drop_bit 8 (n AND 0x300) = drop_bit 8 n AND (3 :: nat)"
    by (simp add: drop_bit_and)
  also have "\<dots> = take_bit 2 (drop_bit 8 n)"
    by (simp add: take_bit_eq_mask mask_eq_exp_minus_1)
  also have "\<dots> = n div 256"
    using assms by (simp add: take_bit_eq_mod drop_bit_eq_div)
  finally show "drop_bit 8 (n AND 0x300) = n div 256" .
  show "n div 256 < 4" using assms by simp
qed

lemma length_lo: "n AND 0xFF = n mod 256" for n :: nat
proof -
  have "n AND 0xFF = take_bit 8 n"
    by (simp add: take_bit_eq_mask mask_eq_exp_minus_1)
  then show ?thesis by (simp add: take_bit_eq_mod)
qed

lemma word8_below:
  assumes "unat w < n"
  shows "(w :: u8) \<in> word_of_nat ` set [0..<n]"
proof (rule image_eqI)
  show "w = word_of_nat (unat w)" by simp
qed (use assms in simp)

lemma header_byte:
  fixes h :: u8
  assumes "h \<le> 15" and "q < 4"
  defines "f \<equiv> push_bit 2 (h AND 15) OR word_of_nat q"
  shows "f AND 0xC0 = 0" "drop_bit 2 (f AND 0x3C) = h" "f AND 3 = word_of_nat q"
proof -
  have "h \<in> word_of_nat ` set [0..<16]"
    using assms(1) by (intro word8_below) (auto simp: word_le_nat_alt)
  moreover have "q \<in> set [0..<4]" using assms(2) by simp
  moreover have "\<forall>h \<in> word_of_nat ` set [0..<16]. \<forall>q \<in> set [0..<4].
     (push_bit 2 (h AND 15) OR word_of_nat q) AND 0xC0 = (0 :: u8) \<and>
     drop_bit 2 ((push_bit 2 (h AND 15) OR word_of_nat q) AND 0x3C) = h \<and>
     (push_bit 2 (h AND 15) OR word_of_nat q) AND 3 = (word_of_nat q :: u8)"
    by (simp add: upt_rec_numeral upt_rec)
  ultimately show "f AND 0xC0 = 0" "drop_bit 2 (f AND 0x3C) = h" "f AND 3 = word_of_nat q"
    unfolding f_def by blast+
qed

lemma length_bytes:
  assumes "n < 1024"
  shows "int16 (word_of_nat (n div 256)) (word_of_nat (n mod 256)) = n"
proof -
  have "n div 256 < 256" using assms by simp
  then show ?thesis
    by (simp add: int16_eq unat_of_nat take_bit_eq_mod)
qed

lemmas length_field = length_hi length_lo length_bytes

lemma short_header_byte:
  assumes "q < 4"
  shows "(word_of_nat q :: u8) AND 0xFC = 0" "(word_of_nat q :: u8) AND 3 = word_of_nat q"
proof -
  have "q \<in> set [0..<4]" using assms by simp
  moreover have "\<forall>q \<in> set [0..<4]. (word_of_nat q :: u8) AND 0xFC = 0 \<and>
      (word_of_nat q :: u8) AND 3 = word_of_nat q"
    by (simp add: upt_rec_numeral upt_rec)
  ultimately show "(word_of_nat q :: u8) AND 0xFC = 0" "(word_of_nat q :: u8) AND 3 = word_of_nat q"
    by blast+
qed

definition datagram_ok :: "Datagram \<Rightarrow> bool" where
  "datagram_ok d \<longleftrightarrow> validate d = None"

lemma datagram_okD:
  assumes "datagram_ok d"
  shows "HopCount d \<le> 15" "length (Data d) \<le> 586" "SourceNode d \<noteq> 0" "SourceNode d \<noteq> 255"
  using assms by (auto simp: datagram_ok_def validate_def MaxDataLength_def split: if_splits)

lemma AsLongHeaderBytes_ok_iff: "(\<exists>b. AsLongHeaderBytes d c = Inr b) \<longleftrightarrow> datagram_ok d"
  by (auto simp: AsLongHeaderBytes_def datagram_ok_def Let_def split: option.splits)

lemma length_AsLongHeaderBytes:
  "AsLongHeaderBytes d c = Inr b \<Longrightarrow> length b = 13 + length (Data d)"
  by (auto simp: AsLongHeaderBytes_def Let_def split: option.splits)

lemma long_decode_encode:
  assumes "AsLongHeaderBytes d c = Inr b"
  shows "DatagramFromLongHeaderBytes b v = Inr d"
proof -
  define n where "n = 13 + length (Data d)"
  have ok: "datagram_ok d" using assms AsLongHeaderBytes_ok_iff by blast
  note D = datagram_okD [OF ok]
  have n: "n < 1024" using D by (simp add: n_def)
  define pl where "pl = put16 (DestinationNetwork d) @ put16 (SourceNetwork d) @
           [DestinationNode d, SourceNode d, DestinationSocket d, SourceSocket d, DDPType d] @ Data d"
  define h :: u8 where "h = push_bit 2 (HopCount d AND 15) OR word_of_nat (n div 256)"
  have b: "b = [h, word_of_nat (n mod 256)] @ put16 (if c then Checksum pl else 0) @ pl"
    using assms ok n length_lo [of n] length_hi [OF n]
    by (auto simp: AsLongHeaderBytes_def datagram_ok_def Let_def pl_def h_def n_def)
  have h: "h AND 0xC0 = 0" "drop_bit 2 (h AND 0x3C) = HopCount d" "h AND 3 = word_of_nat (n div 256)"
    unfolding h_def using header_byte [OF D(1) length_hi(2) [OF n]] by auto
  have lb: "length b = n" by (simp add: b pl_def n_def)
  have lf: "int16 (h AND 3) (word_of_nat (n mod 256)) = n"
    using length_bytes [OF n] by (simp add: h)
  show ?thesis
    using D lf h lb
    by (simp add: DatagramFromLongHeaderBytes_def MaxDataLength_def n_def b pl_def put16_def)
qed

lemma AsShortHeaderBytes_ok_iff:
  "(\<exists>b. AsShortHeaderBytes d = Inr b) \<longleftrightarrow> HopCount d = 0 \<and> datagram_ok d"
  by (auto simp: AsShortHeaderBytes_def datagram_ok_def Let_def split: option.splits if_splits)

lemma short_decode_encode:
  assumes "AsShortHeaderBytes d = Inr b"
  shows "DatagramFromShortHeaderBytes (DestinationNode d) (SourceNode d) b
           = Inr (d\<lparr>DestinationNetwork := 0, SourceNetwork := 0\<rparr>)"
proof -
  define n where "n = 5 + length (Data d)"
  have ok: "HopCount d = 0" "datagram_ok d" using assms AsShortHeaderBytes_ok_iff by blast+
  note D = datagram_okD [OF ok(2)]
  have n: "n < 1024" using D by (simp add: n_def)
  have b: "b = [word_of_nat (n div 256), word_of_nat (n mod 256), DestinationSocket d, SourceSocket d,
      DDPType d] @ Data d"
    using assms ok n length_lo [of n] length_hi [OF n]
    by (auto simp: AsShortHeaderBytes_def datagram_ok_def Let_def n_def)
  have lf: "int16 (word_of_nat (n div 256) AND 3) (word_of_nat (n mod 256)) = n"
    using length_bytes [OF n] short_header_byte [OF length_hi(2) [OF n]] by simp
  show ?thesis
    using ok D lf short_header_byte [OF length_hi(2) [OF n]]
    by (simp add: DatagramFromShortHeaderBytes_def MaxDataLength_def n_def b)
qed

section \<open>The checksum\<close>

definition rotl1 :: "u16 \<Rightarrow> u16" where
  "rotl1 v = push_bit 1 (v AND 0x7FFF) OR (drop_bit 15 v AND 1)"

lemma bit_rotl1: "k < 15 \<Longrightarrow> bit (rotl1 v) (Suc k) = bit v k" "bit (rotl1 v) 0 = bit v 15"
proof -
  have m: "bit (0x7FFF :: u16) k = (k < 15)" for k
    using bit_mask_iff [where ?'a = u16, of 15 k] by (auto simp: mask_eq_exp_minus_1)
  show "k < 15 \<Longrightarrow> bit (rotl1 v) (Suc k) = bit v k"
    unfolding rotl1_def bit_or_iff bit_push_bit_iff bit_and_iff m by (auto simp: bit_simps)
  show "bit (rotl1 v) 0 = bit v 15"
    unfolding rotl1_def bit_or_iff bit_push_bit_iff bit_and_iff m by (auto simp: bit_simps)
qed

lemma rotl1_inject [simp]: "rotl1 v = rotl1 w \<longleftrightarrow> v = w"
proof
  assume eq: "rotl1 v = rotl1 w"
  show "v = w"
  proof (rule bit_word_eqI)
    fix k assume "k < LENGTH(16)"
    then consider "k < 15" | "k = 15" by fastforce
    then show "bit v k = bit w k"
      by cases (metis eq bit_rotl1)+
  qed
qed simp

lemma checksum_step_rotl1: "checksum_step b v = rotl1 (v + ucast b)"
  by (simp add: checksum_step_def rotl1_def Let_def)

lemma fold_checksum_inject [simp]:
  "fold checksum_step xs v = fold checksum_step xs w \<longleftrightarrow> v = w"
  by (induction xs arbitrary: v w) (auto simp: checksum_step_rotl1)

lemma checksum_sum_single:
  "checksum_sum (xs @ a # ys) = checksum_sum (xs @ b # ys) \<longleftrightarrow> a = b"
proof -
  have "(ucast a :: u16) = ucast b \<longleftrightarrow> a = b" for a b :: u8
    by (metis be16_def lo8_be16 or.left_neutral push_bit_of_0 ucast_0)
  then show ?thesis by (simp add: checksum_sum_def checksum_step_rotl1)
qed

lemma Checksum_nonzero [simp]: "Checksum xs \<noteq> 0"
  by (simp add: Checksum_def Let_def)

lemma Checksum_eqD:
  assumes "Checksum xs = Checksum ys" "checksum_sum xs \<noteq> checksum_sum ys"
  shows "{checksum_sum xs, checksum_sum ys} = {0, 0xFFFF}"
  using assms by (auto simp: Checksum_def Let_def split: if_splits)

section \<open>The codecs as providers of the wire interface\<close>

interpretation long_header: wire_codec datagram_ok "\<lambda>d. AsLongHeaderBytes d calc"
    "\<lambda>b. DatagramFromLongHeaderBytes b verify" 599 for calc verify
proof
  fix d b
  assume ok: "datagram_ok d"
  then show "\<exists>b. AsLongHeaderBytes d calc = Inr b"
    by (simp add: AsLongHeaderBytes_ok_iff)
  assume enc: "AsLongHeaderBytes d calc = Inr b"
  then show "DatagramFromLongHeaderBytes b verify = Inr d"
    by (rule long_decode_encode)
  show "length b \<le> 599"
    using length_AsLongHeaderBytes [OF enc] datagram_okD(2) [OF ok] by simp
qed

definition short_ok :: "u8 \<Rightarrow> u8 \<Rightarrow> Datagram \<Rightarrow> bool" where
  "short_ok dst src d \<longleftrightarrow> datagram_ok d \<and> HopCount d = 0 \<and> DestinationNode d = dst
     \<and> SourceNode d = src \<and> DestinationNetwork d = 0 \<and> SourceNetwork d = 0"

interpretation short_header: wire_codec "short_ok dst src" AsShortHeaderBytes
    "DatagramFromShortHeaderBytes dst src" 591 for dst src
proof
  fix d b
  assume ok: "short_ok dst src d"
  then show "\<exists>b. AsShortHeaderBytes d = Inr b"
    by (simp add: AsShortHeaderBytes_ok_iff short_ok_def)
  assume enc: "AsShortHeaderBytes d = Inr b"
  from short_decode_encode [OF enc] ok show "DatagramFromShortHeaderBytes dst src b = Inr d"
    by (simp add: short_ok_def)
  show "length b \<le> 591"
    using enc ok datagram_okD(2) [of d]
    by (auto simp: AsShortHeaderBytes_def short_ok_def Let_def split: option.splits)
qed

section \<open>Properties\<close>

text \<open>
  C6. A datagram that passes \<open>validate\<close> is encoded with a long header in 13 bytes more than
  its payload, never more than 599, and decoding those bytes, with or without checking the
  checksum, gives back the same datagram.
\<close>

theorem ddp_long_roundtrip:
  assumes "validate d = None"
  shows "\<exists>b. AsLongHeaderBytes d calc = Inr b \<and> length b = 13 + length (Data d) \<and> length b \<le> 599
           \<and> DatagramFromLongHeaderBytes b verify = Inr d"
  using long_header.roundtrip [of d calc verify] assms length_AsLongHeaderBytes
  by (auto simp: datagram_ok_def)

definition sample_datagram :: Datagram where
  "sample_datagram = \<lparr>HopCount = 3, DestinationNetwork = 1000, SourceNetwork = 5,
     DestinationNode = 12, SourceNode = 7, DestinationSocket = 4, SourceSocket = 128, DDPType = 4,
     Data = [1, 2, 3]\<rparr>"

theorem ddp_long_roundtrip_witness:
  "validate sample_datagram = None \<and>
   (\<exists>b. AsLongHeaderBytes sample_datagram True = Inr b \<and> length b = 16 \<and>
        DatagramFromLongHeaderBytes b True = Inr sample_datagram)"
proof -
  have v: "validate sample_datagram = None"
    by (simp add: validate_def sample_datagram_def MaxDataLength_def)
  then show ?thesis
    using ddp_long_roundtrip [OF v, of True True] by (auto simp: sample_datagram_def)
qed

text \<open>
  The short header carries no network numbers and no hop count: a zero-hop datagram that
  passes \<open>validate\<close> is recovered from its short form and the LLAP node addresses, with both
  network numbers read back as zero (the local network).
\<close>

theorem ddp_short_roundtrip:
  assumes "validate d = None" and "HopCount d = 0"
  shows "\<exists>b. AsShortHeaderBytes d = Inr b \<and>
           DatagramFromShortHeaderBytes (DestinationNode d) (SourceNode d) b
             = Inr (d\<lparr>DestinationNetwork := 0, SourceNetwork := 0\<rparr>)"
  using assms AsShortHeaderBytes_ok_iff [of d] short_decode_encode [of d]
  by (auto simp: datagram_ok_def)

theorem ddp_short_roundtrip_witness:
  "\<exists>b. AsShortHeaderBytes (sample_datagram\<lparr>HopCount := 0\<rparr>) = Inr b \<and>
     DatagramFromShortHeaderBytes 12 7 b
       = Inr (sample_datagram\<lparr>HopCount := 0, DestinationNetwork := 0, SourceNetwork := 0\<rparr>)"
  using ddp_short_roundtrip [of "sample_datagram\<lparr>HopCount := 0\<rparr>"]
  by (simp add: validate_def sample_datagram_def MaxDataLength_def)



end
