(* ===== verification/Mac_Roman.thy ===== *)
theory Mac_Roman
  imports Go_Prelude
begin

text \<open>
  The MacRoman case folding of \<^verbatim>\<open>pkg/encoding/macroman.go\<close>, which decides when two zone
  names are the same zone, and the second copy of it in \<^verbatim>\<open>port/ethertalk/ethertalk.go\<close>.
  The tables are built as \<open>init\<close> builds them: an identity array, then one store per letter.
\<close>

definition atalkLower :: bytes where
  "atalkLower = map word_of_nat [97..<123] @
     [0x88, 0x8A, 0x8B, 0x8C, 0x8D, 0x8E, 0x96, 0x9A, 0x9B, 0x9F, 0xBE, 0xBF, 0xCF]"

definition atalkUpper :: bytes where
  "atalkUpper = map word_of_nat [65..<91] @
     [0xCB, 0x80, 0xCC, 0x81, 0x82, 0x83, 0x84, 0x85, 0xCD, 0x86, 0xAE, 0xAF, 0xCE]"

definition identity_table :: bytes where
  "identity_table = map word_of_nat [0..<256]"

fun store_all :: "(u8 \<times> u8) list \<Rightarrow> bytes \<Rightarrow> bytes" where
  "store_all [] t = t"
| "store_all ((i, v) # ps) t = store_all ps (t[unat i := v])"

definition macRomanToUpper :: bytes where
  "macRomanToUpper = store_all (zip atalkLower atalkUpper) identity_table"

definition macRomanToLower :: bytes where
  "macRomanToLower = store_all (zip atalkUpper atalkLower) identity_table"

definition MacRomanToUpper :: "bytes \<Rightarrow> bytes" where
  "MacRomanToUpper b = map (\<lambda>c. macRomanToUpper ! unat c) b"

definition MacRomanToLower :: "bytes \<Rightarrow> bytes" where
  "MacRomanToLower b = map (\<lambda>c. macRomanToLower ! unat c) b"

text \<open>The linear search of \<open>ucase\<close> in the EtherTalk port.\<close>

fun ucase_byte :: "(u8 \<times> u8) list \<Rightarrow> u8 \<Rightarrow> u8" where
  "ucase_byte [] b = b"
| "ucase_byte ((l, u) # ps) b = (if l = b then u else ucase_byte ps b)"

definition ucase :: "bytes \<Rightarrow> bytes" where
  "ucase input = map (ucase_byte (zip atalkLower atalkUpper)) input"

section \<open>The tables as finite maps\<close>

lemma unat_lt_256: "unat (b :: u8) < 256"
  using unsigned_less [of b, where ?'a = nat] by simp

lemma length_store_all [simp]: "length (store_all ps t) = length t"
  by (induction ps t rule: store_all.induct) auto

lemma length_identity_table [simp]: "length identity_table = 256"
  by (simp add: identity_table_def)

lemma store_all_nth:
  assumes "distinct (map fst ps)" and "length t = 256"
  shows "store_all ps t ! unat c = (case map_of ps c of None \<Rightarrow> t ! unat c | Some v \<Rightarrow> v)"
  using assms
proof (induction ps t rule: store_all.induct)
  case (2 i v ps t)
  show ?case
  proof (cases "c = i")
    case True
    then have "map_of ps c = None" using "2.prems" by (simp add: map_of_eq_None_iff)
    then show ?thesis using "2.IH" "2.prems" True unat_lt_256 [of i] by simp
  next
    case False
    then have "unat i \<noteq> unat c" by (metis word_unat_eq_iff)
    then show ?thesis using "2.IH" "2.prems" False by (simp split: option.split)
  qed
qed simp

lemma identity_table_nth [simp]: "identity_table ! unat (c :: u8) = c"
  using unat_lt_256 [of c] by (simp add: identity_table_def)

lemma letters_simps:
  "atalkLower = [97, 98, 99, 100, 101, 102, 103, 104, 105, 106, 107, 108, 109, 110, 111, 112, 113,
     114, 115, 116, 117, 118, 119, 120, 121, 122,
     0x88, 0x8A, 0x8B, 0x8C, 0x8D, 0x8E, 0x96, 0x9A, 0x9B, 0x9F, 0xBE, 0xBF, 0xCF]"
  "atalkUpper = [65, 66, 67, 68, 69, 70, 71, 72, 73, 74, 75, 76, 77, 78, 79, 80, 81, 82, 83, 84,
     85, 86, 87, 88, 89, 90,
     0xCB, 0x80, 0xCC, 0x81, 0x82, 0x83, 0x84, 0x85, 0xCD, 0x86, 0xAE, 0xAF, 0xCE]"
  by (simp_all add: atalkLower_def atalkUpper_def upt_rec_numeral)

lemma distinct_letters: "distinct atalkLower" "distinct atalkUpper"
    "set atalkLower \<inter> set atalkUpper = {}" "length atalkLower = length atalkUpper"
  by (simp_all add: letters_simps)

definition upper_of :: "u8 \<Rightarrow> u8" where
  "upper_of c = (case map_of (zip atalkLower atalkUpper) c of None \<Rightarrow> c | Some u \<Rightarrow> u)"

definition lower_of :: "u8 \<Rightarrow> u8" where
  "lower_of c = (case map_of (zip atalkUpper atalkLower) c of None \<Rightarrow> c | Some l \<Rightarrow> l)"

lemma macRomanToUpper_nth [simp]: "macRomanToUpper ! unat c = upper_of c"
  by (simp add: macRomanToUpper_def upper_of_def store_all_nth distinct_letters map_fst_zip
      cong: option.case_cong)

lemma macRomanToLower_nth [simp]: "macRomanToLower ! unat c = lower_of c"
  by (simp add: macRomanToLower_def lower_of_def store_all_nth distinct_letters map_fst_zip
      cong: option.case_cong)

lemma MacRomanToUpper_map: "MacRomanToUpper b = map upper_of b"
  by (simp add: MacRomanToUpper_def)

lemma MacRomanToLower_map: "MacRomanToLower b = map lower_of b"
  by (simp add: MacRomanToLower_def)

lemma upper_of_not_lower: "upper_of c \<notin> set atalkLower"
proof (cases "map_of (zip atalkLower atalkUpper) c")
  case None
  then have "c \<notin> set atalkLower"
    by (simp add: map_of_zip_is_None distinct_letters)
  then show ?thesis using None by (simp add: upper_of_def)
next
  case (Some u)
  then have "u \<in> set atalkUpper"
    by (meson map_of_SomeD set_zip_rightD)
  then show ?thesis using Some distinct_letters(3) by (auto simp: upper_of_def)
qed

lemma upper_of_idem [simp]: "upper_of (upper_of c) = upper_of c"
proof -
  have "map_of (zip atalkLower atalkUpper) (upper_of c) = None"
    using upper_of_not_lower [of c] by (simp add: map_of_zip_is_None distinct_letters)
  then show ?thesis by (simp add: upper_of_def [of "upper_of c"])
qed

lemma MacRomanToUpper_idem [simp]: "MacRomanToUpper (MacRomanToUpper b) = MacRomanToUpper b"
  by (simp add: MacRomanToUpper_map)

lemma length_MacRomanToUpper [simp]: "length (MacRomanToUpper b) = length b"
  by (simp add: MacRomanToUpper_map)

lemma ucase_byte_map_of:
  "ucase_byte ps b = (case map_of ps b of None \<Rightarrow> b | Some u \<Rightarrow> u)"
  by (induction ps b rule: ucase_byte.induct) auto

text \<open>Upper-casing after lower-casing loses nothing that case folding keeps.\<close>

lemma map_of_zip_swap:
  assumes "distinct xs" "distinct ys" "length xs = length ys"
  shows "map_of (zip xs ys) x = Some y \<longleftrightarrow> map_of (zip ys xs) y = Some x"
  using assms by (auto simp: in_set_zip map_of_eq_Some_iff)

lemma upper_lower: "upper_of (lower_of c) = upper_of c"
proof (cases "map_of (zip atalkUpper atalkLower) c")
  case None
  then show ?thesis by (simp add: lower_of_def)
next
  case (Some l)
  then have "map_of (zip atalkLower atalkUpper) l = Some c"
    using map_of_zip_swap distinct_letters by metis
  then have "upper_of l = c" by (simp add: upper_of_def)
  then show ?thesis using Some upper_of_idem [of l] by (simp add: lower_of_def)
qed

text \<open>
  C9. The two case-folding routines of the program agree: the linear search of the EtherTalk
  port gives what the table lookup of \<open>MacRomanToUpper\<close> gives. Folding is idempotent, and it
  is insensitive to a previous \<open>MacRomanToLower\<close>.
\<close>

theorem mac_roman_case_folding:
  "ucase b = MacRomanToUpper b \<and>
   MacRomanToUpper (MacRomanToUpper b) = MacRomanToUpper b \<and>
   MacRomanToUpper (MacRomanToLower b) = MacRomanToUpper b"
  by (simp add: ucase_def MacRomanToUpper_map MacRomanToLower_map ucase_byte_map_of upper_lower
      flip: upper_of_def cong: map_cong)

end
