(* ===== verification/Zone_Table.thy ===== *)
theory Zone_Table
  imports Mac_Roman
begin

text \<open>
  The zone information table of \<^verbatim>\<open>router/zone_information_table.go\<close>: five maps that relate
  network ranges, the zones on them, their default zone and the canonical spelling of each
  zone name. The invariant \<open>zit_inv\<close> ties the maps together; every operation keeps it, on its
  error branches too, and under it no operation can write to a nil map.
\<close>

definition UCase :: "bytes \<Rightarrow> bytes" where
  "UCase input = MacRomanToUpper input"

record ZoneInformationTable =
  networkMinToMax :: "(u16, u16) gomap"
  networkMinToZones :: "(u16, (bytes, bytes) gomap) gomap"
  networkMinToDefaultZone :: "(u16, bytes) gomap"
  zoneToNetworkMins :: "(bytes, (u16, unit) gomap) gomap"
  ucaseToZone :: "(bytes, bytes) gomap"

datatype zit_error = RangeNotExist u16 | RangeOverlaps | RangeBackwards | NilMapWrite

definition NewZoneInformationTable :: ZoneInformationTable where
  "NewZoneInformationTable = \<lparr>networkMinToMax = [], networkMinToZones = [],
     networkMinToDefaultZone = [], zoneToNetworkMins = [], ucaseToZone = []\<rparr>"

definition checkRange ::
    "ZoneInformationTable \<Rightarrow> u16 \<Rightarrow> u16 option \<Rightarrow> zit_error + (u16 \<times> bool)" where
  "checkRange z networkMin networkMax =
    (let lookedUp = map_of (networkMinToMax z) networkMin in
     case networkMax of
       None \<Rightarrow> (case lookedUp of None \<Rightarrow> Inl (RangeNotExist networkMin) | Some mx \<Rightarrow> Inr (mx, True))
     | Some nmax \<Rightarrow>
         (case lookedUp of
            Some mx \<Rightarrow> if mx = nmax then Inr (nmax, True) else Inl RangeOverlaps
          | None \<Rightarrow>
              if list_ex (\<lambda>(emn, emx). emn \<le> nmax \<and> emx \<ge> networkMin) (networkMinToMax z)
              then Inl RangeOverlaps else Inr (nmax, False)))"

text \<open>
  The first half of \<open>AddNetworksToZone\<close>: the canonical spelling of the zone, registered when
  the zone is new. It happens before the range is checked, as in the source.
\<close>

definition registerZone :: "ZoneInformationTable \<Rightarrow> bytes \<Rightarrow> bytes \<times> ZoneInformationTable" where
  "registerZone z zoneName =
    (case map_of (ucaseToZone z) (UCase zoneName) of
       Some existing \<Rightarrow> (existing, z)
     | None \<Rightarrow> (zoneName, z\<lparr>ucaseToZone := AList.update (UCase zoneName) zoneName (ucaseToZone z),
                 zoneToNetworkMins := AList.update zoneName [] (zoneToNetworkMins z)\<rparr>))"

definition addMin :: "u16 \<Rightarrow> bytes \<Rightarrow> ZoneInformationTable \<Rightarrow> zit_error option \<times> ZoneInformationTable" where
  "addMin networkMin zoneName z =
    (case map_of (zoneToNetworkMins z) zoneName of
       None \<Rightarrow> (Some NilMapWrite, z)
     | Some ms \<Rightarrow> (None, z\<lparr>zoneToNetworkMins :=
           AList.update zoneName (AList.update networkMin () ms) (zoneToNetworkMins z)\<rparr>))"

definition AddNetworksToZone ::
    "ZoneInformationTable \<Rightarrow> bytes \<Rightarrow> u16 \<Rightarrow> u16 option \<Rightarrow> zit_error option \<times> ZoneInformationTable" where
  "AddNetworksToZone z0 zoneName0 networkMin networkMax =
    (if (case networkMax of None \<Rightarrow> False | Some nmax \<Rightarrow> nmax < networkMin)
     then (Some RangeBackwards, z0) else
     let (zoneName, z) = registerZone z0 zoneName0 in
     case checkRange z networkMin networkMax of
       Inl e \<Rightarrow> (Some e, z)
     | Inr (rmax, exists) \<Rightarrow>
         if \<not> exists then
           addMin networkMin zoneName
             (z\<lparr>networkMinToMax := AList.update networkMin rmax (networkMinToMax z),
                networkMinToZones := AList.update networkMin [(zoneName, zoneName)] (networkMinToZones z),
                networkMinToDefaultZone :=
                  AList.update networkMin zoneName (networkMinToDefaultZone z)\<rparr>)
         else
           (case map_of (networkMinToZones z) networkMin of
              None \<Rightarrow> (Some NilMapWrite, z)
            | Some zs \<Rightarrow> addMin networkMin zoneName
                (z\<lparr>networkMinToZones :=
                     AList.update networkMin (AList.update zoneName zoneName zs) (networkMinToZones z)\<rparr>)))"

text \<open>The loop of \<open>RemoveNetworks\<close> over the zones of the range; deleting from a nil map is allowed.\<close>

definition dropOne :: "u16 \<Rightarrow> bytes \<Rightarrow> ZoneInformationTable \<Rightarrow> ZoneInformationTable" where
  "dropOne networkMin key z =
    (let m = AList.delete networkMin
               (case map_of (zoneToNetworkMins z) key of None \<Rightarrow> [] | Some ms \<Rightarrow> ms) in
     if m = []
     then z\<lparr>zoneToNetworkMins := AList.delete key (zoneToNetworkMins z),
            ucaseToZone := AList.delete (UCase key) (ucaseToZone z)\<rparr>
     else z\<lparr>zoneToNetworkMins := AList.update key m (zoneToNetworkMins z)\<rparr>)"

fun dropMin :: "u16 \<Rightarrow> bytes list \<Rightarrow> ZoneInformationTable \<Rightarrow> ZoneInformationTable" where
  "dropMin networkMin [] z = z"
| "dropMin networkMin (key # keys) z = dropMin networkMin keys (dropOne networkMin key z)"

definition forgetRange :: "u16 \<Rightarrow> ZoneInformationTable \<Rightarrow> ZoneInformationTable" where
  "forgetRange networkMin z =
    z\<lparr>networkMinToDefaultZone := AList.delete networkMin (networkMinToDefaultZone z),
      networkMinToZones := AList.delete networkMin (networkMinToZones z),
      networkMinToMax := AList.delete networkMin (networkMinToMax z)\<rparr>"

definition RemoveNetworks ::
    "ZoneInformationTable \<Rightarrow> u16 \<Rightarrow> u16 option \<Rightarrow> zit_error option \<times> ZoneInformationTable" where
  "RemoveNetworks z networkMin networkMax =
    (case checkRange z networkMin networkMax of
       Inl e \<Rightarrow> (Some e, z)
     | Inr (rmax, exists) \<Rightarrow>
         if \<not> exists \<or> rmax = 0 then (None, z)
         else (None, forgetRange networkMin (dropMin networkMin
                (case map_of (networkMinToZones z) networkMin of None \<Rightarrow> [] | Some zs \<Rightarrow> map fst zs) z)))"

definition Zones :: "ZoneInformationTable \<Rightarrow> bytes list" where
  "Zones z = map fst (zoneToNetworkMins z)"

definition ZonesInNetworkRange ::
    "ZoneInformationTable \<Rightarrow> u16 \<Rightarrow> u16 option \<Rightarrow> zit_error + bytes list" where
  "ZonesInNetworkRange z networkMin networkMax =
    (case checkRange z networkMin networkMax of
       Inl e \<Rightarrow> Inl e
     | Inr (_, exists) \<Rightarrow>
         if \<not> exists then Inr [] else
         let def = (case map_of (networkMinToDefaultZone z) networkMin of None \<Rightarrow> [] | Some d \<Rightarrow> d);
             zs = (case map_of (networkMinToZones z) networkMin of None \<Rightarrow> [] | Some zs \<Rightarrow> zs) in
         Inr (def # filter (\<lambda>v. v \<noteq> def) (map snd zs)))"

text \<open>
  \<open>NetworksInZone\<close> lists the networks of every range of the zone; a range up to 0xFFFF never
  ends (\<open>None\<close>). An absent range reads as \<open>nmax = 0\<close>, Go's zero value, and the test
  \<open>canonical == nil\<close> also holds for an empty name, whose stored copy is a nil slice.
\<close>

fun networksOfMins :: "ZoneInformationTable \<Rightarrow> u16 list \<Rightarrow> u16 list \<Rightarrow> u16 list option" where
  "networksOfMins z [] out = Some out"
| "networksOfMins z (nmin # ns) out =
    (let nmax = (case map_of (networkMinToMax z) nmin of None \<Rightarrow> 0 | Some mx \<Rightarrow> mx) in
     case for_u16 (\<lambda>n acc. Inr (acc @ [n]) :: unit + u16 list) nmin nmax out of
       None \<Rightarrow> None
     | Some (Inl _) \<Rightarrow> None
     | Some (Inr out') \<Rightarrow> networksOfMins z ns out')"

definition NetworksInZone :: "ZoneInformationTable \<Rightarrow> bytes \<Rightarrow> u16 list option" where
  "NetworksInZone z zoneName =
    (case map_of (ucaseToZone z) (UCase zoneName) of
       None \<Rightarrow> Some []
     | Some canonical \<Rightarrow>
         if canonical = [] then Some [] else
         networksOfMins z
           (case map_of (zoneToNetworkMins z) canonical of None \<Rightarrow> [] | Some ms \<Rightarrow> map fst ms) [])"

section \<open>The invariant\<close>

definition zoneOn :: "ZoneInformationTable \<Rightarrow> u16 \<Rightarrow> bytes \<Rightarrow> bool" where
  "zoneOn z n k \<longleftrightarrow> (\<exists>zs. map_of (networkMinToZones z) n = Some zs \<and> map_of zs k \<noteq> None)"

definition minOf :: "ZoneInformationTable \<Rightarrow> bytes \<Rightarrow> u16 \<Rightarrow> bool" where
  "minOf z k n \<longleftrightarrow> (\<exists>ms. map_of (zoneToNetworkMins z) k = Some ms \<and> map_of ms n \<noteq> None)"

definition zit_wf :: "ZoneInformationTable \<Rightarrow> bool" where
  "zit_wf z \<longleftrightarrow> wf_gomap (networkMinToMax z) \<and> wf_gomap (networkMinToZones z) \<and>
     wf_gomap (networkMinToDefaultZone z) \<and> wf_gomap (zoneToNetworkMins z) \<and>
     wf_gomap (ucaseToZone z) \<and>
     (\<forall>n zs. map_of (networkMinToZones z) n = Some zs \<longrightarrow>
        wf_gomap zs \<and> (\<forall>k v. map_of zs k = Some v \<longrightarrow> v = k)) \<and>
     (\<forall>k ms. map_of (zoneToNetworkMins z) k = Some ms \<longrightarrow> wf_gomap ms)"

definition zit_ranges :: "ZoneInformationTable \<Rightarrow> bool" where
  "zit_ranges z \<longleftrightarrow>
     (\<forall>n. map_of (networkMinToZones z) n = None \<longleftrightarrow> map_of (networkMinToMax z) n = None) \<and>
     (\<forall>n. map_of (networkMinToDefaultZone z) n = None \<longleftrightarrow> map_of (networkMinToMax z) n = None) \<and>
     (\<forall>n m. map_of (networkMinToMax z) n = Some m \<longrightarrow> n \<le> m) \<and>
     (\<forall>n m n' m'. map_of (networkMinToMax z) n = Some m \<longrightarrow> map_of (networkMinToMax z) n' = Some m'
        \<longrightarrow> n \<noteq> n' \<longrightarrow> m < n' \<or> m' < n)"

definition zit_names :: "ZoneInformationTable \<Rightarrow> bool" where
  "zit_names z \<longleftrightarrow>
     (\<forall>u c. map_of (ucaseToZone z) u = Some c \<longleftrightarrow>
        UCase c = u \<and> map_of (zoneToNetworkMins z) c \<noteq> None)"

definition zit_links :: "ZoneInformationTable \<Rightarrow> bool" where
  "zit_links z \<longleftrightarrow> (\<forall>n k. zoneOn z n k \<longleftrightarrow> minOf z k n) \<and>
     (\<forall>n d. map_of (networkMinToDefaultZone z) n = Some d \<longrightarrow> zoneOn z n d)"

definition zit_inv :: "ZoneInformationTable \<Rightarrow> bool" where
  "zit_inv z \<longleftrightarrow> zit_wf z \<and> zit_ranges z \<and> zit_names z \<and> zit_links z"

lemmas zit_defs = zit_wf_def zit_ranges_def zit_names_def zit_links_def zit_inv_def

lemma zit_inv_New: "zit_inv NewZoneInformationTable"
  by (simp add: zit_defs NewZoneInformationTable_def zoneOn_def minOf_def)

subsection \<open>Looking a range up\<close>

lemma checkRange_exists:
  "checkRange z n mx = Inr (m, True) \<longleftrightarrow>
     map_of (networkMinToMax z) n = Some m \<and> (mx = None \<or> mx = Some m)"
  by (auto simp: checkRange_def Let_def split: option.splits if_splits)

lemma checkRange_newD:
  assumes "checkRange z n mx = Inr (m, False)"
  shows "mx = Some m" "map_of (networkMinToMax z) n = None"
    "map_of (networkMinToMax z) a = Some b \<Longrightarrow> m < a \<or> b < n"
  using assms
  by (force simp: checkRange_def list_ex_iff Let_def not_le dest: map_of_SomeD
      split: option.splits if_splits)+

subsection \<open>Adding\<close>

lemma registerZone_old:
  "map_of (ucaseToZone z0) (UCase zn0) = Some e \<Longrightarrow> registerZone z0 zn0 = (e, z0)"
  by (simp add: registerZone_def)

lemma registerZone_new:
  assumes "zit_inv z0" "map_of (ucaseToZone z0) (UCase zn) = None" "registerZone z0 zn = (zn', z)"
  shows "zn' = zn" "zit_inv z" "map_of (zoneToNetworkMins z) zn = Some []"
proof -
  show zn: "zn' = zn" using assms by (simp add: registerZone_def)
  have z: "z = z0\<lparr>ucaseToZone := AList.update (UCase zn) zn (ucaseToZone z0),
                 zoneToNetworkMins := AList.update zn [] (zoneToNetworkMins z0)\<rparr>"
    using assms by (auto simp: registerZone_def)
  show "map_of (zoneToNetworkMins z) zn = Some []" by (simp add: z)
  have names: "map_of (ucaseToZone z0) u = Some c \<longleftrightarrow>
        UCase c = u \<and> map_of (zoneToNetworkMins z0) c \<noteq> None" for u c
    using assms(1) by (simp add: zit_inv_def zit_names_def)
  have fresh: "map_of (zoneToNetworkMins z0) c = None" if "UCase c = UCase zn" for c
    using names [of "UCase zn" c] assms(2) that by (simp del: not_None_eq)
  have "zit_names z"
    unfolding zit_names_def using names fresh by (auto simp: z)
  moreover have "zit_links z"
  proof -
    have "zoneOn z n k = zoneOn z0 n k" for n k by (simp add: zoneOn_def z)
    moreover have "minOf z k n = minOf z0 k n" for n k
      using fresh [of zn] by (simp add: minOf_def z)
    ultimately show ?thesis using assms(1) by (auto simp: zit_inv_def zit_links_def z)
  qed
  moreover have "zit_wf z" "zit_ranges z"
    using assms(1) by (auto simp: zit_inv_def zit_wf_def zit_ranges_def z)
  ultimately show "zit_inv z" by (simp add: zit_inv_def)
qed

lemma registerZone_inv:
  assumes "zit_inv z0" "registerZone z0 zn0 = (zn, z)"
  shows "zit_inv z" "\<exists>ms. map_of (zoneToNetworkMins z) zn = Some ms" "UCase zn = UCase zn0"
    "networkMinToMax z = networkMinToMax z0" "networkMinToZones z = networkMinToZones z0"
    "networkMinToDefaultZone z = networkMinToDefaultZone z0"
proof -
  show "networkMinToMax z = networkMinToMax z0" "networkMinToZones z = networkMinToZones z0"
    "networkMinToDefaultZone z = networkMinToDefaultZone z0"
    using assms(2) by (auto simp: registerZone_def split: option.splits)
  show "zit_inv z" "\<exists>ms. map_of (zoneToNetworkMins z) zn = Some ms" "UCase zn = UCase zn0"
    using assms registerZone_new [OF assms(1), of zn0 zn z] registerZone_old [of z0 zn0]
    by (cases "map_of (ucaseToZone z0) (UCase zn0)"; force simp: zit_inv_def zit_names_def)+
qed

text \<open>What a successful addition to a registered zone does to the five maps.\<close>

lemma add_link_inv:
  assumes inv: "zit_inv z" and ms: "map_of (zoneToNetworkMins z) zn = Some ms"
    and zs: "map_of (networkMinToZones z) n = Some zs"
  shows "zit_inv (z\<lparr>networkMinToZones := AList.update n (AList.update zn zn zs) (networkMinToZones z),
     zoneToNetworkMins := AList.update zn (AList.update n () ms) (zoneToNetworkMins z)\<rparr>)" (is "zit_inv ?z")
proof -
  have "zit_wf ?z" using inv ms zs unfolding zit_inv_def zit_wf_def by auto
  moreover have "map_of (networkMinToMax z) n \<noteq> None"
    using inv zs unfolding zit_inv_def zit_ranges_def by (metis option.distinct(1))
  then have "zit_ranges ?z" using inv zs unfolding zit_inv_def zit_ranges_def by auto
  moreover have "zit_names ?z" using inv ms unfolding zit_inv_def zit_names_def by auto
  moreover have "zit_links ?z"
  proof -
    have "zoneOn ?z m k = (zoneOn z m k \<or> m = n \<and> k = zn)" for m k
      using zs by (auto simp: zoneOn_def)
    moreover have "minOf ?z k m = (minOf z k m \<or> m = n \<and> k = zn)" for m k
      using ms by (auto simp: minOf_def)
    ultimately show ?thesis using inv by (auto simp: zit_inv_def zit_links_def)
  qed
  ultimately show ?thesis by (simp add: zit_inv_def)
qed

lemma add_range_inv:
  assumes inv: "zit_inv z" and ms: "map_of (zoneToNetworkMins z) zn = Some ms"
    and new: "map_of (networkMinToMax z) n = None" and le: "n \<le> m"
    and disj: "\<And>a b. map_of (networkMinToMax z) a = Some b \<Longrightarrow> m < a \<or> b < n"
  shows "zit_inv (z\<lparr>networkMinToMax := AList.update n m (networkMinToMax z),
     networkMinToZones := AList.update n [(zn, zn)] (networkMinToZones z),
     networkMinToDefaultZone := AList.update n zn (networkMinToDefaultZone z),
     zoneToNetworkMins := AList.update zn (AList.update n () ms) (zoneToNetworkMins z)\<rparr>)" (is "zit_inv ?z")
proof -
  have fresh: "map_of (networkMinToZones z) n = None" "map_of (networkMinToDefaultZone z) n = None"
    using inv new by (auto simp: zit_inv_def zit_ranges_def)
  have "zit_wf ?z" using inv ms unfolding zit_inv_def zit_wf_def by auto
  moreover have "zit_ranges ?z"
    using inv le disj unfolding zit_inv_def zit_ranges_def by auto
  moreover have "zit_names ?z" using inv ms unfolding zit_inv_def zit_names_def by auto
  moreover have "zit_links ?z"
  proof -
    have "zoneOn ?z m k = (zoneOn z m k \<or> m = n \<and> k = zn)" for m k
      using fresh by (auto simp: zoneOn_def)
    moreover have "minOf ?z k m = (minOf z k m \<or> m = n \<and> k = zn)" for m k
      using ms by (auto simp: minOf_def)
    ultimately show ?thesis using inv by (auto simp: zit_inv_def zit_links_def)
  qed
  ultimately show ?thesis by (simp add: zit_inv_def)
qed

lemma AddNetworksToZone_inv:
  assumes inv: "zit_inv z0" and add: "AddNetworksToZone z0 zn0 n mx = (r, z')"
  shows "zit_inv z'" "r \<noteq> Some NilMapWrite"
proof -
  obtain zn z where reg: "registerZone z0 zn0 = (zn, z)" by fastforce
  note R = registerZone_inv [OF inv reg]
  obtain ms where ms: "map_of (zoneToNetworkMins z) zn = Some ms" using R(2) by blast
  have "zit_inv z' \<and> r \<noteq> Some NilMapWrite"
  proof (cases "case mx of None \<Rightarrow> False | Some nmax \<Rightarrow> nmax < n")
    case True
    then show ?thesis using add inv by (auto simp: AddNetworksToZone_def)
  next
    case fwd: False
    show ?thesis
    proof (cases "checkRange z n mx")
      case (Inl e)
      then have "e \<noteq> NilMapWrite" by (auto simp: checkRange_def Let_def split: option.splits if_splits)
      with Inl fwd show ?thesis
        using add R(1) by (auto simp: AddNetworksToZone_def reg)
    next
      case (Inr re)
      then obtain m ex where ck: "checkRange z n mx = Inr (m, ex)" by (cases re) auto
      show ?thesis
      proof (cases ex)
        case True
        then have "map_of (networkMinToMax z) n = Some m" using ck by (simp add: checkRange_exists)
        then obtain zs where zs: "map_of (networkMinToZones z) n = Some zs"
          using R(1) by (force simp: zit_inv_def zit_ranges_def)
        show ?thesis
          using add fwd ck True zs ms add_link_inv [OF R(1) ms zs]
          by (auto simp: AddNetworksToZone_def reg addMin_def)
      next
        case False
        have "n \<le> m" using checkRange_newD(1) [of z n mx m] ck False fwd by auto
        then show ?thesis
          using add fwd ck False ms
            add_range_inv [OF R(1) ms _ \<open>n \<le> m\<close>] checkRange_newD [of z n mx m]
          by (auto simp: AddNetworksToZone_def reg addMin_def)
      qed
    qed
  qed
  then show "zit_inv z'" "r \<noteq> Some NilMapWrite" by auto
qed


subsection \<open>Removing\<close>

definition lastRef :: "u16 \<Rightarrow> bytes \<Rightarrow> ZoneInformationTable \<Rightarrow> bool" where
  "lastRef n k z \<longleftrightarrow> (\<forall>ms. map_of (zoneToNetworkMins z) k = Some ms \<longrightarrow> AList.delete n ms = [])"

lemma dropOne_fields [simp]:
  "networkMinToMax (dropOne n key z) = networkMinToMax z"
  "networkMinToZones (dropOne n key z) = networkMinToZones z"
  "networkMinToDefaultZone (dropOne n key z) = networkMinToDefaultZone z"
  by (simp_all add: dropOne_def Let_def)

lemma dropOne_zones:
  "map_of (zoneToNetworkMins (dropOne n key z)) k =
     (if k \<noteq> key then map_of (zoneToNetworkMins z) k
      else if lastRef n key z then None
      else map_option (AList.delete n) (map_of (zoneToNetworkMins z) key))"
  by (cases "map_of (zoneToNetworkMins z) key") (simp_all add: dropOne_def Let_def lastRef_def)

lemma dropOne_ucase:
  "map_of (ucaseToZone (dropOne n key z)) u =
     (if u = UCase key \<and> lastRef n key z then None else map_of (ucaseToZone z) u)"
  by (cases "map_of (zoneToNetworkMins z) key") (simp_all add: dropOne_def Let_def lastRef_def)

lemma dropOne_lastRef [simp]: "lastRef n k (dropOne n key z) = lastRef n k z"
  by (cases "k = key"; cases "map_of (zoneToNetworkMins z) key")
     (simp_all add: lastRef_def dropOne_zones delete_idem)

lemma dropOne_wf: "zit_wf z \<Longrightarrow> zit_wf (dropOne n key z)"
  by (auto simp: zit_wf_def dropOne_def Let_def split: option.splits)

lemma dropMin_fields [simp]:
  "networkMinToMax (dropMin n keys z) = networkMinToMax z"
  "networkMinToZones (dropMin n keys z) = networkMinToZones z"
  "networkMinToDefaultZone (dropMin n keys z) = networkMinToDefaultZone z"
  by (induction n keys z rule: dropMin.induct) simp_all

lemma dropMin_zones:
  "map_of (zoneToNetworkMins (dropMin n keys z)) k =
     (if k \<notin> set keys then map_of (zoneToNetworkMins z) k
      else if lastRef n k z then None
      else map_option (AList.delete n) (map_of (zoneToNetworkMins z) k))"
proof (induction n keys z rule: dropMin.induct)
  case (2 n key keys z)
  then show ?case
    by (cases "map_of (zoneToNetworkMins z) k"; cases "k = key")
       (simp_all add: dropOne_zones delete_idem)
qed simp

lemma dropMin_ucase:
  "map_of (ucaseToZone (dropMin n keys z)) u =
     (if \<exists>k \<in> set keys. u = UCase k \<and> lastRef n k z then None else map_of (ucaseToZone z) u)"
  by (induction n keys z rule: dropMin.induct) (auto simp: dropOne_ucase)

lemma dropMin_wf: "zit_wf z \<Longrightarrow> zit_wf (dropMin n keys z)"
  by (induction n keys z rule: dropMin.induct) (simp_all add: dropOne_wf)

lemma forgetRange_fields [simp]:
  "zoneToNetworkMins (forgetRange n z) = zoneToNetworkMins z"
  "ucaseToZone (forgetRange n z) = ucaseToZone z"
  by (simp_all add: forgetRange_def)

lemma delete_nonempty_iff: "AList.delete n ms = [] \<longleftrightarrow> (\<forall>m. m \<noteq> n \<longrightarrow> map_of ms m = None)"
proof -
  have "AList.delete n ms = [] \<longleftrightarrow> map_of (AList.delete n ms) = Map.empty" by simp
  also have "\<dots> \<longleftrightarrow> (\<forall>m. m \<noteq> n \<longrightarrow> map_of ms m = None)" by (auto simp: fun_eq_iff)
  finally show ?thesis .
qed

lemma removal_inv:
  assumes inv: "zit_inv z" and zs: "map_of (networkMinToZones z) n = Some zs"
  shows "zit_inv (forgetRange n (dropMin n (map fst zs) z))" (is "zit_inv ?z")
proof -
  note I = inv [unfolded zit_inv_def]
  have onk: "k \<in> set (map fst zs) \<longleftrightarrow> zoneOn z n k" for k
    using zs by (simp add: zoneOn_def map_of_eq_None_iff del: not_None_eq)
  have "zit_wf ?z"
    using I dropMin_wf [of z n "map fst zs"] by (simp add: zit_wf_def forgetRange_def)
  moreover have "zit_ranges ?z"
    using I by (simp add: zit_ranges_def forgetRange_def)
  moreover have "zit_names ?z"
  proof -
    have key: "map_of (ucaseToZone z) u = Some c \<longleftrightarrow>
        UCase c = u \<and> map_of (zoneToNetworkMins z) c \<noteq> None" for u c
      using I by (simp add: zit_names_def)
    have inj: "k = c" if "zoneOn z n k" "UCase k = UCase c" "map_of (zoneToNetworkMins z) c \<noteq> None" for k c
    proof -
      have "map_of (zoneToNetworkMins z) k \<noteq> None"
        using that(1) I by (auto simp: zit_links_def minOf_def)
      then show ?thesis using key [of "UCase c" k] key [of "UCase c" c] that by (auto simp del: not_None_eq)
    qed
    have "map_of (ucaseToZone ?z) u = Some c \<longleftrightarrow>
        UCase c = u \<and> map_of (zoneToNetworkMins ?z) c \<noteq> None" for u c
    proof (cases "map_of (ucaseToZone z) u = Some c")
      case True
      then have c: "UCase c = u" "map_of (zoneToNetworkMins z) c \<noteq> None" using key by blast+
      have "(\<exists>k \<in> set (map fst zs). u = UCase k \<and> lastRef n k z) \<longleftrightarrow> zoneOn z n c \<and> lastRef n c z"
        unfolding Bex_def onk using inj [of _ c] c by metis
      then show ?thesis
        using True c by (auto simp: dropMin_ucase dropMin_zones onk simp del: set_map)
    next
      case False
      then have "\<not> (UCase c = u \<and> map_of (zoneToNetworkMins z) c \<noteq> None)" using key by blast
      then show ?thesis
        using False by (auto simp: dropMin_ucase dropMin_zones split: if_splits)
    qed
    then show ?thesis unfolding zit_names_def by blast
  qed
  moreover have "zit_links ?z"
  proof -
    have on': "zoneOn ?z m k \<longleftrightarrow> m \<noteq> n \<and> zoneOn z m k" for m k
      by (simp add: zoneOn_def forgetRange_def)
    have "minOf ?z k m \<longleftrightarrow> m \<noteq> n \<and> minOf z k m" for m k
    proof (cases "zoneOn z n k")
      case True
      then show ?thesis
        unfolding minOf_def forgetRange_fields dropMin_zones onk
        by (auto simp: lastRef_def delete_nonempty_iff split: if_splits)
    next
      case False
      then have "\<not> minOf z k n" using I by (simp add: zit_links_def)
      then show ?thesis
        using False unfolding minOf_def forgetRange_fields dropMin_zones onk by auto
    qed
    then show ?thesis
      using I on' by (auto simp: zit_links_def forgetRange_def)
  qed
  ultimately show ?thesis by (simp add: zit_inv_def)
qed

lemma RemoveNetworks_inv:
  assumes inv: "zit_inv z"
  shows "zit_inv (snd (RemoveNetworks z n mx))"
proof (cases "checkRange z n mx")
  case (Inl e)
  then show ?thesis using inv by (simp add: RemoveNetworks_def)
next
  case (Inr re)
  then obtain m ex where ck: "checkRange z n mx = Inr (m, ex)" by (cases re) auto
  show ?thesis
  proof (cases "ex \<and> m \<noteq> 0")
    case True
    then have "map_of (networkMinToMax z) n = Some m" using ck by (simp add: checkRange_exists)
    then obtain zs where "map_of (networkMinToZones z) n = Some zs"
      using inv by (force simp: zit_inv_def zit_ranges_def)
    then show ?thesis using ck True removal_inv [OF inv] by (simp add: RemoveNetworks_def)
  next
    case False
    then show ?thesis using ck inv by (auto simp: RemoveNetworks_def)
  qed
qed

section \<open>The abstract table\<close>

text \<open>
  What the table promises its clients (\<^verbatim>\<open>service.ZoneIndex\<close>): a relation between network
  ranges and canonical zone names. Names are compared after case folding.
\<close>

definition zoneRel :: "ZoneInformationTable \<Rightarrow> (u16 \<times> u16 \<times> bytes) set" where
  "zoneRel z = {(n, m, k). map_of (networkMinToMax z) n = Some m \<and> zoneOn z n k}"

definition sameZone :: "bytes \<Rightarrow> bytes \<Rightarrow> bool" where
  "sameZone a b \<longleftrightarrow> UCase a = UCase b"

locale zone_index =
  fixes invar :: "'z \<Rightarrow> bool"
    and rel :: "'z \<Rightarrow> (u16 \<times> u16 \<times> bytes) set"
    and add :: "'z \<Rightarrow> bytes \<Rightarrow> u16 \<Rightarrow> u16 option \<Rightarrow> 'e option \<times> 'z"
    and remove :: "'z \<Rightarrow> u16 \<Rightarrow> u16 option \<Rightarrow> 'e option \<times> 'z"
    and same :: "bytes \<Rightarrow> bytes \<Rightarrow> bool"
  assumes add_invar: "invar z \<Longrightarrow> add z zn n mx = (r, z') \<Longrightarrow> invar z'"
    and add_failed: "invar z \<Longrightarrow> add z zn n mx = (Some e, z') \<Longrightarrow> rel z' = rel z"
    and add_done: "invar z \<Longrightarrow> add z zn n mx = (None, z') \<Longrightarrow>
        \<exists>m k. (mx = None \<or> mx = Some m) \<and> n \<le> m \<and> same k zn \<and> rel z' = insert (n, m, k) (rel z)"
    and add_known: "invar z \<Longrightarrow> (n, m, k0) \<in> rel z \<Longrightarrow> \<exists>z'. add z zn n (Some m) = (None, z')"
    and remove_invar: "invar z \<Longrightarrow> invar (snd (remove z n mx))"
    and remove_rel: "invar z \<Longrightarrow> rel (snd (remove z n mx)) \<subseteq> rel z"
    and ranges_disjoint: "invar z \<Longrightarrow> (n, m, k) \<in> rel z \<Longrightarrow> (n', m', k') \<in> rel z \<Longrightarrow>
        (n, m) = (n', m') \<or> m < n' \<or> m' < n"
begin

lemma add_invar_snd: "invar z \<Longrightarrow> invar (snd (add z zn n mx))"
  by (metis add_invar prod.collapse)

lemma add_mono: "invar z \<Longrightarrow> rel z \<subseteq> rel (snd (add z zn n mx))"
  by (cases "add z zn n mx"; cases "fst (add z zn n mx)")
     (auto dest: add_failed add_done)

text \<open>Committing a list of zones for one range, as the ZIP reply handlers do.\<close>

lemma commit_invar: "invar z \<Longrightarrow> invar (fold (\<lambda>zn z. snd (add z zn n mx)) zns z)"
  by (induction zns arbitrary: z) (auto intro: add_invar_snd)

lemma commit_mono: "invar z \<Longrightarrow> rel z \<subseteq> rel (fold (\<lambda>zn z. snd (add z zn n mx)) zns z)"
proof (induction zns arbitrary: z)
  case (Cons zn zns)
  show ?case
    using Cons.IH [OF add_invar_snd [OF Cons.prems]] add_mono [OF Cons.prems] by fastforce
qed simp

lemma commit_complete:
  assumes "invar z" and "(n, m, k0) \<in> rel z" and "zn \<in> set zns"
  shows "\<exists>k. same k zn \<and> (n, m, k) \<in> rel (fold (\<lambda>zn z. snd (add z zn n (Some m))) zns z)"
  using assms
proof (induction zns arbitrary: z k0)
  case (Cons y zns)
  obtain z' where z': "add z y n (Some m) = (None, z')"
    using add_known Cons.prems by blast
  then have inv: "invar z'" using add_invar Cons.prems by blast
  obtain k where k: "same k y" "rel z' = insert (n, m, k) (rel z)"
    using add_done [OF Cons.prems(1) z'] by auto
  show ?case
  proof (cases "zn = y")
    case True
    then show ?thesis using k z' commit_mono [OF inv, of n "Some m" zns] by auto
  next
    case False
    then show ?thesis using Cons.IH [OF inv, of k0] Cons.prems k z' by simp
  qed
qed simp

end

subsection \<open>The table implements the interface\<close>

lemma AddNetworksToZone_fields:
  assumes inv: "zit_inv z0" and add: "AddNetworksToZone z0 zn0 n mx = (r, z')"
  shows "r \<noteq> None \<Longrightarrow> zoneRel z' = zoneRel z0"
    and "r = None \<Longrightarrow> \<exists>m k. (mx = None \<or> mx = Some m) \<and> n \<le> m \<and> UCase k = UCase zn0 \<and>
           zoneRel z' = insert (n, m, k) (zoneRel z0)"
proof -
  obtain zn z where reg: "registerZone z0 zn0 = (zn, z)" by fastforce
  note R = registerZone_inv [OF inv reg]
  obtain ms where ms: "map_of (zoneToNetworkMins z) zn = Some ms" using R(2) by blast
  have rel: "zoneRel z = zoneRel z0" by (simp add: zoneRel_def zoneOn_def R)
  have "if r = None then \<exists>m k. (mx = None \<or> mx = Some m) \<and> n \<le> m \<and> UCase k = UCase zn0 \<and>
           zoneRel z' = insert (n, m, k) (zoneRel z0) else zoneRel z' = zoneRel z0"
  proof (cases "case mx of None \<Rightarrow> False | Some nmax \<Rightarrow> nmax < n")
    case True
    then show ?thesis using add by (auto simp: AddNetworksToZone_def)
  next
    case fwd: False
    show ?thesis
    proof (cases "checkRange z n mx")
      case (Inl e)
      with fwd show ?thesis using add rel by (auto simp: AddNetworksToZone_def reg)
    next
      case (Inr re)
      then obtain m ex where ck: "checkRange z n mx = Inr (m, ex)" by (cases re) auto
      show ?thesis
      proof (cases ex)
        case True
        then have mx: "map_of (networkMinToMax z) n = Some m" "mx = None \<or> mx = Some m"
          using ck by (simp_all add: checkRange_exists)
        then obtain zs where zs: "map_of (networkMinToZones z) n = Some zs"
          using R(1) by (force simp: zit_inv_def zit_ranges_def)
        have "n \<le> m" using R(1) mx by (auto simp: zit_inv_def zit_ranges_def)
        moreover have "r = None" "zoneRel z' = insert (n, m, zn) (zoneRel z)"
          using add fwd ck True zs ms mx
          by (auto simp: AddNetworksToZone_def reg addMin_def zoneRel_def zoneOn_def split: if_splits)
        ultimately show ?thesis using R(3) mx(2) rel by auto
      next
        case False
        note N = checkRange_newD [of z n mx m]
        have nz: "map_of (networkMinToZones z) n = None"
          using R(1) N ck False by (auto simp: zit_inv_def zit_ranges_def)
        have "n \<le> m" "mx = Some m" using N ck False fwd by auto
        moreover have "r = None" "zoneRel z' = insert (n, m, zn) (zoneRel z)"
          using add fwd ck False ms N nz
          by (auto simp: AddNetworksToZone_def reg addMin_def zoneRel_def zoneOn_def split: if_splits)
        ultimately show ?thesis using R(3) rel by auto
      qed
    qed
  qed
  then show "r \<noteq> None \<Longrightarrow> zoneRel z' = zoneRel z0"
    and "r = None \<Longrightarrow> \<exists>m k. (mx = None \<or> mx = Some m) \<and> n \<le> m \<and> UCase k = UCase zn0 \<and>
           zoneRel z' = insert (n, m, k) (zoneRel z0)"
    by (simp_all split: if_splits)
qed

lemma AddNetworksToZone_known:
  assumes inv: "zit_inv z0" and known: "(n, m, k0) \<in> zoneRel z0"
  shows "\<exists>z'. AddNetworksToZone z0 zn n (Some m) = (None, z')"
proof -
  obtain zc z where reg: "registerZone z0 zn = (zc, z)" by fastforce
  note R = registerZone_inv [OF inv reg]
  have mx: "map_of (networkMinToMax z) n = Some m" using known by (simp add: R zoneRel_def)
  have "n \<le> m" using inv mx by (auto simp: zit_inv_def zit_ranges_def R)
  then have "\<not> m < n" by simp
  moreover obtain zs where "map_of (networkMinToZones z) n = Some zs"
    using R(1) mx by (force simp: zit_inv_def zit_ranges_def)
  moreover have "checkRange z n (Some m) = Inr (m, True)" using mx by (simp add: checkRange_exists)
  ultimately show ?thesis
    using R(2) by (auto simp: AddNetworksToZone_def reg addMin_def)
qed

lemma RemoveNetworks_rel:
  "zoneRel (snd (RemoveNetworks z n mx)) =
     (if \<exists>m. checkRange z n mx = Inr (m, True) \<and> m \<noteq> 0 then {(a, b, k) \<in> zoneRel z. a \<noteq> n} else zoneRel z)"
  by (auto simp: RemoveNetworks_def zoneRel_def zoneOn_def forgetRange_def split: sum.splits if_splits)

lemma zoneRel_disjoint:
  assumes "zit_inv z" "(n, m, k) \<in> zoneRel z" "(n', m', k') \<in> zoneRel z"
  shows "(n, m) = (n', m') \<or> m < n' \<or> m' < n"
proof (cases "n = n'")
  case True
  then show ?thesis using assms by (simp add: zoneRel_def)
next
  case False
  then show ?thesis using assms unfolding zoneRel_def zit_inv_def zit_ranges_def by blast
qed

interpretation zit: zone_index zit_inv zoneRel AddNetworksToZone RemoveNetworks sameZone
proof
  fix z zn n mx r z' e m k m' k' n' k0
  assume inv: "zit_inv z"
  show "AddNetworksToZone z zn n mx = (r, z') \<Longrightarrow> zit_inv z'"
    by (rule AddNetworksToZone_inv(1) [OF inv])
  show "AddNetworksToZone z zn n mx = (Some e, z') \<Longrightarrow> zoneRel z' = zoneRel z"
    using AddNetworksToZone_fields(1) [OF inv] by blast
  show "AddNetworksToZone z zn n mx = (None, z') \<Longrightarrow>
        \<exists>m k. (mx = None \<or> mx = Some m) \<and> n \<le> m \<and> sameZone k zn \<and> zoneRel z' = insert (n, m, k) (zoneRel z)"
    unfolding sameZone_def using AddNetworksToZone_fields(2) [OF inv] by blast
  show "(n, m, k0) \<in> zoneRel z \<Longrightarrow> \<exists>z'. AddNetworksToZone z zn n (Some m) = (None, z')"
    by (rule AddNetworksToZone_known [OF inv])
  show "zit_inv (snd (RemoveNetworks z n mx))"
    by (rule RemoveNetworks_inv [OF inv])
  show "zoneRel (snd (RemoveNetworks z n mx)) \<subseteq> zoneRel z"
    by (auto simp: RemoveNetworks_rel)
  show "(n, m, k) \<in> zoneRel z \<Longrightarrow> (n', m', k') \<in> zoneRel z \<Longrightarrow> (n, m) = (n', m') \<or> m < n' \<or> m' < n"
    by (rule zoneRel_disjoint [OF inv])
qed


subsection \<open>Queries\<close>

lemma networksOfMins_eq:
  assumes "\<forall>n \<in> set ns. \<exists>m. map_of (networkMinToMax z) n = Some m \<and> m < 0xFFFF"
  shows "networksOfMins z ns out =
    Some (out @ concat (map (\<lambda>n. nets n (the (map_of (networkMinToMax z) n))) ns))"
  using assms
proof (induction ns arbitrary: out)
  case (Cons n ns)
  then obtain m where m: "map_of (networkMinToMax z) n = Some m" "m < 0xFFFF" by auto
  have "fold (\<lambda>n acc. acc @ [n]) xs acc = acc @ xs" for xs acc :: "u16 list"
    by (induction xs arbitrary: acc) auto
  then show ?case
    using Cons m by (simp add: for_u16_eq for_list_Inr_fold)
qed simp

definition zit_bounded :: "ZoneInformationTable \<Rightarrow> bool" where
  "zit_bounded z \<longleftrightarrow> (\<forall>n m. map_of (networkMinToMax z) n = Some m \<longrightarrow> m < 0xFFFF)"

lemma NetworksInZone_unknown:
  assumes "zit_inv z" "\<And>k. sameZone k zn \<Longrightarrow> map_of (zoneToNetworkMins z) k = None"
  shows "NetworksInZone z zn = Some []"
  using assms
  by (auto simp: NetworksInZone_def zit_inv_def zit_names_def sameZone_def split: option.split)

lemma NetworksInZone_known:
  assumes inv: "zit_inv z" and bnd: "zit_bounded z"
    and c: "map_of (ucaseToZone z) (UCase zn) = Some c" "c \<noteq> []"
  shows "\<exists>ns. NetworksInZone z zn = Some ns \<and>
    set ns = {x. \<exists>n m. (n, m, c) \<in> zoneRel z \<and> n \<le> x \<and> x \<le> m}"
proof -
  obtain ms where ms: "map_of (zoneToNetworkMins z) c = Some ms"
    using inv c by (auto simp: zit_inv_def zit_names_def)
  have on: "n \<in> set (map fst ms) \<longleftrightarrow> zoneOn z n c" for n
    using inv ms unfolding zit_inv_def zit_links_def
    by (metis map_of_eq_None_iff minOf_def option.inject set_map)
  have mx: "\<exists>m. map_of (networkMinToMax z) n = Some m \<and> m < 0xFFFF" if "zoneOn z n c" for n
    using that inv bnd
    by (metis not_None_eq zit_bounded_def zit_inv_def zit_ranges_def zoneOn_def)
  have "NetworksInZone z zn =
      Some (concat (map (\<lambda>n. nets n (the (map_of (networkMinToMax z) n))) (map fst ms)))"
    using c ms networksOfMins_eq [of "map fst ms" z "[]"] mx on
    by (simp add: NetworksInZone_def del: set_map map_map)
  moreover have "x \<in> set (concat (map (\<lambda>n. nets n (the (map_of (networkMinToMax z) n))) (map fst ms)))
      \<longleftrightarrow> (\<exists>n m. (n, m, c) \<in> zoneRel z \<and> n \<le> x \<and> x \<le> m)" for x
  proof -
    have "x \<in> set (concat (map (\<lambda>n. nets n (the (map_of (networkMinToMax z) n))) (map fst ms)))
        \<longleftrightarrow> (\<exists>n. n \<in> set (map fst ms) \<and> n \<le> x \<and> x \<le> the (map_of (networkMinToMax z) n))"
      by fastforce
    also have "\<dots> \<longleftrightarrow> (\<exists>n m. (n, m, c) \<in> zoneRel z \<and> n \<le> x \<and> x \<le> m)"
      unfolding on zoneRel_def using mx by force
    finally show ?thesis .
  qed
  ultimately show ?thesis by blast
qed

section \<open>Runs of the table\<close>

datatype zit_op = ZAdd bytes u16 "u16 option" | ZRemove u16 "u16 option"

fun zit_perform :: "zit_op \<Rightarrow> ZoneInformationTable \<Rightarrow> ZoneInformationTable" where
  "zit_perform (ZAdd zn n mx) z = snd (AddNetworksToZone z zn n mx)"
| "zit_perform (ZRemove n mx) z = snd (RemoveNetworks z n mx)"

interpretation zit_runs: guarded_component NewZoneInformationTable zit_perform zit_inv
proof
  show "zit_inv NewZoneInformationTable" by (rule zit_inv_New)
  show "zit_inv z \<Longrightarrow> zit_inv (zit_perform op z)" for z op
    by (cases op) (simp_all add: zit.add_invar_snd zit.remove_invar)
qed

abbreviation zit_after :: "zit_op list \<Rightarrow> ZoneInformationTable" where
  "zit_after ops \<equiv> fold zit_perform ops NewZoneInformationTable"

section \<open>Properties\<close>

text \<open>
  C1. Whatever additions and removals the table has seen, failed ones included, its five maps
  agree with each other (\<open>zit_inv\<close>): ranges are disjoint and not backwards, every range has
  zones and a default zone among them, the zone and range indices are inverse to each other,
  and each zone has one canonical spelling. No addition ever writes to a nil map.
\<close>

theorem zit_maps_agree:
  "zit_inv (zit_after ops) \<and>
   fst (AddNetworksToZone (zit_after ops) zn n mx) \<noteq> Some NilMapWrite"
  using zit_runs.invar_run [of ops] AddNetworksToZone_inv(2) [OF zit_runs.invar_run [of ops]]
  by (metis prod.collapse)

text \<open>
  C5. Refinement of the abstract zone relation: an accepted addition adds exactly one pair, the
  range and the canonical spelling of the zone; a refused one leaves the relation as it was.
\<close>

theorem zit_add_refines:
  "case AddNetworksToZone (zit_after ops) zn n mx of
     (Some e, z') \<Rightarrow> zoneRel z' = zoneRel (zit_after ops)
   | (None, z') \<Rightarrow> \<exists>m k. (mx = None \<or> mx = Some m) \<and> n \<le> m \<and> sameZone k zn \<and>
        zoneRel z' = insert (n, m, k) (zoneRel (zit_after ops))"
proof (cases "AddNetworksToZone (zit_after ops) zn n mx")
  case (Pair r z')
  show ?thesis
  proof (cases r)
    case None
    then show ?thesis
      using Pair zit.add_done [OF zit_runs.invar_run, of ops zn n mx z'] by simp
  next
    case (Some e)
    then show ?thesis
      using Pair zit.add_failed [OF zit_runs.invar_run, of ops zn n mx e z'] by simp
  qed
qed

text \<open>
  Removing an existing range, given by its exact bounds or by its start alone, removes all
  its zone associations and nothing else; a removal that names no existing range changes nothing.
\<close>

theorem zit_remove_exact:
  "zoneRel (snd (RemoveNetworks (zit_after ops) n mx)) =
     (case map_of (networkMinToMax (zit_after ops)) n of
        Some m \<Rightarrow> if m \<noteq> 0 \<and> (mx = None \<or> mx = Some m)
                  then {(a, b, k) \<in> zoneRel (zit_after ops). a \<noteq> n} else zoneRel (zit_after ops)
      | None \<Rightarrow> zoneRel (zit_after ops))"
  by (auto simp: RemoveNetworks_rel checkRange_exists split: option.splits)

text \<open>
  \<open>NetworksInZone\<close> returns, for a nonempty zone name and ranges that end below 0xFFFF, exactly
  the networks of the ranges that carry the zone, whatever the capitalisation of the name.
\<close>

theorem NetworksInZone_exact:
  assumes "zit_bounded (zit_after ops)" and "zn \<noteq> []"
  shows "\<exists>ns. NetworksInZone (zit_after ops) zn = Some ns \<and>
    set ns = {x. \<exists>n m k. (n, m, k) \<in> zoneRel (zit_after ops) \<and> sameZone k zn \<and> n \<le> x \<and> x \<le> m}"
proof -
  have inv: "zit_inv (zit_after ops)" by (rule zit_runs.invar_run)
  show ?thesis
  proof (cases "map_of (ucaseToZone (zit_after ops)) (UCase zn)")
    case None
    then have none: "map_of (zoneToNetworkMins (zit_after ops)) k = None" if "sameZone k zn" for k
      using inv that unfolding zit_inv_def zit_names_def sameZone_def by (metis option.distinct(1))
    then have "\<not> (n, m, k) \<in> zoneRel (zit_after ops)" if "sameZone k zn" for n m k
      using inv that unfolding zit_inv_def zit_links_def zoneRel_def minOf_def by force
    then show ?thesis using NetworksInZone_unknown [OF inv none] by auto
  next
    case (Some c)
    then have c: "UCase c = UCase zn" using inv by (auto simp: zit_inv_def zit_names_def)
    then have "c \<noteq> []" using assms(2) by (auto simp: UCase_def MacRomanToUpper_def)
    moreover have "k = c" if "(n, m, k) \<in> zoneRel (zit_after ops)" "sameZone k zn" for n m k
      using that inv Some unfolding zit_inv_def zit_names_def zit_links_def zoneRel_def sameZone_def
        minOf_def by (metis (mono_tags, lifting) case_prodD mem_Collect_eq option.distinct(1) option.inject)
    ultimately show ?thesis
      using NetworksInZone_known [OF inv assms(1) Some] c unfolding sameZone_def by blast
  qed
qed

text \<open>A small table: network range 3-5 carries two zones, network 9 one of them in other letters.\<close>

definition sample_ops :: "zit_op list" where
  "sample_ops = [ZAdd [65] 3 (Some 5), ZAdd [66] 3 None, ZAdd [97] 9 (Some 9)]"

lemma zit_after_sample:
  "zit_after sample_ops =
    \<lparr>networkMinToMax = [(3, 5), (9, 9)],
     networkMinToZones = [(3, [([65], [65]), ([66], [66])]), (9, [([65], [65])])],
     networkMinToDefaultZone = [(3, [65]), (9, [65])],
     zoneToNetworkMins = [([65], [(3, ()), (9, ())]), ([66], [(3, ())])],
     ucaseToZone = [([65], [65]), ([66], [66])]\<rparr>"
  by (simp add: sample_ops_def NewZoneInformationTable_def AddNetworksToZone_def registerZone_def
      checkRange_def addMin_def UCase_def MacRomanToUpper_map upper_of_def letters_simps)

theorem NetworksInZone_exact_witness:
  "\<exists>ns. NetworksInZone (zit_after sample_ops) [97] = Some ns \<and> set ns = {3, 4, 5, 9}"
proof -
  have b: "zit_bounded (zit_after sample_ops)"
    by (simp add: zit_bounded_def zit_after_sample)
  have rel: "{x. \<exists>n m k. (n, m, k) \<in> zoneRel (zit_after sample_ops) \<and> sameZone k [97] \<and> n \<le> x \<and> x \<le> m}
      = set (nets 3 5) \<union> set (nets 9 9)"
  proof -
    have "zoneRel (zit_after sample_ops) = {(3, 5, [65]), (3, 5, [66]), (9, 9, [65])}"
      by (auto simp: zoneRel_def zoneOn_def zit_after_sample split: if_splits)
    then have "{x. \<exists>n m k. (n, m, k) \<in> zoneRel (zit_after sample_ops) \<and> sameZone k [97] \<and> n \<le> x \<and> x \<le> m}
      = {x. 3 \<le> x \<and> x \<le> 5} \<union> {x. 9 \<le> x \<and> x \<le> 9}"
      by (simp add: ex_disj_distrib conj_disj_distribR sameZone_def UCase_def MacRomanToUpper_map
          upper_of_def letters_simps Un_def)
    then show ?thesis by auto
  qed
  have "set (nets 3 5) \<union> set (nets 9 9) = {3, 4, 5, 9}"
    by (simp add: nets_def upt_rec insert_commute del: set_nets)
  then show ?thesis
    using NetworksInZone_exact [OF b, of "[97]"] rel by simp
qed

text \<open>
  A defect of the error path: \<open>AddNetworksToZone\<close> registers a new zone name before it checks
  the network range, so a refused addition of a new zone leaves the zone in the table: \<open>Zones\<close>
  (and with it the ZIP zone list) reports it although no network carries it.
\<close>

theorem zit_refused_zone_is_listed:
  assumes "map_of (ucaseToZone (zit_after ops)) (UCase zn) = None"
    and "AddNetworksToZone (zit_after ops) zn n mx = (Some e, z')" and "e \<noteq> RangeBackwards"
  shows "zn \<in> set (Zones z') \<and> (\<forall>a b. (a, b, zn) \<notin> zoneRel z')"
proof -
  have inv: "zit_inv (zit_after ops)" by (rule zit_runs.invar_run)
  obtain z where reg: "registerZone (zit_after ops) zn = (zn, z)"
    using assms(1) by (auto simp: registerZone_def)
  note N = registerZone_new [OF inv assms(1) reg]
  have "z' = z"
    using assms(2,3) N(3) reg
    by (auto simp: AddNetworksToZone_def addMin_def split: if_splits sum.splits option.splits
        dest: AddNetworksToZone_inv(2) [OF inv])
  moreover have "zn \<in> set (Zones z)"
    using N(3) by (force simp: Zones_def dest: map_of_SomeD)
  moreover have "(a, b, zn) \<notin> zoneRel z" for a b
    using N by (auto simp: zoneRel_def zit_inv_def zit_links_def minOf_def)
  ultimately show ?thesis by blast
qed

theorem zit_refused_zone_is_listed_witness:
  "fst (AddNetworksToZone (zit_after sample_ops) [67] 4 (Some 6)) = Some RangeOverlaps \<and>
   [67] \<in> set (Zones (snd (AddNetworksToZone (zit_after sample_ops) [67] 4 (Some 6))))"
proof -
  have f: "fst (AddNetworksToZone (zit_after sample_ops) [67] 4 (Some 6)) = Some RangeOverlaps"
    and u: "map_of (ucaseToZone (zit_after sample_ops)) (UCase [67]) = None"
    by (simp_all add: zit_after_sample AddNetworksToZone_def registerZone_def checkRange_def UCase_def
        MacRomanToUpper_map upper_of_def letters_simps)
  then obtain z' where "AddNetworksToZone (zit_after sample_ops) [67] 4 (Some 6) = (Some RangeOverlaps, z')"
    by (metis prod.collapse)
  then show ?thesis using f zit_refused_zone_is_listed [OF u] by simp
qed

end
