(* ===== verification/Routing_Table.thy ===== *)
theory Routing_Table
  imports Zone_Table
begin

text \<open>
  The routing table of \<^verbatim>\<open>router/routing_table.go\<close>. It indexes shared entries twice: by network
  number and by a printed key, and ages the keyed entries through the RTMP states. Entries are Go
  pointers, compared by address; an entry is never changed once it is allocated. The zone table
  the code reaches through \<open>t.router\<close> is a field of the model's table.
\<close>

section \<open>Data\<close>

text \<open>
  A port is known to the table by its identity, its short name and whether it is an extended
  network; all three are fixed when the port is created.
\<close>

record port =
  portId :: nat
  ShortString :: string
  isExtended :: bool

record RoutingTableEntry =
  ExtendedNetwork :: bool
  NetworkMin :: u16
  NetworkMax :: u16
  Distance :: u8
  Port :: port
  NextNetwork :: u16
  NextNode :: u8

type_synonym entry_ptr = "nat \<times> RoutingTableEntry"

abbreviation stateGood :: nat where "stateGood \<equiv> 1"
abbreviation stateSus :: nat where "stateSus \<equiv> 2"
abbreviation stateBad :: nat where "stateBad \<equiv> 3"
abbreviation stateWorst :: nat where "stateWorst \<equiv> 4"

text \<open>\<open>heapNext\<close> is the next free address of the Go heap, so that a new entry is a new pointer.\<close>

record RoutingTable =
  entryByNetwork :: "(u16, entry_ptr) gomap"
  stateByKey :: "(string, nat) gomap"
  entryByKey :: "(string, entry_ptr) gomap"
  zit :: ZoneInformationTable
  heapNext :: nat

text \<open>The verb \<open>%d\<close> of \<open>fmt.Sprintf\<close> on an unsigned number, and the key it builds.\<close>

fun decimal :: "nat \<Rightarrow> string" where
  "decimal n = (if n < 10 then [char_of (48 + n)] else decimal (n div 10) @ [char_of (48 + n mod 10)])"

declare decimal.simps [simp del]

definition entryKey :: "RoutingTableEntry \<Rightarrow> string" where
  "entryKey e = ShortString (Port e) @ ''|'' @ decimal (unat (NetworkMin e)) @ ''|'' @
     decimal (unat (NetworkMax e)) @ ''|'' @ decimal (unat (Distance e)) @ ''|'' @
     decimal (unat (NextNetwork e)) @ ''|'' @ decimal (unat (NextNode e))"

definition NewRoutingTable :: RoutingTable where
  "NewRoutingTable = \<lparr>entryByNetwork = [], stateByKey = [], entryByKey = [],
     zit = NewZoneInformationTable, heapNext = 0\<rparr>"

section \<open>Operations\<close>

text \<open>Reading a state: an absent key reads as 0, Go's zero value.\<close>

definition stateOf :: "RoutingTable \<Rightarrow> string \<Rightarrow> nat" where
  "stateOf t k = (case map_of (stateByKey t) k of None \<Rightarrow> 0 | Some s \<Rightarrow> s)"

definition isBad :: "nat \<Rightarrow> bool" where
  "isBad s \<longleftrightarrow> s = stateBad \<or> s = stateWorst"

definition GetByNetwork :: "RoutingTable \<Rightarrow> u16 \<Rightarrow> (entry_ptr \<times> bool) option" where
  "GetByNetwork t network =
    (case map_of (entryByNetwork t) network of
       None \<Rightarrow> None
     | Some e \<Rightarrow> Some (e, isBad (stateOf t (entryKey (snd e)))))"

text \<open>
  \<open>RemoveNetworks\<close> on the zone table of the router; its error is only logged.
\<close>

definition withdrawZones :: "RoutingTableEntry \<Rightarrow> RoutingTable \<Rightarrow> RoutingTable" where
  "withdrawZones e t = t\<lparr>zit := snd (RemoveNetworks (zit t) (NetworkMin e) (Some (NetworkMax e)))\<rparr>"

definition dropKey :: "string \<Rightarrow> RoutingTable \<Rightarrow> RoutingTable" where
  "dropKey k t = t\<lparr>stateByKey := AList.delete k (stateByKey t),
                   entryByKey := AList.delete k (entryByKey t)\<rparr>"

definition dropDirect :: "port \<Rightarrow> u16 \<times> entry_ptr \<Rightarrow> RoutingTable \<Rightarrow> RoutingTable" where
  "dropDirect p = (\<lambda>(n, (_, e)) t.
     if Port e = p \<and> Distance e = 0
     then let t = dropKey (entryKey e) t;
              t = t\<lparr>entryByNetwork := AList.delete n (entryByNetwork t)\<rparr> in
          withdrawZones e t
     else t)"

text \<open>The loop that points every network of a range at an entry; \<open>None\<close>: it never ends.\<close>

definition pointRange :: "u16 \<Rightarrow> u16 \<Rightarrow> entry_ptr \<Rightarrow> RoutingTable \<Rightarrow> RoutingTable option" where
  "pointRange networkMin networkMax e t =
    (case for_u16 (\<lambda>n m. Inr (AList.update n e m) :: unit + (u16, entry_ptr) gomap)
            networkMin networkMax (entryByNetwork t) of
       Some (Inr m) \<Rightarrow> Some (t\<lparr>entryByNetwork := m\<rparr>)
     | _ \<Rightarrow> None)"

definition storeGood :: "entry_ptr \<Rightarrow> RoutingTable \<Rightarrow> RoutingTable" where
  "storeGood e t = t\<lparr>stateByKey := AList.update (entryKey (snd e)) stateGood (stateByKey t),
                     entryByKey := AList.update (entryKey (snd e)) e (entryByKey t)\<rparr>"

text \<open>Taking the next heap address.\<close>

definition alloc :: "RoutingTable \<Rightarrow> RoutingTable" where
  "alloc t = t\<lparr>heapNext := heapNext t + 1\<rparr>"

definition SetPortRange :: "RoutingTable \<Rightarrow> port \<Rightarrow> u16 \<Rightarrow> u16 \<Rightarrow> RoutingTable option" where
  "SetPortRange t p networkMin networkMax =
    (let t = fold (dropDirect p) (entryByNetwork t) t;
         e = (heapNext t,
              \<lparr>ExtendedNetwork = isExtended p, NetworkMin = networkMin, NetworkMax = networkMax,
               Distance = 0, Port = p, NextNetwork = 0, NextNode = 0\<rparr>);
         t = alloc t in
     case pointRange networkMin networkMax e t of
       None \<Rightarrow> None
     | Some t \<Rightarrow> Some (storeGood e t))"

text \<open>
  The search loop of \<open>Consider\<close> and \<open>MarkBad\<close>: the one entry that holds the range. The counter
  runs over the range; once an entry is found, a network with another entry, or with none,
  makes the function return false.
\<close>

definition curStep :: "RoutingTable \<Rightarrow> u16 \<Rightarrow> entry_ptr option \<Rightarrow> unit + entry_ptr option" where
  "curStep t n cur =
    (let x = map_of (entryByNetwork t) n in
     case cur of
       None \<Rightarrow> Inr x
     | Some c \<Rightarrow> if map_option fst x \<noteq> Some (fst c) then Inl () else Inr cur)"

definition findCur :: "RoutingTable \<Rightarrow> u16 \<Rightarrow> u16 \<Rightarrow> (unit + entry_ptr option) option" where
  "findCur t networkMin networkMax = for_u16 (curStep t) networkMin networkMax None"

text \<open>
  The test by which \<open>Consider\<close> keeps the current entry: it is nearer, not bad, and another route.
\<close>

definition keepsCurrent :: "RoutingTable \<Rightarrow> RoutingTableEntry \<Rightarrow> RoutingTableEntry \<Rightarrow> bool" where
  "keepsCurrent t cur e \<longleftrightarrow>
     Distance cur < Distance e \<and>
     stateOf t (entryKey cur) \<noteq> stateBad \<and> stateOf t (entryKey cur) \<noteq> stateWorst \<and>
     (NextNetwork cur \<noteq> NextNetwork e \<or> NextNode cur \<noteq> NextNode e \<or> Port cur \<noteq> Port e)"

definition Consider :: "RoutingTable \<Rightarrow> RoutingTableEntry \<Rightarrow> (bool \<times> RoutingTable) option" where
  "Consider t0 e =
    (let p = (heapNext t0, e); t = alloc t0; k = entryKey e in
     case map_of (stateByKey t) k of
       Some _ \<Rightarrow> Some (True, t\<lparr>stateByKey := AList.update k stateGood (stateByKey t)\<rparr>)
     | None \<Rightarrow>
       (case findCur t (NetworkMin e) (NetworkMax e) of
          None \<Rightarrow> None
        | Some (Inl _) \<Rightarrow> Some (False, t)
        | Some (Inr cur) \<Rightarrow>
            if (case cur of None \<Rightarrow> False | Some (_, c) \<Rightarrow> keepsCurrent t c e) then Some (False, t) else
            let t = (case cur of None \<Rightarrow> t | Some (_, c) \<Rightarrow> dropKey (entryKey c) t) in
            (case pointRange (NetworkMin e) (NetworkMax e) p t of
               None \<Rightarrow> None
             | Some t \<Rightarrow> Some (True, storeGood p t))))"

definition MarkBad :: "RoutingTable \<Rightarrow> u16 \<Rightarrow> u16 \<Rightarrow> (bool \<times> RoutingTable) option" where
  "MarkBad t networkMin networkMax =
    (case findCur t networkMin networkMax of
       None \<Rightarrow> None
     | Some (Inl _) \<Rightarrow> Some (False, t)
     | Some (Inr None) \<Rightarrow> Some (False, t)
     | Some (Inr (Some (_, cur))) \<Rightarrow>
         let k = entryKey cur in
         Some (True, if stateOf t k \<noteq> stateWorst
                     then t\<lparr>stateByKey := AList.update k stateBad (stateByKey t)\<rparr> else t))"

definition RemoveEntriesForPort :: "RoutingTable \<Rightarrow> port \<Rightarrow> RoutingTable" where
  "RemoveEntriesForPort t p =
    (let removed = filter (\<lambda>(k, (_, e)). Port e = p) (entryByKey t);
         t = fold (\<lambda>(k, _). dropKey k) removed t;
         t = t\<lparr>entryByNetwork := filter (\<lambda>(n, (_, e)). Port e \<noteq> p) (entryByNetwork t)\<rparr> in
     fold (\<lambda>(k, (_, e)). withdrawZones e) removed t)"

definition setState :: "string \<Rightarrow> nat \<Rightarrow> RoutingTable \<Rightarrow> RoutingTable" where
  "setState k s t = t\<lparr>stateByKey := AList.update k s (stateByKey t)\<rparr>"

definition ageOut :: "string \<Rightarrow> entry_ptr \<Rightarrow> RoutingTable \<Rightarrow> RoutingTable" where
  "ageOut k e t =
    (let t = dropKey k t;
         t = t\<lparr>entryByNetwork := filter (\<lambda>(n, x). fst x \<noteq> fst e) (entryByNetwork t)\<rparr> in
     withdrawZones (snd e) t)"

definition ageOne :: "string \<times> entry_ptr \<Rightarrow> RoutingTable \<Rightarrow> RoutingTable" where
  "ageOne = (\<lambda>(k, e) t.
     (let s = stateOf t k in
      if s = stateWorst then ageOut k e t
      else if s = stateBad then setState k stateWorst t
      else if s = stateSus then setState k stateBad t
      else if s = stateGood then (if Distance (snd e) \<noteq> 0 then setState k stateSus t else t)
      else t))"

definition Age :: "RoutingTable \<Rightarrow> RoutingTable" where
  "Age t = fold ageOne (entryByKey t) t"

definition stateName :: "nat \<Rightarrow> string" where
  "stateName s = (if s = stateGood then ''good'' else if s = stateSus then ''suspect''
     else if s = stateBad then ''bad'' else if s = stateWorst then ''worst'' else ''unknown'')"

definition Snapshot :: "RoutingTable \<Rightarrow> (entry_ptr \<times> string) list" where
  "Snapshot t = map (\<lambda>(k, e). (e, stateName (stateOf t k))) (entryByKey t)"

definition Entries :: "RoutingTable \<Rightarrow> (entry_ptr \<times> bool) list" where
  "Entries t = map (\<lambda>(k, e). (e, isBad (stateOf t k))) (entryByKey t)"

section \<open>Keys\<close>

lemma decimal_chars: "c \<in> set (decimal n) \<Longrightarrow> 48 \<le> (of_char c :: nat) \<and> (of_char c :: nat) < 58"
proof (induction n rule: decimal.induct)
  case (1 n)
  then show ?case
    by (subst (asm) decimal.simps) (auto split: if_splits simp: mod_less_divisor)
qed

lemma bar_notin_decimal [simp]: "CHR ''|'' \<notin> set (decimal n)"
  using decimal_chars by fastforce

lemma decimal_value: "foldl (\<lambda>a c. 10 * a + (of_char c - 48)) 0 (decimal n) = n"
proof (induction n rule: decimal.induct)
  case (1 n)
  show ?case
  proof (cases "n < 10")
    case True
    then show ?thesis by (subst decimal.simps) simp
  next
    case False
    have "n mod 10 < 10" by simp
    then have "(48 + n mod 10) mod 256 = 48 + n mod 10" by simp
    then show ?thesis using False 1 by (subst decimal.simps) simp
  qed
qed

lemma decimal_inj [simp]: "decimal m = decimal n \<longleftrightarrow> m = n"
  by (metis decimal_value)

lemma split_last_eq:
  assumes "c \<notin> set ys" "c \<notin> set ys'"
  shows "xs @ c # ys = xs' @ c # ys' \<longleftrightarrow> xs = xs' \<and> ys = ys'"
proof -
  have "xs @ c # ys = xs' @ c # ys' \<longleftrightarrow> rev ys @ c # rev xs = rev ys' @ c # rev xs'"
    by (metis append.assoc append_Cons append_Nil rev.simps(2) rev_append rev_rev_ident)
  moreover have "rev ys @ c # us = rev ys' @ c # vs \<longleftrightarrow> ys = ys' \<and> us = vs" for us vs
  proof -
    have "takeWhile (\<lambda>x. x \<noteq> c) (rev zs @ c # ws) = rev zs" if "c \<notin> set zs" for zs ws
      using that by (subst takeWhile_append2) auto
    then show ?thesis using assms by (metis rev_is_rev_conv same_append_eq list.inject)
  qed
  ultimately show ?thesis by auto
qed

text \<open>
  The printed key identifies a route: port name, range, distance and next hop, even when a port
  name holds the separator.
\<close>

lemma entryKey_eq_iff:
  "entryKey e = entryKey e' \<longleftrightarrow>
     ShortString (Port e) = ShortString (Port e') \<and> NetworkMin e = NetworkMin e' \<and>
     NetworkMax e = NetworkMax e' \<and> Distance e = Distance e' \<and>
     NextNetwork e = NextNetwork e' \<and> NextNode e = NextNode e'"
proof -
  have key: "entryKey e = ((((ShortString (Port e) @ CHR ''|'' # decimal (unat (NetworkMin e))) @ CHR ''|'' #
     decimal (unat (NetworkMax e))) @ CHR ''|'' # decimal (unat (Distance e))) @ CHR ''|'' #
     decimal (unat (NextNetwork e))) @ CHR ''|'' # decimal (unat (NextNode e))" for e
    by (simp add: entryKey_def)
  show ?thesis
    unfolding key by (simp only: split_last_eq bar_notin_decimal not_False_eq_True decimal_inj
        word_unat_eq_iff [symmetric] conj_assoc)
qed

section \<open>The invariant\<close>

definition ptrs :: "RoutingTable \<Rightarrow> entry_ptr set" where
  "ptrs t = ran (map_of (entryByNetwork t)) \<union> ran (map_of (entryByKey t))"

definition rt_wf :: "RoutingTable \<Rightarrow> bool" where
  "rt_wf t \<longleftrightarrow> wf_gomap (entryByNetwork t) \<and> wf_gomap (stateByKey t) \<and> wf_gomap (entryByKey t)"

definition rt_keys :: "RoutingTable \<Rightarrow> bool" where
  "rt_keys t \<longleftrightarrow>
     (\<forall>k p. map_of (entryByKey t) k = Some p \<longrightarrow>
        entryKey (snd p) = k \<and> map_of (stateByKey t) k \<noteq> None) \<and>
     (\<forall>k s. map_of (stateByKey t) k = Some s \<longrightarrow> s \<in> {stateGood, stateSus, stateBad, stateWorst})"

definition rt_nets :: "RoutingTable \<Rightarrow> bool" where
  "rt_nets t \<longleftrightarrow> (\<forall>n p. map_of (entryByNetwork t) n = Some p \<longrightarrow>
     NetworkMin (snd p) \<le> n \<and> n \<le> NetworkMax (snd p))"

definition rt_heap :: "RoutingTable \<Rightarrow> bool" where
  "rt_heap t \<longleftrightarrow> (\<forall>p \<in> ptrs t. fst p < heapNext t) \<and>
     (\<forall>p \<in> ptrs t. \<forall>q \<in> ptrs t. fst p = fst q \<longrightarrow> p = q)"

definition rt_inv :: "RoutingTable \<Rightarrow> bool" where
  "rt_inv t \<longleftrightarrow> rt_wf t \<and> rt_keys t \<and> rt_nets t \<and> rt_heap t \<and> zit_inv (zit t)"

lemmas rt_defs = rt_inv_def rt_wf_def rt_keys_def rt_nets_def rt_heap_def

lemma rt_inv_New: "rt_inv NewRoutingTable"
  by (simp add: rt_defs NewRoutingTable_def ptrs_def zit_inv_New)

text \<open>Tables with fewer pointers keep the heap condition.\<close>

lemma rt_heap_mono: "rt_heap t \<Longrightarrow> ptrs t' \<subseteq> ptrs t \<Longrightarrow> heapNext t \<le> heapNext t' \<Longrightarrow> rt_heap t'"
  unfolding rt_heap_def by (meson order_less_le_trans subset_iff)

lemma rt_heap_add:
  assumes "rt_heap t" "ptrs t' \<subseteq> insert p (ptrs t)" "heapNext t \<le> heapNext t'" "fst p < heapNext t'"
    "\<forall>q \<in> ptrs t. fst q = fst p \<longrightarrow> q = p"
  shows "rt_heap t'"
proof -
  have "fst q < heapNext t'" if "q \<in> ptrs t'" for q
    using that assms unfolding rt_heap_def by (metis insertE order_less_le_trans subsetD)
  moreover have "q = r" if "q \<in> ptrs t'" "r \<in> ptrs t'" "fst q = fst r" for q r
    using that assms unfolding rt_heap_def by (metis insertE subsetD)
  ultimately show ?thesis unfolding rt_heap_def by blast
qed

lemma rt_inv_withdrawZones [intro]: "rt_inv t \<Longrightarrow> rt_inv (withdrawZones e t)"
  by (auto simp: rt_defs withdrawZones_def ptrs_def zit.remove_invar)

lemma ran_delete: "ran (map_of (AList.delete k m)) \<subseteq> ran (map_of m)"
  by (auto simp: ran_def)

lemma ran_filter: "wf_gomap m \<Longrightarrow> ran (map_of (filter (\<lambda>(k, v). P k v) m)) \<subseteq> ran (map_of m)"
  by (auto simp: ran_def map_of_filter_bindings split: option.splits if_splits)

lemma rt_inv_dropKey [intro]: 
  assumes "rt_inv t" shows "rt_inv (dropKey k t)"
proof -
  have "rt_heap (dropKey k t)"
    using assms ran_delete [of k "entryByKey t"]
    by - (rule rt_heap_mono [of t], auto simp: rt_inv_def ptrs_def dropKey_def)
  then show ?thesis using assms by (simp add: rt_inv_def rt_wf_def rt_keys_def rt_nets_def dropKey_def)
qed

lemma rt_inv_filterNets:
  assumes "rt_inv t" shows "rt_inv (t\<lparr>entryByNetwork := filter (\<lambda>(n, x). P n x) (entryByNetwork t)\<rparr>)"
proof -
  have wf: "wf_gomap (entryByNetwork t)" using assms by (simp add: rt_inv_def rt_wf_def)
  have "rt_heap (t\<lparr>entryByNetwork := filter (\<lambda>(n, x). P n x) (entryByNetwork t)\<rparr>)"
    using assms ran_filter [OF wf, of P]
    by - (rule rt_heap_mono [of t], auto simp: rt_inv_def ptrs_def)
  then show ?thesis using assms wf
    by (auto simp: rt_inv_def rt_wf_def rt_keys_def rt_nets_def map_of_filter_bindings
        split: option.splits if_splits)
qed

lemma rt_inv_deleteNet:
  assumes "rt_inv t" shows "rt_inv (t\<lparr>entryByNetwork := AList.delete n (entryByNetwork t)\<rparr>)"
proof -
  have "rt_heap (t\<lparr>entryByNetwork := AList.delete n (entryByNetwork t)\<rparr>)"
    using assms ran_delete [of n "entryByNetwork t"]
    by - (rule rt_heap_mono [of t], auto simp: rt_inv_def ptrs_def)
  then show ?thesis using assms by (simp add: rt_inv_def rt_wf_def rt_keys_def rt_nets_def)
qed

lemma rt_inv_setState [intro]:
  "rt_inv t \<Longrightarrow> s \<in> {stateGood, stateSus, stateBad, stateWorst} \<Longrightarrow> rt_inv (setState k s t)"
  by (auto simp: rt_defs setState_def ptrs_def)

lemma alloc_simps [simp]:
  "entryByNetwork (alloc t) = entryByNetwork t" "stateByKey (alloc t) = stateByKey t"
  "entryByKey (alloc t) = entryByKey t" "zit (alloc t) = zit t" "heapNext (alloc t) = heapNext t + 1"
  "ptrs (alloc t) = ptrs t" "stateOf (alloc t) k = stateOf t k"
  by (simp_all add: alloc_def ptrs_def stateOf_def)

lemma rt_inv_alloc: "rt_inv t \<Longrightarrow> rt_inv (alloc t)"
  using rt_heap_mono [of t "alloc t"]
  by (simp add: rt_inv_def rt_wf_def rt_keys_def rt_nets_def)

lemma rt_fresh: "rt_inv t \<Longrightarrow> p \<in> ptrs t \<Longrightarrow> fst p < heapNext t"
  by (auto simp: rt_inv_def rt_heap_def)

lemma rt_inv_storeGood:
  assumes "rt_inv t" "fst p < heapNext t" "\<forall>q \<in> ptrs t. fst q = fst p \<longrightarrow> q = p"
  shows "rt_inv (storeGood p t)"
proof -
  have "ptrs (storeGood p t) \<subseteq> insert p (ptrs t)"
    by (auto simp: ptrs_def storeGood_def ran_def split: if_splits)
  then have "rt_heap (storeGood p t)"
    using assms by - (rule rt_heap_add [of t _ p], auto simp: rt_inv_def storeGood_def)
  then show ?thesis using assms
    by (auto simp: rt_inv_def rt_wf_def rt_keys_def rt_nets_def storeGood_def)
qed

subsection \<open>Pointing a range at an entry\<close>

lemma map_of_fold_update:
  "map_of (fold (\<lambda>n. AList.update n e) ns m) n = (if n \<in> set ns then Some e else map_of m n)"
  by (induction ns arbitrary: m) auto

lemma pointRange_Some:
  assumes "networkMax < 0xFFFF"
  shows "pointRange networkMin networkMax e t =
    Some (t\<lparr>entryByNetwork := fold (\<lambda>n. AList.update n e) (nets networkMin networkMax) (entryByNetwork t)\<rparr>)"
  by (simp add: pointRange_def for_u16_eq [OF assms] for_list_Inr_fold)

lemma max_u16: "n \<noteq> 0xFFFF \<Longrightarrow> n < (0xFFFF :: u16)"
  using unsigned_less [of n, where ?'a = nat] by (simp add: word_less_nat_alt word_unat_eq_iff)

lemma pointRange_None: "pointRange networkMin 0xFFFF e t = None"
  by (simp add: pointRange_def for_u16_diverges)

lemma pointRange_spec:
  assumes "pointRange lo hi e t = Some t'"
  shows "hi < 0xFFFF" "t' = t\<lparr>entryByNetwork := entryByNetwork t'\<rparr>"
    "map_of (entryByNetwork t') n = (if lo \<le> n \<and> n \<le> hi then Some e else map_of (entryByNetwork t) n)"
    "wf_gomap (entryByNetwork t) \<Longrightarrow> wf_gomap (entryByNetwork t')"
proof -
  show hi: "hi < 0xFFFF" using assms pointRange_None [of lo e t] max_u16 [of hi] by fastforce
  note t' = assms [unfolded pointRange_Some [OF hi]]
  show "t' = t\<lparr>entryByNetwork := entryByNetwork t'\<rparr>" using t' by auto
  show "map_of (entryByNetwork t') n = (if lo \<le> n \<and> n \<le> hi then Some e else map_of (entryByNetwork t) n)"
    using t' by (auto simp: map_of_fold_update)
  have "wf_gomap m \<Longrightarrow> wf_gomap (fold (\<lambda>n. AList.update n e) ns m)" for ns :: "u16 list" and m
    by (induction ns arbitrary: m) auto
  then show "wf_gomap (entryByNetwork t) \<Longrightarrow> wf_gomap (entryByNetwork t')"
    using t' by auto
qed

lemma rt_inv_pointRange:
  assumes "rt_inv t" "fst p < heapNext t" "\<forall>q \<in> ptrs t. fst q = fst p \<longrightarrow> q = p"
    and "pointRange (NetworkMin (snd p)) (NetworkMax (snd p)) p t = Some t'"
  shows "rt_inv t'" "ptrs t' \<subseteq> insert p (ptrs t)" "heapNext t' = heapNext t"
proof -
  note S = pointRange_spec [OF assms(4)]
  have same: "stateByKey t' = stateByKey t" "entryByKey t' = entryByKey t" "zit t' = zit t"
    and h: "heapNext t' = heapNext t"
    by (subst S(2), simp)+
  show "heapNext t' = heapNext t" by (rule h)
  show pt: "ptrs t' \<subseteq> insert p (ptrs t)"
    by (auto simp: ptrs_def ran_def S(3) same split: if_splits)
  have "rt_heap t'"
    using assms pt h by - (rule rt_heap_add [of t _ p], auto simp: rt_inv_def)
  then show "rt_inv t'" using assms(1) S(4)
    by (auto simp: rt_inv_def rt_wf_def rt_keys_def rt_nets_def same S(3))
qed

lemma rt_inv_install:
  assumes "rt_inv t" "fst p < heapNext t" "\<forall>q \<in> ptrs t. fst q < fst p"
    and "pointRange (NetworkMin (snd p)) (NetworkMax (snd p)) p t = Some t'"
  shows "rt_inv (storeGood p t')"
proof -
  have "\<forall>q \<in> ptrs t. fst q = fst p \<longrightarrow> q = p" using assms(3) by force
  note P = rt_inv_pointRange [OF assms(1,2) this assms(4)]
  have "\<forall>q \<in> ptrs t'. fst q = fst p \<longrightarrow> q = p" using P(2) assms(3) by force
  then show ?thesis using P assms(2) by (simp add: rt_inv_storeGood)
qed

section \<open>Every operation keeps the invariant\<close>

lemma heapNext_drop [simp]:
  "heapNext (withdrawZones e t) = heapNext t" "heapNext (dropKey k t) = heapNext t"
  by (simp_all add: withdrawZones_def dropKey_def)

lemma dropDirect_inv: "rt_inv t \<Longrightarrow> rt_inv (dropDirect p x t)"
  by (auto simp: dropDirect_def Let_def split: prod.split intro!: rt_inv_withdrawZones rt_inv_deleteNet rt_inv_dropKey)

lemma SetPortRange_inv: "rt_inv t \<Longrightarrow> SetPortRange t p lo hi = Some t' \<Longrightarrow> rt_inv t'"
proof -
  assume inv: "rt_inv t" and r: "SetPortRange t p lo hi = Some t'"
  define s where "s = fold (dropDirect p) (entryByNetwork t) t"
  have "rt_inv (fold (dropDirect p) xs u)" if "rt_inv u" for xs u
    using that by (induction xs arbitrary: u) (auto intro: dropDirect_inv)
  then have s: "rt_inv s" using inv by (simp add: s_def)
  have "\<forall>q \<in> ptrs (alloc s). fst q < heapNext s"
    using rt_fresh [OF s] by simp
  then show "rt_inv t'"
    using r rt_inv_install [OF rt_inv_alloc [OF s]]
    by (auto simp: SetPortRange_def Let_def s_def [symmetric] split: option.splits)
qed

lemma SetPortRange_returns: "(\<exists>t'. SetPortRange t p lo hi = Some t') \<longleftrightarrow> hi \<noteq> 0xFFFF"
proof (cases "hi = 0xFFFF")
  case False
  then show ?thesis using max_u16 [OF False] by (simp add: SetPortRange_def Let_def pointRange_Some)
qed (simp add: SetPortRange_def Let_def pointRange_None)

text \<open>The ways \<open>Consider\<close> can return.\<close>

definition replaced :: "RoutingTable \<Rightarrow> entry_ptr option \<Rightarrow> RoutingTable" where
  "replaced t cur = (case cur of None \<Rightarrow> t | Some (_, c) \<Rightarrow> dropKey (entryKey c) t)"

lemma Consider_cases [consumes 1, case_names refresh conflict keep add]:
  assumes "Consider t e = Some (b, t')"
  obtains s where "map_of (stateByKey t) (entryKey e) = Some s" "b"
      "t' = setState (entryKey e) stateGood (alloc t)"
  | "map_of (stateByKey t) (entryKey e) = None" "\<not> b" "t' = alloc t"
      "findCur (alloc t) (NetworkMin e) (NetworkMax e) = Some (Inl ())"
  | a c where "map_of (stateByKey t) (entryKey e) = None" "\<not> b" "t' = alloc t"
      "findCur (alloc t) (NetworkMin e) (NetworkMax e) = Some (Inr (Some (a, c)))"
      "keepsCurrent (alloc t) c e"
  | cur u where "map_of (stateByKey t) (entryKey e) = None" "b"
      "findCur (alloc t) (NetworkMin e) (NetworkMax e) = Some (Inr cur)"
      "\<forall>a c. cur = Some (a, c) \<longrightarrow> \<not> keepsCurrent (alloc t) c e"
      "pointRange (NetworkMin e) (NetworkMax e) (heapNext t, e) (replaced (alloc t) cur) = Some u"
      "t' = storeGood (heapNext t, e) u"
  using assms
  by (auto simp: Consider_def Let_def setState_def replaced_def [symmetric]
      split: option.splits sum.splits if_splits prod.splits) (auto simp: replaced_def)

lemma replaced_fresh:
  assumes "rt_inv t"
  shows "rt_inv (replaced (alloc t) cur)" "heapNext (replaced (alloc t) cur) = heapNext t + 1"
    "\<forall>q \<in> ptrs (replaced (alloc t) cur). fst q < heapNext t"
proof -
  show "rt_inv (replaced (alloc t) cur)" "heapNext (replaced (alloc t) cur) = heapNext t + 1"
    using rt_inv_alloc [OF assms] by (auto simp: replaced_def split: option.splits)
  have "ptrs (replaced (alloc t) cur) \<subseteq> ptrs t"
    using ran_delete by (fastforce simp: replaced_def ptrs_def dropKey_def split: option.splits)
  then show "\<forall>q \<in> ptrs (replaced (alloc t) cur). fst q < heapNext t"
    using rt_fresh [OF assms] by blast
qed

lemma Consider_inv: 
  assumes inv: "rt_inv t" and "Consider t e = Some (b, t')" 
  shows "rt_inv t'"
  using assms(2)
proof (cases rule: Consider_cases)
  case (add cur u)
  then show ?thesis using rt_inv_install [OF replaced_fresh(1) [OF inv], of "(heapNext t, e)" cur u] 
    replaced_fresh(2,3) [OF inv, of cur] by simp
qed (use rt_inv_alloc [OF inv] in auto)

lemma MarkBad_inv: "rt_inv t \<Longrightarrow> MarkBad t lo hi = Some (b, t') \<Longrightarrow> rt_inv t'"
  using rt_inv_setState [of t stateBad]
  by (auto simp: MarkBad_def Let_def setState_def split: option.splits sum.splits if_splits)

lemma fold_dropKey_inv: "rt_inv t \<Longrightarrow> rt_inv (fold (\<lambda>(k, _). dropKey k) xs t)"
  by (induction xs arbitrary: t) auto

lemma fold_withdraw_inv: "rt_inv t \<Longrightarrow> rt_inv (fold (\<lambda>(k, (_, e)). withdrawZones e) xs t)"
  by (induction xs arbitrary: t) auto

lemma RemoveEntriesForPort_inv: "rt_inv t \<Longrightarrow> rt_inv (RemoveEntriesForPort t p)"
  unfolding RemoveEntriesForPort_def Let_def
  by (intro fold_withdraw_inv rt_inv_filterNets fold_dropKey_inv)

lemma ageOut_inv: "rt_inv t \<Longrightarrow> rt_inv (ageOut k e t)"
  unfolding ageOut_def Let_def
  by (intro rt_inv_withdrawZones rt_inv_filterNets rt_inv_dropKey)

lemma ageOne_inv: "rt_inv t \<Longrightarrow> rt_inv (ageOne x t)"
  by (auto simp: ageOne_def Let_def split: prod.split intro: ageOut_inv)

lemma fold_ageOne_inv: "rt_inv t \<Longrightarrow> rt_inv (fold ageOne xs t)"
  by (induction xs arbitrary: t) (auto intro: ageOne_inv)

lemma Age_inv: "rt_inv t \<Longrightarrow> rt_inv (Age t)"
  unfolding Age_def by (rule fold_ageOne_inv)

lemma zit_update_inv: "rt_inv t \<Longrightarrow> zit_inv z \<Longrightarrow> rt_inv (t\<lparr>zit := z\<rparr>)"
  by (simp add: rt_defs ptrs_def)

section \<open>Ageing\<close>

definition nextState :: "u8 \<Rightarrow> nat \<Rightarrow> nat" where
  "nextState d s = (if s = stateWorst then 0 else if s = stateBad then stateWorst
     else if s = stateSus then stateBad else if s = stateGood \<and> d \<noteq> 0 then stateSus else s)"

lemma drop_fields [simp]:
  "entryByNetwork (dropKey k t) = entryByNetwork t" "entryByNetwork (withdrawZones e t) = entryByNetwork t"
  "entryByKey (dropKey k t) = AList.delete k (entryByKey t)" "entryByKey (withdrawZones e t) = entryByKey t"
  "stateByKey (dropKey k t) = AList.delete k (stateByKey t)" "stateByKey (withdrawZones e t) = stateByKey t"
  "entryByNetwork (setState k s t) = entryByNetwork t" "entryByKey (setState k s t) = entryByKey t"
  "stateByKey (setState k s t) = AList.update k s (stateByKey t)"
  by (simp_all add: dropKey_def withdrawZones_def setState_def)

lemma ageOne_key:
  "map_of (entryByKey (ageOne (k, p) t)) k' =
     (if k' = k \<and> stateOf t k = stateWorst then None else map_of (entryByKey t) k')"
  by (simp add: ageOne_def ageOut_def Let_def)

lemma ageOne_state:
  "stateOf (ageOne (k, p) t) k' = (if k' = k then nextState (Distance (snd p)) (stateOf t k) else stateOf t k')"
  by (simp add: ageOne_def ageOut_def Let_def nextState_def stateOf_def split: option.splits)

lemma ageOne_net:
  "wf_gomap (entryByNetwork t) \<Longrightarrow> map_of (entryByNetwork (ageOne (k, p) t)) n =
     (case map_of (entryByNetwork t) n of None \<Rightarrow> None
      | Some q \<Rightarrow> if stateOf t k = stateWorst \<and> fst q = fst p then None else Some q)"
  by (simp add: ageOne_def ageOut_def Let_def map_of_filter_bindings split: option.splits)

lemma ageOne_wf: "wf_gomap (entryByNetwork t) \<Longrightarrow> wf_gomap (entryByNetwork (ageOne x t))"
  by (simp add: ageOne_def ageOut_def Let_def split: prod.splits)

lemma fold_ageOne_state:
  "wf_gomap xs \<Longrightarrow> stateOf (fold ageOne xs t) k =
     (case map_of xs k of None \<Rightarrow> stateOf t k | Some p \<Rightarrow> nextState (Distance (snd p)) (stateOf t k))"
proof (induction xs arbitrary: t)
  case (Cons x xs)
  obtain j p where x: "x = (j, p)" by (cases x)
  have "map_of xs j = None" "wf_gomap xs" using Cons.prems by (auto simp: x map_of_eq_None_iff)
  then show ?case using Cons.IH by (simp add: x ageOne_state split: option.split)
qed simp

lemma fold_ageOne_key:
  "wf_gomap xs \<Longrightarrow> map_of (entryByKey (fold ageOne xs t)) k =
     (if k \<in> fst ` set xs \<and> stateOf t k = stateWorst then None else map_of (entryByKey t) k)"
proof (induction xs arbitrary: t)
  case (Cons x xs)
  then show ?case by (cases x) (auto simp: ageOne_key ageOne_state)
qed simp

lemma fold_ageOne_net:
  "wf_gomap xs \<Longrightarrow> wf_gomap (entryByNetwork t) \<Longrightarrow> map_of (entryByNetwork (fold ageOne xs t)) n =
     (case map_of (entryByNetwork t) n of None \<Rightarrow> None
      | Some q \<Rightarrow> if \<exists>k p. map_of xs k = Some p \<and> stateOf t k = stateWorst \<and> fst q = fst p
                 then None else Some q)"
proof (induction xs arbitrary: t)
  case (Cons x xs)
  obtain j p where x: "x = (j, p)" by (cases x)
  have j: "wf_gomap xs" "map_of xs j = None"
    using Cons.prems(1) by (auto simp: x map_of_eq_None_iff)
  have st: "stateOf (ageOne x t) k = stateOf t k" if "map_of xs k = Some q" for k q
    using that j by (auto simp: x ageOne_state)
  have ex: "(\<exists>k p'. map_of (x # xs) k = Some p' \<and> stateOf t k = stateWorst \<and> fst q = fst p') \<longleftrightarrow>
      (stateOf t j = stateWorst \<and> fst q = fst p) \<or>
      (\<exists>k p'. map_of xs k = Some p' \<and> stateOf (ageOne x t) k = stateWorst \<and> fst q = fst p')" for q :: entry_ptr
    using st j(2) unfolding x map_of.simps fun_upd_apply by (metis fst_conv option.inject option.distinct(1) snd_conv)
  show ?case
    unfolding fold_simps Cons.IH [OF j(1) ageOne_wf [OF Cons.prems(2)]] ex
    by (auto simp: x ageOne_net [OF Cons.prems(2)] split: option.split)
qed (simp split: option.split)

lemma Age_key: "rt_inv t \<Longrightarrow> map_of (entryByKey (Age t)) k =
    (if stateOf t k = stateWorst then None else map_of (entryByKey t) k)"
  using fold_ageOne_key [of "entryByKey t" t k]
  by (auto simp: Age_def rt_inv_def rt_wf_def map_of_eq_None_iff)

lemma Age_state: "rt_inv t \<Longrightarrow> stateOf (Age t) k =
    (case map_of (entryByKey t) k of None \<Rightarrow> stateOf t k | Some p \<Rightarrow> nextState (Distance (snd p)) (stateOf t k))"
  using fold_ageOne_state [of "entryByKey t" t k] by (simp add: Age_def rt_inv_def rt_wf_def)

lemma Age_net: "rt_inv t \<Longrightarrow> map_of (entryByNetwork (Age t)) n =
    (case map_of (entryByNetwork t) n of None \<Rightarrow> None
     | Some q \<Rightarrow> if map_of (entryByKey t) (entryKey (snd q)) = Some q \<and> stateOf t (entryKey (snd q)) = stateWorst
                then None else Some q)"
proof -
  assume inv: "rt_inv t"
  have same: "(\<exists>k p. map_of (entryByKey t) k = Some p \<and> stateOf t k = stateWorst \<and> fst q = fst p) \<longleftrightarrow>
      map_of (entryByKey t) (entryKey (snd q)) = Some q \<and> stateOf t (entryKey (snd q)) = stateWorst"
    if "map_of (entryByNetwork t) n = Some q" for q
  proof -
    have "q = p" if "map_of (entryByKey t) k = Some p" "fst q = fst p" for k p
      using that inv \<open>map_of (entryByNetwork t) n = Some q\<close>
      unfolding rt_inv_def rt_heap_def ptrs_def by (metis Un_iff ranI)
    then show ?thesis using inv unfolding rt_inv_def rt_keys_def by metis
  qed
  show ?thesis
  proof (cases "map_of (entryByNetwork t) n")
    case (Some q)
    then show ?thesis
      using fold_ageOne_net [of "entryByKey t" t n] inv same [OF Some]
      by (simp add: Age_def rt_inv_def rt_wf_def del: split_paired_Ex)
  qed (use fold_ageOne_net [of "entryByKey t" t n] inv in \<open>simp add: Age_def rt_inv_def rt_wf_def\<close>)
qed

lemma Age_power_inv: "rt_inv t \<Longrightarrow> rt_inv ((Age ^^ i) t)"
  by (induction i) (auto intro: Age_inv)

lemma stateOf_bounds:
  assumes "rt_inv t" "map_of (entryByKey t) k = Some p"
  shows "1 \<le> stateOf t k" "stateOf t k \<le> stateWorst"
proof -
  obtain s where s: "map_of (stateByKey t) k = Some s"
    using assms unfolding rt_inv_def rt_keys_def by (metis not_None_eq)
  then have "s \<in> {stateGood, stateSus, stateBad, stateWorst}"
    using assms(1) unfolding rt_inv_def rt_keys_def by metis
  then show "1 \<le> stateOf t k" "stateOf t k \<le> stateWorst" using s by (auto simp: stateOf_def)
qed

text \<open>A learned entry climbs one state per tick and is gone from both indices after the last.\<close>

lemma Age_power_learned:
  assumes inv: "rt_inv t" and p: "map_of (entryByKey t) k = Some p" "Distance (snd p) \<noteq> 0"
  shows "stateOf t k + i \<le> stateWorst \<Longrightarrow>
      map_of (entryByKey ((Age ^^ i) t)) k = Some p \<and> stateOf ((Age ^^ i) t) k = stateOf t k + i"
proof (induction i)
  case (Suc i)
  then have "map_of (entryByKey ((Age ^^ i) t)) k = Some p" "stateOf ((Age ^^ i) t) k = stateOf t k + i"
    by simp_all
  moreover have "1 \<le> stateOf t k" by (rule stateOf_bounds(1) [OF inv p(1)])
  ultimately show ?case
    using Suc.prems p(2) by (auto simp: Age_key Age_state Age_power_inv [OF inv] nextState_def)
qed (use p in simp)

lemma Age_power_gone:
  assumes inv: "rt_inv t" and k: "entryKey (snd p) = k" and gone: "map_of (entryByKey t) k = None" "p \<notin> ptrs t"
  shows "map_of (entryByKey ((Age ^^ i) t)) k = None \<and> p \<notin> ptrs ((Age ^^ i) t)"
proof (induction i)
  case (Suc i)
  then show ?case
    by (auto simp: Age_key Age_net Age_power_inv [OF inv] ptrs_def ran_def split: option.splits if_splits)
qed (use gone in simp)

section \<open>Searching a range\<close>

lemma curStep_simps [simp]:
  "curStep t n None = Inr (map_of (entryByNetwork t) n)"
  "curStep t n (Some c) =
     (if map_option fst (map_of (entryByNetwork t) n) \<noteq> Some (fst c) then Inl () else Inr (Some c))"
  by (simp_all add: curStep_def)

lemma for_list_curStep_Some:
  "for_list (curStep t) ns (Some c) = Inr r \<Longrightarrow>
     r = Some c \<and> (\<forall>n \<in> set ns. map_option fst (map_of (entryByNetwork t) n) = Some (fst c))"
  by (induction ns) (auto split: if_splits)

lemma for_list_curStep_None:
  "for_list (curStep t) ns None = Inr r \<Longrightarrow>
     (\<forall>n \<in> set ns. map_of (entryByNetwork t) n = None \<or>
        map_option fst (map_of (entryByNetwork t) n) = map_option fst r)"
proof (induction ns)
  case (Cons n ns)
  show ?case
  proof (cases "map_of (entryByNetwork t) n")
    case None
    then show ?thesis using Cons by simp
  next
    case (Some c)
    then have "for_list (curStep t) ns (Some c) = Inr r" using Cons.prems by simp
    from for_list_curStep_Some [OF this] Some show ?thesis by (cases c) auto
  qed
qed simp

text \<open>When the search succeeds, every occupied network of the range holds the entry it found.\<close>

lemma findCur_holds:
  assumes inv: "rt_inv t" and hi: "hi < 0xFFFF" and f: "findCur t lo hi = Some (Inr cur)"
    and n: "lo \<le> n" "n \<le> hi" "map_of (entryByNetwork t) n = Some p" and cur: "cur = None \<or> the cur \<in> ptrs t"
  shows "cur = Some p"
proof -
  have "for_list (curStep t) (nets lo hi) None = Inr cur"
    using f by (simp add: findCur_def for_u16_eq [OF hi])
  from for_list_curStep_None [OF this] n obtain c where c: "cur = Some c" "fst p = fst c"
    by (cases cur) (force simp: map_option_case)+
  moreover have "p \<in> ptrs t" using n(3) by (auto simp: ptrs_def ran_def)
  ultimately show ?thesis using inv cur by (auto simp: rt_inv_def rt_heap_def)
qed

lemma for_list_curStep_ptr:
  "for_list (curStep t) ns cur = Inr r \<Longrightarrow> cur = None \<or> the cur \<in> ptrs t \<Longrightarrow> r = None \<or> the r \<in> ptrs t"
proof (induction ns arbitrary: cur)
  case (Cons n ns)
  have "map_of (entryByNetwork t) n = Some c \<Longrightarrow> c \<in> ptrs t" for c
    by (auto simp: ptrs_def ran_def)
  then have "map_of (entryByNetwork t) n = None \<or> the (map_of (entryByNetwork t) n) \<in> ptrs t"
    by (cases "map_of (entryByNetwork t) n") auto
  then show ?case using Cons by (cases cur) (auto split: if_splits)
qed simp

lemma findCur_ptr:
  assumes "hi < 0xFFFF" "findCur t lo hi = Some (Inr cur)"
  shows "cur = None \<or> the cur \<in> ptrs t"
  using assms for_list_curStep_ptr [of t "nets lo hi" None cur] by (simp add: findCur_def for_u16_eq)

lemma findCur_alloc [simp]: "findCur (alloc t) lo hi = findCur t lo hi"
proof -
  have "curStep (alloc t) = curStep t" by (intro ext) (simp add: curStep_def)
  then show ?thesis by (simp add: findCur_def)
qed

lemma keepsCurrent_alloc [simp]: "keepsCurrent (alloc t) c e = keepsCurrent t c e"
  by (simp add: keepsCurrent_def)

lemma replaced_fields [simp]:
  "entryByNetwork (replaced t cur) = entryByNetwork t"
  by (simp add: replaced_def split: option.split)

lemma storeGood_fields [simp]:
  "entryByNetwork (storeGood p t) = entryByNetwork t"
  "entryByKey (storeGood p t) = AList.update (entryKey (snd p)) p (entryByKey t)"
  "stateByKey (storeGood p t) = AList.update (entryKey (snd p)) stateGood (stateByKey t)"
  by (simp_all add: storeGood_def)

section \<open>Runs\<close>

datatype rt_op = RSetPortRange port u16 u16 | RConsider RoutingTableEntry | RMarkBad u16 u16
  | RRemovePort port | RAge | RAddZone bytes u16 "u16 option"

fun rt_step :: "rt_op \<Rightarrow> RoutingTable \<Rightarrow> RoutingTable option" where
  "rt_step (RSetPortRange p lo hi) t = SetPortRange t p lo hi"
| "rt_step (RConsider e) t = map_option snd (Consider t e)"
| "rt_step (RMarkBad lo hi) t = map_option snd (MarkBad t lo hi)"
| "rt_step (RRemovePort p) t = Some (RemoveEntriesForPort t p)"
| "rt_step RAge t = Some (Age t)"
| "rt_step (RAddZone zn lo hi) t = Some (t\<lparr>zit := snd (AddNetworksToZone (zit t) zn lo hi)\<rparr>)"

text \<open>A call that does not return ends the run: the state stays \<open>None\<close>.\<close>

definition rt_perform :: "rt_op \<Rightarrow> RoutingTable option \<Rightarrow> RoutingTable option" where
  "rt_perform op s = Option.bind s (rt_step op)"

lemma rt_step_inv: "rt_inv t \<Longrightarrow> rt_step op t = Some t' \<Longrightarrow> rt_inv t'"
proof (cases op)
  case (RAddZone zn lo hi)
  then show "rt_inv t \<Longrightarrow> rt_step op t = Some t' \<Longrightarrow> rt_inv t'"
    by (auto simp: rt_inv_def intro!: zit_update_inv [unfolded rt_inv_def] zit.add_invar_snd)
qed (auto intro: SetPortRange_inv Consider_inv MarkBad_inv RemoveEntriesForPort_inv Age_inv)

interpretation rt_runs: guarded_component "Some NewRoutingTable" rt_perform "pred_option rt_inv"
proof
  show "pred_option rt_inv (Some NewRoutingTable)" by (simp add: rt_inv_New)
  show "pred_option rt_inv s \<Longrightarrow> pred_option rt_inv (rt_perform op s)" for s op
    by (cases s) (auto simp: rt_perform_def pred_option_def rt_step_inv)
qed

abbreviation rt_after :: "rt_op list \<Rightarrow> RoutingTable option" where
  "rt_after ops \<equiv> fold rt_perform ops (Some NewRoutingTable)"

lemma rt_after_inv: "rt_after ops = Some t \<Longrightarrow> rt_inv t"
  using rt_runs.invar_run [of ops] by simp

section \<open>Withdrawing a port\<close>

lemma fold_dropKey_fields:
  "entryByNetwork (fold (\<lambda>(k, _). dropKey k) xs t) = entryByNetwork t"
  "map_of (entryByKey (fold (\<lambda>(k, _). dropKey k) xs t)) k =
     (if k \<in> fst ` set xs then None else map_of (entryByKey t) k)"
  "map_of (stateByKey (fold (\<lambda>(k, _). dropKey k) xs t)) k =
     (if k \<in> fst ` set xs then None else map_of (stateByKey t) k)"
  by (induction xs arbitrary: t) auto

lemma fold_withdraw_fields [simp]:
  "entryByNetwork (fold (\<lambda>(k, (_, e)). withdrawZones e) xs t) = entryByNetwork t"
  "entryByKey (fold (\<lambda>(k, (_, e)). withdrawZones e) xs t) = entryByKey t"
  "stateByKey (fold (\<lambda>(k, (_, e)). withdrawZones e) xs t) = stateByKey t"
  by (induction xs arbitrary: t) auto

lemma RemoveEntriesForPort_net:
  "rt_inv t \<Longrightarrow> map_of (entryByNetwork (RemoveEntriesForPort t p)) n =
     (case map_of (entryByNetwork t) n of None \<Rightarrow> None
      | Some q \<Rightarrow> if Port (snd q) = p then None else Some q)"
proof -
  assume "rt_inv t"
  then have wf: "wf_gomap (entryByNetwork t)" by (simp add: rt_inv_def rt_wf_def)
  have "entryByNetwork (RemoveEntriesForPort t p) =
      filter (\<lambda>(n, (_, e)). Port e \<noteq> p) (entryByNetwork t)"
    by (simp add: RemoveEntriesForPort_def Let_def fold_dropKey_fields)
  also have "\<dots> = filter (\<lambda>(n, q). Port (snd q) \<noteq> p) (entryByNetwork t)"
    by (simp add: case_prod_unfold)
  finally have "entryByNetwork (RemoveEntriesForPort t p) =
      filter (\<lambda>(n, q). Port (snd q) \<noteq> p) (entryByNetwork t)" .
  then show ?thesis by (simp add: map_of_filter_bindings [OF wf] split: option.split)
qed

lemma removed_keys:
  assumes "wf_gomap m"
  shows "k \<in> fst ` set (filter (\<lambda>(k, (_, e)). Port e = p) m) \<longleftrightarrow>
     (\<exists>q. map_of m k = Some q \<and> Port (snd q) = p)"
  using assms by (force simp: wf_gomap_mem_iff [symmetric] image_iff)

lemma RemoveEntriesForPort_key:
  assumes inv: "rt_inv t"
  shows "map_of (entryByKey (RemoveEntriesForPort t p)) k =
     (case map_of (entryByKey t) k of None \<Rightarrow> None
      | Some q \<Rightarrow> if Port (snd q) = p then None else Some q)"
    and "map_of (stateByKey (RemoveEntriesForPort t p)) k =
     (if \<exists>q. map_of (entryByKey t) k = Some q \<and> Port (snd q) = p then None else map_of (stateByKey t) k)"
proof -
  have wf: "wf_gomap (entryByKey t)" using inv by (simp add: rt_inv_def rt_wf_def)
  show "map_of (entryByKey (RemoveEntriesForPort t p)) k =
     (case map_of (entryByKey t) k of None \<Rightarrow> None
      | Some q \<Rightarrow> if Port (snd q) = p then None else Some q)"
    by (auto simp: RemoveEntriesForPort_def Let_def fold_dropKey_fields removed_keys [OF wf] simp del: set_filter
        split: option.split)
  show "map_of (stateByKey (RemoveEntriesForPort t p)) k =
     (if \<exists>q. map_of (entryByKey t) k = Some q \<and> Port (snd q) = p then None else map_of (stateByKey t) k)"
    by (simp add: RemoveEntriesForPort_def Let_def fold_dropKey_fields removed_keys [OF wf] del: set_filter split_paired_Ex)
qed

section \<open>Seeding a port\<close>

lemma dropDirect_net:
  "map_of (entryByNetwork (dropDirect p (n', q) t)) n =
     (if n = n' \<and> Port (snd q) = p \<and> Distance (snd q) = 0 then None else map_of (entryByNetwork t) n)"
  by (cases q) (simp add: dropDirect_def Let_def)

lemma fold_dropDirect_net:
  "wf_gomap xs \<Longrightarrow> map_of (entryByNetwork (fold (dropDirect p) xs t)) n =
     (case map_of xs n of
        Some q \<Rightarrow> if Port (snd q) = p \<and> Distance (snd q) = 0 then None else map_of (entryByNetwork t) n
      | None \<Rightarrow> map_of (entryByNetwork t) n)"
proof (induction xs arbitrary: t)
  case (Cons x xs)
  obtain j q where x: "x = (j, q)" by (cases x)
  have "map_of xs j = None" "wf_gomap xs" using Cons.prems by (auto simp: x map_of_eq_None_iff)
  then show ?case using Cons.IH by (simp add: x dropDirect_net split: option.split)
qed simp

lemma SetPortRange_net:
  assumes inv: "rt_inv t" and r: "SetPortRange t p lo hi = Some t'"
  shows "map_of (entryByNetwork t') n =
    (if lo \<le> n \<and> n \<le> hi
     then Some (heapNext (fold (dropDirect p) (entryByNetwork t) t),
        \<lparr>ExtendedNetwork = isExtended p, NetworkMin = lo, NetworkMax = hi, Distance = 0, Port = p,
         NextNetwork = 0, NextNode = 0\<rparr>)
     else case map_of (entryByNetwork t) n of None \<Rightarrow> None
       | Some q \<Rightarrow> if Port (snd q) = p \<and> Distance (snd q) = 0 then None else Some q)"
proof -
  have wf: "wf_gomap (entryByNetwork t)" using inv by (simp add: rt_inv_def rt_wf_def)
  let ?s = "fold (dropDirect p) (entryByNetwork t) t"
  let ?e = "(heapNext ?s, \<lparr>ExtendedNetwork = isExtended p, NetworkMin = lo, NetworkMax = hi,
    Distance = 0, Port = p, NextNetwork = 0, NextNode = 0\<rparr>)"
  obtain u where u: "pointRange lo hi ?e (alloc ?s) = Some u" "t' = storeGood ?e u"
    using r by (auto simp: SetPortRange_def Let_def split: option.splits)
  show ?thesis
    using pointRange_spec(3) [OF u(1), of n] fold_dropDirect_net [OF wf, of p t n]
    by (simp add: u(2) split: option.split)
qed

lemma SetPortRange_state:
  assumes "SetPortRange t p lo hi = Some t'"
  shows "map_of (stateByKey t') (entryKey \<lparr>ExtendedNetwork = isExtended p, NetworkMin = lo, NetworkMax = hi,
    Distance = 0, Port = p, NextNetwork = 0, NextNode = 0\<rparr>) = Some stateGood"
  using assms by (auto simp: SetPortRange_def Let_def split: option.splits)

section \<open>A sample run\<close>

text \<open>A LocalTalk port on network 1 and two routes learned from neighbours on it.\<close>

definition lt0 :: port where
  "lt0 = \<lparr>portId = 1, ShortString = ''lt0'', isExtended = False\<rparr>"

definition learned :: "u16 \<Rightarrow> u16 \<Rightarrow> u8 \<Rightarrow> u8 \<Rightarrow> RoutingTableEntry" where
  "learned lo hi dist node = \<lparr>ExtendedNetwork = True, NetworkMin = lo, NetworkMax = hi,
     Distance = dist, Port = lt0, NextNetwork = 1, NextNode = node\<rparr>"

definition sample_routes :: "rt_op list" where
  "sample_routes = [RSetPortRange lt0 1 1, RConsider (learned 3 5 2 9)]"

definition directEntry :: RoutingTableEntry where
  "directEntry = \<lparr>ExtendedNetwork = False, NetworkMin = 1, NetworkMax = 1, Distance = 0, Port = lt0,
     NextNetwork = 0, NextNode = 0\<rparr>"

definition sample_table :: RoutingTable where
  "sample_table =
    \<lparr>entryByNetwork = [(1, (0, directEntry)), (3, (1, learned 3 5 2 9)), (4, (1, learned 3 5 2 9)),
        (5, (1, learned 3 5 2 9))],
     stateByKey = [(''lt0|1|1|0|0|0'', 1), (''lt0|3|5|2|1|9'', 1)],
     entryByKey = [(''lt0|1|1|0|0|0'', (0, directEntry)), (''lt0|3|5|2|1|9'', (1, learned 3 5 2 9))],
     zit = NewZoneInformationTable, heapNext = 2\<rparr>"

lemma sample_keys [simp]:
  "entryKey directEntry = ''lt0|1|1|0|0|0''"
  "entryKey (learned 3 5 2 9) = ''lt0|3|5|2|1|9''"
  "entryKey (learned 3 3 1 7) = ''lt0|3|3|1|1|7''"
  by (simp_all add: entryKey_def directEntry_def learned_def lt0_def decimal.simps char_of_def bit_0)

lemma learned_fields [simp]:
  "NetworkMin (learned lo hi d n) = lo" "NetworkMax (learned lo hi d n) = hi"
  "Distance (learned lo hi d n) = d" "Port (learned lo hi d n) = lt0"
  "NextNetwork (learned lo hi d n) = 1" "NextNode (learned lo hi d n) = n"
  by (simp_all add: learned_def)

lemma nets_small: "nets 1 1 = [1]" "nets 3 5 = [3, 4, 5]" "nets 3 3 = [3]"
  by (simp_all add: nets_def upt_rec)

lemma sample_after: "rt_after sample_routes = Some sample_table"
proof -
  have "SetPortRange NewRoutingTable lt0 1 1 =
      Some (storeGood (0, directEntry) (NewRoutingTable\<lparr>entryByNetwork := [(1, (0, directEntry))], heapNext := 1\<rparr>))"
    by (simp add: SetPortRange_def NewRoutingTable_def pointRange_Some nets_small directEntry_def
        alloc_def lt0_def Let_def)
  then show ?thesis
    by (simp add: sample_routes_def rt_perform_def Consider_def Let_def findCur_def for_u16_eq nets_small
        pointRange_Some storeGood_def alloc_def NewRoutingTable_def sample_table_def)
qed

section \<open>Properties\<close>


text \<open>
  C3. Ageing. A directly connected good route never ages. A learned route that is not heard of
  again climbs one state per tick, stays in the table while it does, and after the tick that finds
  it in the last state it is in neither index and never comes back by ageing.
\<close>

theorem Age_removes_learned_routes:
  assumes run: "rt_after ops = Some t" and p: "map_of (entryByKey t) k = Some p"
  shows "(Distance (snd p) = 0 \<longrightarrow> stateOf t k = stateGood \<longrightarrow>
            map_of (entryByKey ((Age ^^ i) t)) k = Some p \<and> stateOf ((Age ^^ i) t) k = stateGood) \<and>
         (Distance (snd p) \<noteq> 0 \<longrightarrow>
            (if stateOf t k + i \<le> stateWorst
             then map_of (entryByKey ((Age ^^ i) t)) k = Some p \<and> stateOf ((Age ^^ i) t) k = stateOf t k + i
             else map_of (entryByKey ((Age ^^ i) t)) k = None \<and> p \<notin> ptrs ((Age ^^ i) t)))"
proof (intro conjI impI)
  have inv: "rt_inv t" by (rule rt_after_inv [OF run])
  show "map_of (entryByKey ((Age ^^ i) t)) k = Some p" "stateOf ((Age ^^ i) t) k = stateGood"
    if "Distance (snd p) = 0" "stateOf t k = stateGood"
    using that p by (induction i) (auto simp: Age_key Age_state Age_power_inv [OF inv] nextState_def)
  assume d: "Distance (snd p) \<noteq> 0"
  have key: "entryKey (snd p) = k" using inv p unfolding rt_inv_def rt_keys_def by blast
  show "if stateOf t k + i \<le> stateWorst
      then map_of (entryByKey ((Age ^^ i) t)) k = Some p \<and> stateOf ((Age ^^ i) t) k = stateOf t k + i
      else map_of (entryByKey ((Age ^^ i) t)) k = None \<and> p \<notin> ptrs ((Age ^^ i) t)"
  proof (cases "stateOf t k + i \<le> stateWorst")
    case False
    define j where "j = stateWorst - stateOf t k"
    have j: "stateOf t k + j = stateWorst" "Suc j \<le> i"
      using stateOf_bounds(2) [OF inv p] False by (auto simp: j_def)
    let ?u = "(Age ^^ j) t"
    have u: "rt_inv ?u" "map_of (entryByKey ?u) k = Some p" "stateOf ?u k = stateWorst"
      using Age_power_inv [OF inv] Age_power_learned [OF inv p d, of j] j(1) by simp_all
    have gone: "map_of (entryByKey (Age ?u)) k = None"
      using u by (simp add: Age_key)
    moreover have "p \<notin> ptrs (Age ?u)"
    proof -
      have "map_of (entryByNetwork (Age ?u)) n \<noteq> Some p" for n
        using u key by (cases p) (auto simp: Age_net split: option.split)
      moreover have "map_of (entryByKey (Age ?u)) k' \<noteq> Some p" for k'
        using Age_inv [OF u(1)] key gone unfolding rt_inv_def rt_keys_def by (metis option.distinct(1))
      ultimately show ?thesis by (simp add: ptrs_def ran_def)
    qed
    moreover have "(Age ^^ i) t = (Age ^^ (i - Suc j)) (Age ?u)"
      using j(2) by (metis comp_apply funpow.simps(2) funpow_add le_add_diff_inverse2)
    ultimately show ?thesis using False Age_power_gone [OF Age_inv [OF u(1)] key, of "i - Suc j"] by simp
  qed (use Age_power_learned [OF inv p d, of i] in simp)
qed

theorem Age_removes_learned_routes_witness:
  "map_of (entryByKey ((Age ^^ 3) sample_table)) ''lt0|3|5|2|1|9'' = Some (1, learned 3 5 2 9) \<and>
   (1, learned 3 5 2 9) \<notin> ptrs ((Age ^^ 4) sample_table)"
proof -
  have k: "map_of (entryByKey sample_table) ''lt0|3|5|2|1|9'' = Some (1, learned 3 5 2 9)"
    and s: "stateOf sample_table ''lt0|3|5|2|1|9'' = 1"
    by (simp_all add: sample_table_def stateOf_def)
  show ?thesis
    using Age_removes_learned_routes [OF sample_after k, of 3] Age_removes_learned_routes [OF sample_after k, of 4] s
    by simp
qed

text \<open>
  C4. An accepted new route serves exactly its range and never displaces a better one: every
  network of the range now leads to it and is not bad, every other network keeps its entry, and
  any entry it took a network from was not nearer, or bad, or came from the same next hop.
\<close>

theorem Consider_accepts:
  assumes run: "rt_after ops = Some t" and acc: "Consider t e = Some (True, t')"
    and new: "map_of (stateByKey t) (entryKey e) = None"
  shows "(\<forall>n. if NetworkMin e \<le> n \<and> n \<le> NetworkMax e
              then GetByNetwork t' n = Some ((heapNext t, e), False)
              else map_of (entryByNetwork t') n = map_of (entryByNetwork t) n) \<and>
         (\<forall>n a c. NetworkMin e \<le> n \<and> n \<le> NetworkMax e \<and> map_of (entryByNetwork t) n = Some (a, c) \<longrightarrow>
            Distance e \<le> Distance c \<or> isBad (stateOf t (entryKey c)) \<or>
            (NextNetwork c = NextNetwork e \<and> NextNode c = NextNode e \<and> Port c = Port e))"
  using acc
proof (cases rule: Consider_cases)
  case (add cur u)
  have inv: "rt_inv t" by (rule rt_after_inv [OF run])
  note S = pointRange_spec [OF add(5)]
  have "stateOf t' (entryKey e) = stateGood" by (simp add: add(6) stateOf_def)
  moreover have "map_of (entryByNetwork t') n =
      (if NetworkMin e \<le> n \<and> n \<le> NetworkMax e then Some (heapNext t, e) else map_of (entryByNetwork t) n)" for n
    using S(3) [of n] by (simp add: add(6))
  moreover have "\<not> keepsCurrent t c e" if "NetworkMin e \<le> n" "n \<le> NetworkMax e"
      "map_of (entryByNetwork t) n = Some (a, c)" for n a c
    using findCur_holds [OF inv S(1) _ that] findCur_ptr [OF S(1)] add(3,4) by simp
  ultimately show ?thesis
    by (auto simp: GetByNetwork_def keepsCurrent_def isBad_def not_less)
qed (use new in auto)

theorem Consider_accepts_witness:
  "\<exists>t'. Consider sample_table (learned 3 3 1 7) = Some (True, t') \<and>
     GetByNetwork t' 3 = Some ((2, learned 3 3 1 7), False)"
proof -
  obtain t' where c: "Consider sample_table (learned 3 3 1 7) = Some (True, t')"
    by (simp add: Consider_def Let_def findCur_def for_u16_eq nets_small pointRange_Some sample_table_def
        keepsCurrent_def stateOf_def alloc_def)
  have "map_of (stateByKey sample_table) (entryKey (learned 3 3 1 7)) = None" "heapNext sample_table = 2"
    by (simp_all add: sample_table_def)
  then have "GetByNetwork t' 3 = Some ((2, learned 3 3 1 7), False)"
    using conjunct1 [OF Consider_accepts [OF sample_after c], THEN spec, of 3] by simp
  then show ?thesis using c by blast
qed

text \<open>
  A refused route changes nothing that the table answers; and a route the table already
  knows only has its state set back to good, which restarts its ageing.
\<close>

theorem Consider_otherwise:
  assumes "Consider t e = Some (b, t')"
  shows "(\<not> b \<longrightarrow> GetByNetwork t' n = GetByNetwork t n \<and> Entries t' = Entries t \<and> zit t' = zit t) \<and>
         (map_of (stateByKey t) (entryKey e) \<noteq> None \<longrightarrow> b \<and> entryByNetwork t' = entryByNetwork t \<and>
            entryByKey t' = entryByKey t \<and>
            stateOf t' = (stateOf t)(entryKey e := stateGood))"
  using assms
  by (cases rule: Consider_cases)
     (auto simp: GetByNetwork_def Entries_def stateOf_def fun_eq_iff split: option.split)

theorem Consider_otherwise_witness:
  "\<exists>t'. Consider sample_table (learned 3 5 2 9) = Some (True, t') \<and> entryByKey t' = entryByKey sample_table"
proof -
  obtain t' where c: "Consider sample_table (learned 3 5 2 9) = Some (True, t')"
    by (simp add: Consider_def Let_def sample_table_def alloc_def)
  have "map_of (stateByKey sample_table) (entryKey (learned 3 5 2 9)) \<noteq> None"
    by (simp add: sample_table_def)
  then show ?thesis using Consider_otherwise [OF c] c by blast
qed

text \<open>
  Withdrawing a port withdraws exactly its routes: afterwards no network and no key leads
  through the port, and every other route keeps its entry, its key and its state.
\<close>

theorem RemoveEntriesForPort_exact:
  assumes run: "rt_after ops = Some t"
  shows "(\<forall>q \<in> ptrs (RemoveEntriesForPort t p). Port (snd q) \<noteq> p) \<and>
     (\<forall>n q. map_of (entryByNetwork t) n = Some q \<and> Port (snd q) \<noteq> p \<longrightarrow>
        map_of (entryByNetwork (RemoveEntriesForPort t p)) n = Some q) \<and>
     (\<forall>k q. map_of (entryByKey t) k = Some q \<and> Port (snd q) \<noteq> p \<longrightarrow>
        map_of (entryByKey (RemoveEntriesForPort t p)) k = Some q \<and>
        stateOf (RemoveEntriesForPort t p) k = stateOf t k)"
proof (intro conjI allI impI ballI)
  note R = RemoveEntriesForPort_net [OF rt_after_inv [OF run], of p]
    RemoveEntriesForPort_key [OF rt_after_inv [OF run], of p]
  show "Port (snd q) \<noteq> p" if "q \<in> ptrs (RemoveEntriesForPort t p)" for q
  proof -
    have "map_of (entryByNetwork (RemoveEntriesForPort t p)) n = Some q \<Longrightarrow> Port (snd q) \<noteq> p" for n
      by (cases "map_of (entryByNetwork t) n") (auto simp: R(1) split: if_splits)
    moreover have "map_of (entryByKey (RemoveEntriesForPort t p)) k = Some q \<Longrightarrow> Port (snd q) \<noteq> p" for k
      by (cases "map_of (entryByKey t) k") (auto simp: R(2) split: if_splits)
    ultimately show ?thesis using that by (auto simp: ptrs_def ran_def)
  qed
  show "map_of (entryByNetwork (RemoveEntriesForPort t p)) n = Some q"
    if "map_of (entryByNetwork t) n = Some q \<and> Port (snd q) \<noteq> p" for n q
    using that by (simp add: R(1))
  show "map_of (entryByKey (RemoveEntriesForPort t p)) k = Some q"
    "stateOf (RemoveEntriesForPort t p) k = stateOf t k"
    if "map_of (entryByKey t) k = Some q \<and> Port (snd q) \<noteq> p" for k q
    using that by (simp_all add: R(2,3) stateOf_def)
qed

theorem RemoveEntriesForPort_exact_witness: "ptrs (RemoveEntriesForPort sample_table lt0) = {}"
proof -
  have "\<forall>q \<in> ptrs (RemoveEntriesForPort sample_table lt0). Port (snd q) \<noteq> lt0"
    using RemoveEntriesForPort_exact [OF sample_after] by blast
  moreover have "\<forall>q \<in> ptrs (RemoveEntriesForPort sample_table lt0). Port (snd q) = lt0"
    by (simp add: sample_table_def RemoveEntriesForPort_def Let_def ptrs_def directEntry_def ran_def
        dropKey_def withdrawZones_def)
  ultimately show ?thesis by blast
qed

text \<open>
  C8. Setting the range of a port returns exactly when the range ends below 0xFFFF: the counter
  of the loop over the networks is a \<open>uint16\<close>, so with the largest end the call, which holds the
  table's lock, never returns. When it returns, the networks of the range are direct and good,
  and the port keeps no direct network outside the range.
\<close>

theorem SetPortRange_spec:
  assumes run: "rt_after ops = Some t"
  shows "case SetPortRange t p lo hi of
      None \<Rightarrow> hi = 0xFFFF
    | Some t' \<Rightarrow> hi \<noteq> 0xFFFF \<and>
        (\<forall>n. if lo \<le> n \<and> n \<le> hi
             then \<exists>a e. GetByNetwork t' n = Some ((a, e), False) \<and> Port e = p \<and> Distance e = 0 \<and>
                    NetworkMin e = lo \<and> NetworkMax e = hi
             else \<forall>a e. map_of (entryByNetwork t') n = Some (a, e) \<longrightarrow>
                    map_of (entryByNetwork t) n = Some (a, e) \<and> \<not> (Port e = p \<and> Distance e = 0))"
proof (cases "SetPortRange t p lo hi")
  case None
  then show ?thesis using SetPortRange_returns [of t p lo hi] by simp
next
  case (Some t')
  note N = SetPortRange_net [OF rt_after_inv [OF run] Some]
  have "\<exists>a e. GetByNetwork t' n = Some ((a, e), False) \<and> Port e = p \<and> Distance e = 0 \<and>
      NetworkMin e = lo \<and> NetworkMax e = hi" if "lo \<le> n" "n \<le> hi" for n
    using N [of n] that SetPortRange_state [OF Some] by (simp add: GetByNetwork_def stateOf_def isBad_def)
  moreover have "map_of (entryByNetwork t) n = Some (a, e) \<and> \<not> (Port e = p \<and> Distance e = 0)"
    if "\<not> (lo \<le> n \<and> n \<le> hi)" "map_of (entryByNetwork t') n = Some (a, e)" for n a e
    using N [of n] that by (auto split: option.splits if_splits)
  moreover have "hi \<noteq> 0xFFFF" using SetPortRange_returns [of t p lo hi] Some by simp
  ultimately show ?thesis using Some by auto
qed

theorem SetPortRange_spec_witness: "SetPortRange sample_table lt0 0xFF00 0xFFFF = None"
  using SetPortRange_spec [OF sample_after, where p = lt0 and lo = "0xFF00" and hi = "0xFFFF"] by (simp split: option.splits)

text \<open>
  A defect of \<open>Consider\<close>: a new route that takes over only part of the range of the entry it
  replaces drops that entry's key and state but leaves its other networks pointing at it. Such a
  network is answered as good for ever: no number of ageing ticks removes it or marks it bad, and
  the entry is no longer advertised.
\<close>

theorem Consider_strands_networks:
  assumes run: "rt_after ops = Some t" and acc: "Consider t e = Some (True, t')"
    and new: "map_of (stateByKey t) (entryKey e) = None"
    and taken: "map_of (entryByNetwork t) m = Some (a, c)" "NetworkMin e \<le> m" "m \<le> NetworkMax e"
    and rest: "map_of (entryByNetwork t) n = Some (a, c)" "\<not> (NetworkMin e \<le> n \<and> n \<le> NetworkMax e)"
  shows "GetByNetwork ((Age ^^ i) t') n = Some ((a, c), False) \<and>
    (a, c) \<notin> fst ` set (Entries ((Age ^^ i) t'))"
  using acc
proof (cases rule: Consider_cases)
  case (add cur u)
  have inv: "rt_inv t" and inv': "rt_inv t'"
    by (rule rt_after_inv [OF run], rule Consider_inv [OF rt_after_inv [OF run] acc])
  note S = pointRange_spec [OF add(5)]
  have cur: "cur = Some (a, c)"
    using findCur_holds [OF inv S(1) _ taken(2,3,1)] findCur_ptr [OF S(1)] add(3) by simp
  have "NetworkMin c \<le> n \<and> n \<le> NetworkMax c"
    using inv rest(1) unfolding rt_inv_def rt_nets_def by (metis snd_conv)
  then have key: "entryKey c \<noteq> entryKey e" using rest(2) by (auto simp: entryKey_eq_iff)
  have u: "stateByKey u = AList.delete (entryKey c) (stateByKey t)"
    "entryByKey u = AList.delete (entryKey c) (entryByKey t)"
    by (subst S(2), simp add: replaced_def cur)+
  have "map_of (entryByNetwork ((Age ^^ i) t')) n = Some (a, c) \<and>
      map_of (entryByKey ((Age ^^ i) t')) (entryKey c) = None \<and> stateOf ((Age ^^ i) t') (entryKey c) = 0"
  proof (induction i)
    case 0
    then show ?case using S(3) [of n] rest key by (simp add: add(6) u stateOf_def)
  qed (auto simp: Age_net Age_key Age_state Age_power_inv [OF inv'])
  moreover have "(a, c) \<notin> fst ` set (Entries ((Age ^^ i) t'))"
  proof
    assume "(a, c) \<in> fst ` set (Entries ((Age ^^ i) t'))"
    then obtain k where "(k, (a, c)) \<in> set (entryByKey ((Age ^^ i) t'))"
      by (auto simp: Entries_def)
    then have "map_of (entryByKey ((Age ^^ i) t')) k = Some (a, c)" "entryKey c = k"
      using Age_power_inv [OF inv', of i] unfolding rt_inv_def rt_wf_def rt_keys_def
      by (metis wf_gomap_mem_iff, metis wf_gomap_mem_iff snd_conv)
    then show False using calculation by simp
  qed
  ultimately show ?thesis by (simp add: GetByNetwork_def isBad_def)
qed (use new in auto)

theorem Consider_strands_networks_witness:
  "\<exists>t'. Consider sample_table (learned 3 3 1 7) = Some (True, t') \<and>
     GetByNetwork ((Age ^^ 1000) t') 4 = Some ((1, learned 3 5 2 9), False)"
proof -
  obtain t' where c: "Consider sample_table (learned 3 3 1 7) = Some (True, t')"
    by (simp add: Consider_def Let_def findCur_def for_u16_eq nets_small pointRange_Some sample_table_def
        keepsCurrent_def stateOf_def alloc_def)
  have h: "map_of (stateByKey sample_table) (entryKey (learned 3 3 1 7)) = None"
    "map_of (entryByNetwork sample_table) 3 = Some (1, learned 3 5 2 9)"
    "map_of (entryByNetwork sample_table) 4 = Some (1, learned 3 5 2 9)"
    by (simp_all add: sample_table_def)
  show ?thesis
    using Consider_strands_networks [OF sample_after c h(1,2) _ _ h(3), of 1000] c by simp
qed

end
