(* ===== verification/Router.thy ===== *)
theory Router
  imports Ddp Routing_Table
begin

text \<open>
  The router of \<^verbatim>\<open>router/router.go\<close> and \<^verbatim>\<open>router/dynamic.go\<close>: membership of ports and
  services, dispatch of received datagrams, forwarding and replies. Calls on ports and services
  are the effects a function returns, in the order in which the code makes them.
\<close>

section \<open>State\<close>

text \<open>What a port answers about itself: its address and its network range, 0 while unknown.\<close>

record PortState =
  portNetwork :: u16
  portNode :: u8
  portNetworkMin :: u16
  portNetworkMax :: u16

type_synonym port_env = "port \<Rightarrow> PortState"

text \<open>
  The dynamic type of a service, as far as the type switches of the router look at it; a service
  with a \<open>Socket()\<close> method other than the named ones is a \<open>SocketService\<close>.
\<close>

datatype service_kind = LlapService | AepService | NameInformationService | RoutingTableAgingService
  | RtmpRespondingService | RtmpSendingService | ZipRespondingService | ZipSendingService
  | SocketService u8

record service =
  svcId :: nat
  svcKind :: service_kind

datatype effect =
    Unicast port u16 u8 Datagram
  | Broadcast port Datagram
  | Multicast port bytes Datagram
  | ToService service Datagram port
  | Observe Datagram port

record Router =
  shortStr :: string
  Ports :: "port list"
  Services :: "service list"
  servicesBySAS :: "(u8, service) gomap"
  routingTable :: RoutingTable
  linkManager :: "(port, service) gomap"
  observed :: bool

text \<open>Well-known sockets of \<^verbatim>\<open>protocol/aep\<close>, \<^verbatim>\<open>protocol/nbp\<close>, \<^verbatim>\<open>protocol/rtmp\<close>, \<^verbatim>\<open>protocol/zip\<close>.\<close>

abbreviation aepSocket :: u8 where "aepSocket \<equiv> 4"
abbreviation nbpSocket :: u8 where "nbpSocket \<equiv> 2"
abbreviation rtmpSAS :: u8 where "rtmpSAS \<equiv> 1"
abbreviation zipSAS :: u8 where "zipSAS \<equiv> 6"

section \<open>Membership\<close>

definition registerServiceSocket :: "service \<Rightarrow> Router \<Rightarrow> Router" where
  "registerServiceSocket s r =
    (let reg = (\<lambda>sock. r\<lparr>servicesBySAS := AList.update sock s (servicesBySAS r)\<rparr>) in
     case svcKind s of
       AepService \<Rightarrow> reg aepSocket
     | NameInformationService \<Rightarrow> reg nbpSocket
     | SocketService sock \<Rightarrow> reg sock
     | RtmpRespondingService \<Rightarrow> reg rtmpSAS
     | ZipRespondingService \<Rightarrow> reg zipSAS
     | _ \<Rightarrow> r)"

definition unregisterServiceSocket :: "service \<Rightarrow> Router \<Rightarrow> Router" where
  "unregisterServiceSocket s r =
     r\<lparr>servicesBySAS := filter (\<lambda>(sock, svc). svc \<noteq> s) (servicesBySAS r)\<rparr>"

definition defaultServices :: "nat \<Rightarrow> service list" where
  "defaultServices fresh = map (\<lambda>(i, k). \<lparr>svcId = fresh + i, svcKind = k\<rparr>)
     (zip [0..<8] [LlapService, AepService, NameInformationService, RoutingTableAgingService,
        RtmpRespondingService, RtmpSendingService, ZipRespondingService, ZipSendingService])"

definition llapManager :: "Router \<Rightarrow> service option" where
  "llapManager r = List.find (\<lambda>s. svcKind s = LlapService) (Services r)"

text \<open>Binding the link manager; \<open>managed p\<close>: the port implements \<open>SetLLAPLinkManager\<close>.\<close>

definition bindPortLLAP :: "(port \<Rightarrow> bool) \<Rightarrow> port \<Rightarrow> Router \<Rightarrow> Router" where
  "bindPortLLAP managed p r =
    (case llapManager r of
       None \<Rightarrow> r
     | Some svc \<Rightarrow> if managed p then r\<lparr>linkManager := AList.update p svc (linkManager r)\<rparr> else r)"

definition bindLLAPManager :: "(port \<Rightarrow> bool) \<Rightarrow> Router \<Rightarrow> Router" where
  "bindLLAPManager managed r = fold (bindPortLLAP managed) (Ports r) r"

definition New :: "(port \<Rightarrow> bool) \<Rightarrow> nat \<Rightarrow> string \<Rightarrow> port list \<Rightarrow> service list option \<Rightarrow> Router" where
  "New managed fresh name ports services =
    (let svcs = (case services of None \<Rightarrow> defaultServices fresh | Some ss \<Rightarrow> ss);
         r = \<lparr>shortStr = name, Ports = ports, Services = svcs, servicesBySAS = [],
              routingTable = NewRoutingTable, linkManager = [], observed = False\<rparr>;
         r = bindLLAPManager managed r in
     fold registerServiceSocket svcs r)"

definition AddService :: "(service \<Rightarrow> 'e option) \<Rightarrow> service \<Rightarrow> Router \<Rightarrow> 'e option \<times> Router" where
  "AddService startErr s r =
    (case startErr s of
       Some e \<Rightarrow> (Some e, r)
     | None \<Rightarrow> (None, registerServiceSocket s (r\<lparr>Services := Services r @ [s]\<rparr>)))"

definition RemoveService :: "(service \<Rightarrow> 'e option) \<Rightarrow> service \<Rightarrow> Router \<Rightarrow> 'e option \<times> Router" where
  "RemoveService stopErr s r =
    (let r = unregisterServiceSocket s r in
     (stopErr s, r\<lparr>Services := remove1 s (Services r)\<rparr>))"

definition AddPort :: "(port \<Rightarrow> bool) \<Rightarrow> (port \<Rightarrow> 'e option) \<Rightarrow> port \<Rightarrow> Router \<Rightarrow> 'e option \<times> Router" where
  "AddPort managed startErr p r =
    (let r = bindPortLLAP managed p r in
     case startErr p of
       Some e \<Rightarrow> (Some e, r)
     | None \<Rightarrow> (None, r\<lparr>Ports := Ports r @ [p]\<rparr>))"

definition AttachStartedPort :: "(port \<Rightarrow> bool) \<Rightarrow> port \<Rightarrow> Router \<Rightarrow> Router" where
  "AttachStartedPort managed p r =
    (let r = bindPortLLAP managed p r in
     if p \<in> set (Ports r) then r else r\<lparr>Ports := Ports r @ [p]\<rparr>)"

definition HasPort :: "Router \<Rightarrow> port \<Rightarrow> bool" where
  "HasPort r p \<longleftrightarrow> p \<in> set (Ports r)"

definition DetachPort :: "port \<Rightarrow> Router \<Rightarrow> Router" where
  "DetachPort p r = r\<lparr>Ports := remove1 p (Ports r),
                      routingTable := RemoveEntriesForPort (routingTable r) p\<rparr>"

definition RemovePort :: "(port \<Rightarrow> 'e option) \<Rightarrow> port \<Rightarrow> Router \<Rightarrow> 'e option \<times> Router" where
  "RemovePort stopErr p r = (stopErr p, DetachPort p r)"

section \<open>Start and stop\<close>

datatype lifecycle = StartService service | StartPort port | StopService service | StopPort port

text \<open>Start in order until the first error; the calls made are the second component.\<close>

fun start_all :: "('a \<Rightarrow> 'e option) \<Rightarrow> ('a \<Rightarrow> lifecycle) \<Rightarrow> 'a list \<Rightarrow> 'e option \<times> lifecycle list" where
  "start_all err ev [] = (None, [])"
| "start_all err ev (x # xs) =
    (case err x of
       Some e \<Rightarrow> (Some e, [ev x])
     | None \<Rightarrow> (let (res, evs) = start_all err ev xs in (res, ev x # evs)))"

definition startLLAPServices :: "(service \<Rightarrow> 'e option) \<Rightarrow> Router \<Rightarrow> 'e option \<times> lifecycle list" where
  "startLLAPServices err r = start_all err StartService (filter (\<lambda>s. svcKind s = LlapService) (Services r))"

definition startNonLLAPServices :: "(service \<Rightarrow> 'e option) \<Rightarrow> Router \<Rightarrow> 'e option \<times> lifecycle list" where
  "startNonLLAPServices err r = start_all err StartService (filter (\<lambda>s. svcKind s \<noteq> LlapService) (Services r))"

definition Start :: "(service \<Rightarrow> 'e option) \<Rightarrow> (port \<Rightarrow> 'e option) \<Rightarrow> Router \<Rightarrow> 'e option \<times> lifecycle list" where
  "Start svcErr portErr r =
    (case startLLAPServices svcErr r of
       (Some e, evs) \<Rightarrow> (Some e, evs)
     | (None, evs1) \<Rightarrow>
         (case start_all portErr StartPort (Ports r) of
            (Some e, evs) \<Rightarrow> (Some e, evs1 @ evs)
          | (None, evs2) \<Rightarrow>
              (case startNonLLAPServices svcErr r of (res, evs3) \<Rightarrow> (res, evs1 @ evs2 @ evs3))))"

definition StartServices ::
    "(port \<Rightarrow> bool) \<Rightarrow> (service \<Rightarrow> 'e option) \<Rightarrow> Router \<Rightarrow> 'e option \<times> lifecycle list \<times> Router" where
  "StartServices managed svcErr r =
    (case startLLAPServices svcErr r of
       (Some e, evs) \<Rightarrow> (Some e, evs, r)
     | (None, evs1) \<Rightarrow>
         (let r = fold (bindPortLLAP managed) (Ports r) r in
          case startNonLLAPServices svcErr r of (res, evs2) \<Rightarrow> (res, evs1 @ evs2, r)))"

definition stopServices :: "(service \<Rightarrow> 'e option) \<Rightarrow> Router \<Rightarrow> 'e list \<times> lifecycle list" where
  "stopServices err r = (List.map_filter err (Services r), map StopService (Services r))"

definition Stop :: "(service \<Rightarrow> 'e option) \<Rightarrow> (port \<Rightarrow> 'e option) \<Rightarrow> Router \<Rightarrow> 'e list \<times> lifecycle list" where
  "Stop svcErr portErr r =
    (let (errs, evs) = stopServices svcErr r in
     (errs @ List.map_filter portErr (Ports r), evs @ map StopPort (Ports r)))"

section \<open>Datagrams\<close>

definition deliver :: "Router \<Rightarrow> Datagram \<Rightarrow> port \<Rightarrow> effect list" where
  "deliver r d rxPort =
    (case map_of (servicesBySAS r) (DestinationSocket d) of
       Some svc \<Rightarrow> [ToService svc d rxPort]
     | None \<Rightarrow> [])"

datatype route_error = HopCountNotZero | NoDestinationNetwork

definition Route :: "port_env \<Rightarrow> Router \<Rightarrow> Datagram \<Rightarrow> bool \<Rightarrow> route_error + effect list" where
  "Route env r d originating =
    (if originating \<and> HopCount d \<noteq> 0 then Inl HopCountNotZero
     else if originating \<and> DestinationNetwork d = 0 then Inl NoDestinationNetwork
     else if DestinationNetwork d = 0 \<or> HopCount d \<ge> 15 then Inr []
     else case GetByNetwork (routingTable r) (DestinationNetwork d) of
       None \<Rightarrow> Inr []
     | Some ((_, entry), _) \<Rightarrow>
         let p = Port entry in
         if originating \<and> (portNetwork (env p) = 0 \<or> portNode (env p) = 0) then Inr []
         else if \<not> originating \<and> (SourceNode d = 0 \<or> SourceNode d = 0xFF) then Inr []
         else
           let d = (if originating
                    then (let d = (if SourceNetwork d = 0 then d\<lparr>SourceNetwork := portNetwork (env p)\<rparr> else d) in
                          if SourceNode d = 0 then d\<lparr>SourceNode := portNode (env p)\<rparr> else d)
                    else Hop d) in
           Inr (if Distance entry \<noteq> 0 then [Unicast p (NextNetwork entry) (NextNode entry) d]
                else if DestinationNode d = 0 then []
                else if DestinationNetwork d = portNetwork (env p) \<and> DestinationNode d = portNode (env p) then []
                else if DestinationNode d = 0xFF then [Broadcast p d]
                else [Unicast p (DestinationNetwork d) (DestinationNode d) d]))"

text \<open>\<open>_ = r.Route(...)\<close>: the error is dropped.\<close>

definition routed :: "route_error + effect list \<Rightarrow> effect list" where
  "routed res = (case res of Inl _ \<Rightarrow> [] | Inr es \<Rightarrow> es)"

text \<open>The first step of \<open>Inbound\<close>: a zero network number means the network of the port.\<close>

definition fillNetworks :: "PortState \<Rightarrow> Datagram \<Rightarrow> Datagram" where
  "fillNetworks ps d =
    (if portNetwork ps \<noteq> 0 then
       if DestinationNetwork d = 0 \<and> SourceNetwork d = 0
       then d\<lparr>DestinationNetwork := portNetwork ps, SourceNetwork := portNetwork ps\<rparr>
       else if DestinationNetwork d = 0 then d\<lparr>DestinationNetwork := portNetwork ps\<rparr>
       else if SourceNetwork d = 0 then d\<lparr>SourceNetwork := portNetwork ps\<rparr>
       else d
     else d)"

definition Inbound :: "port_env \<Rightarrow> Router \<Rightarrow> Datagram \<Rightarrow> port \<Rightarrow> effect list" where
  "Inbound env r d0 rxPort =
    (let d = fillNetworks (env rxPort) d0;
         obs = (if observed r then [Observe d rxPort] else []) in
     if DestinationNetwork d = 0 \<or> DestinationNetwork d = portNetwork (env rxPort) then
       obs @ (if DestinationNode d = 0 \<or> DestinationNode d = portNode (env rxPort) \<or> DestinationNode d = 0xFF
              then deliver r d rxPort else [])
     else
       let forward = routed (Route env r d False) in
       case GetByNetwork (routingTable r) (DestinationNetwork d) of
         None \<Rightarrow> obs @ forward
       | Some ((_, entry), _) \<Rightarrow>
           if Distance entry \<noteq> 0 then obs @ forward
           else if DestinationNetwork d = portNetwork (env (Port entry)) \<and>
                   DestinationNode d = portNode (env (Port entry)) then obs @ deliver r d rxPort
           else if DestinationNode d = 0 then obs @ deliver r d rxPort
           else if DestinationNode d = 0xFF then obs @ deliver r d rxPort @ forward
           else obs @ forward)"

definition Reply :: "port_env \<Rightarrow> Router \<Rightarrow> Datagram \<Rightarrow> port \<Rightarrow> u8 \<Rightarrow> bytes \<Rightarrow> effect list" where
  "Reply env r d rxPort ddpType data =
    (let ps = env rxPort in
     if SourceNode d = 0 \<or> SourceNode d = 0xFF then []
     else if portNode ps \<noteq> 0 \<and>
        (SourceNetwork d = 0 \<or> (SourceNetwork d \<ge> 0xFF00 \<and> SourceNetwork d \<le> 0xFFFE) \<or>
         SourceNetwork d < portNetworkMin ps \<or> SourceNetwork d > portNetworkMax ps)
     then [Broadcast rxPort \<lparr>HopCount = 0, DestinationNetwork = 0, SourceNetwork = portNetwork ps,
             DestinationNode = 0xFF, SourceNode = portNode ps, DestinationSocket = SourceSocket d,
             SourceSocket = DestinationSocket d, DDPType = ddpType, Data = data\<rparr>]
     else routed (Route env r \<lparr>HopCount = 0, DestinationNetwork = SourceNetwork d,
             SourceNetwork = DestinationNetwork d, DestinationNode = SourceNode d,
             SourceNode = DestinationNode d, DestinationSocket = SourceSocket d,
             SourceSocket = DestinationSocket d, DDPType = ddpType, Data = data\<rparr> True))"

definition SetObserver :: "bool \<Rightarrow> Router \<Rightarrow> Router" where
  "SetObserver installed r = r\<lparr>observed := installed\<rparr>"

section \<open>The router's view of its tables\<close>

definition PortsList :: "Router \<Rightarrow> port list" where
  "PortsList r = Ports r"

definition RTMPSnapshot :: "Router \<Rightarrow> (entry_ptr \<times> string) list" where
  "RTMPSnapshot r = Snapshot (routingTable r)"

definition RoutingTableAge :: "Router \<Rightarrow> Router" where
  "RoutingTableAge r = r\<lparr>routingTable := Age (routingTable r)\<rparr>"

definition RoutingGetByNetwork :: "Router \<Rightarrow> u16 \<Rightarrow> (RoutingTableEntry \<times> bool) option" where
  "RoutingGetByNetwork r network = map_option (\<lambda>((_, e), bad). (e, bad)) (GetByNetwork (routingTable r) network)"

definition RoutingEntries :: "Router \<Rightarrow> (RoutingTableEntry \<times> bool) list" where
  "RoutingEntries r = map (\<lambda>((_, e), bad). (e, bad)) (Entries (routingTable r))"

definition RoutingConsider :: "Router \<Rightarrow> RoutingTableEntry \<Rightarrow> (bool \<times> Router) option" where
  "RoutingConsider r e = map_option (\<lambda>(b, t). (b, r\<lparr>routingTable := t\<rparr>)) (Consider (routingTable r) e)"

definition RoutingMarkBad :: "Router \<Rightarrow> u16 \<Rightarrow> u16 \<Rightarrow> (bool \<times> Router) option" where
  "RoutingMarkBad r lo hi = map_option (\<lambda>(b, t). (b, r\<lparr>routingTable := t\<rparr>)) (MarkBad (routingTable r) lo hi)"

definition RoutingSetPortRange :: "Router \<Rightarrow> port \<Rightarrow> u16 \<Rightarrow> u16 \<Rightarrow> Router option" where
  "RoutingSetPortRange r p lo hi = map_option (\<lambda>t. r\<lparr>routingTable := t\<rparr>) (SetPortRange (routingTable r) p lo hi)"

definition RouterAddNetworksToZone ::
    "Router \<Rightarrow> bytes \<Rightarrow> u16 \<Rightarrow> u16 option \<Rightarrow> zit_error option \<times> Router" where
  "RouterAddNetworksToZone r zn lo hi =
    (let (e, z) = AddNetworksToZone (zit (routingTable r)) zn lo hi in
     (e, r\<lparr>routingTable := (routingTable r)\<lparr>zit := z\<rparr>\<rparr>))"

definition RouterZonesInNetworkRange :: "Router \<Rightarrow> u16 \<Rightarrow> u16 option \<Rightarrow> zit_error + bytes list" where
  "RouterZonesInNetworkRange r lo hi = ZonesInNetworkRange (zit (routingTable r)) lo hi"

definition RouterNetworksInZone :: "Router \<Rightarrow> bytes \<Rightarrow> u16 list option" where
  "RouterNetworksInZone r zn = NetworksInZone (zit (routingTable r)) zn"

definition RouterZones :: "Router \<Rightarrow> bytes list" where
  "RouterZones r = Zones (zit (routingTable r))"

section \<open>Forwarding\<close>

fun carried :: "effect \<Rightarrow> (port \<times> Datagram) option" where
  "carried (Unicast p net node d) = Some (p, d)"
| "carried (Broadcast p d) = Some (p, d)"
| "carried (Multicast p zone d) = Some (p, d)"
| "carried (ToService s d p) = None"
| "carried (Observe d p) = None"

text \<open>What leaves the router through a port, as a set of ports and datagrams.\<close>

definition sent :: "effect list \<Rightarrow> (port \<times> Datagram) set" where
  "sent es = {x. \<exists>e \<in> set es. carried e = Some x}"

lemma sent_simps [simp]:
  "sent [] = {}" "sent (e # es) = (case carried e of None \<Rightarrow> sent es | Some x \<Rightarrow> insert x (sent es))"
  "sent (es @ fs) = sent es \<union> sent fs"
  by (auto simp: sent_def split: option.splits)

lemma sent_deliver [simp]: "sent (deliver r d p) = {}"
  by (simp add: deliver_def split: option.split)

lemma routed_simps [simp]: "routed (Inl e) = []" "routed (Inr es) = es"
  by (simp_all add: routed_def)

lemma sent_Route:
  assumes "(p, d') \<in> sent (routed (Route env r d originating))"
  obtains a e bad where "GetByNetwork (routingTable r) (DestinationNetwork d) = Some ((a, e), bad)" "p = Port e"
    "HopCount d < 15" "HopCount d' = (if originating then 0 else HopCount d + 1)"
    "DestinationNetwork d' = DestinationNetwork d" "DestinationNode d' = DestinationNode d"
    "DestinationSocket d' = DestinationSocket d" "SourceSocket d' = SourceSocket d" "DDPType d' = DDPType d"
    "Data d' = Data d" "originating \<or> SourceNetwork d' = SourceNetwork d \<and> SourceNode d' = SourceNode d"
  using assms
  by (auto simp: Route_def Hop_def Let_def not_le split: if_splits option.splits)

lemma sent_Inbound:
  assumes "(p, d') \<in> sent (Inbound env r d rx)"
  shows "(p, d') \<in> sent (routed (Route env r (fillNetworks (env rx) d) False))"
  using assms by (auto simp: Inbound_def Let_def split: if_splits option.splits)

lemma fillNetworks_fields [simp]:
  "HopCount (fillNetworks ps d) = HopCount d" "DestinationNode (fillNetworks ps d) = DestinationNode d"
  "SourceNode (fillNetworks ps d) = SourceNode d" "DestinationSocket (fillNetworks ps d) = DestinationSocket d"
  "SourceSocket (fillNetworks ps d) = SourceSocket d" "DDPType (fillNetworks ps d) = DDPType d"
  "Data (fillNetworks ps d) = Data d"
  by (simp_all add: fillNetworks_def)

section \<open>Properties\<close>



definition sample_router :: Router where
  "sample_router = \<lparr>shortStr = ''r'', Ports = [lt0], Services = [], servicesBySAS = [],
     routingTable = sample_table, linkManager = [], observed = False\<rparr>"

definition other_port :: port where
  "other_port = \<lparr>portId = 2, ShortString = ''et0'', isExtended = True\<rparr>"

definition sample_env :: port_env where
  "sample_env p = (if p = lt0 then \<lparr>portNetwork = 1, portNode = 200, portNetworkMin = 1, portNetworkMax = 1\<rparr>
     else \<lparr>portNetwork = 20, portNode = 201, portNetworkMin = 20, portNetworkMax = 29\<rparr>)"

lemma other_not_lt0 [simp]: "other_port \<noteq> lt0" "lt0 \<noteq> other_port"
  by (simp_all add: other_port_def lt0_def)

lemma sample_forward:
  "\<exists>d'. (lt0, d') \<in> sent (Inbound sample_env sample_router (sample_datagram\<lparr>DestinationNetwork := 4\<rparr>) other_port)"
  by (simp add: Inbound_def Route_def fillNetworks_def sample_env_def sample_router_def sample_table_def
      GetByNetwork_def Let_def sample_datagram_def)


text \<open>One forwarding step between routers: some router receives \<open>d\<close> and sends \<open>d'\<close> on.\<close>

definition forwards :: "Datagram \<Rightarrow> Datagram \<Rightarrow> bool" where
  "forwards d d' \<longleftrightarrow> (\<exists>env r rx p. (p, d') \<in> sent (Inbound env r d rx))"

lemma forwards_hop: "forwards d d' \<Longrightarrow> unat (HopCount d') = Suc (unat (HopCount d)) \<and> unat (HopCount d') \<le> 15"
proof -
  assume "forwards d d'"
  then obtain env r rx p where "(p, d') \<in> sent (Inbound env r d rx)" by (auto simp: forwards_def)
  from sent_Inbound [OF this] have "HopCount d < 15" "HopCount d' = HopCount d + 1"
    by (auto elim: sent_Route)
  then show ?thesis by (simp add: unat_word_ariths word_less_nat_alt)
qed

text \<open>
  C11. No datagram circulates: along any chain of routers, whatever their tables hold, a datagram
  is forwarded at most 15 times.
\<close>

theorem forwarding_terminates: "(forwards ^^ n) d d' \<Longrightarrow> n \<le> 15"
proof -
  assume "(forwards ^^ n) d d'"
  then have "unat (HopCount d') = unat (HopCount d) + n \<and> (n = 0 \<or> unat (HopCount d') \<le> 15)"
  proof (induction n arbitrary: d')
    case (Suc n)
    then obtain m where "(forwards ^^ n) d m" "forwards m d'" by auto
    with Suc.IH [of m] forwards_hop [of m d'] show ?case by linarith
  qed simp
  then show "n \<le> 15" by auto
qed

theorem forwarding_terminates_witness:
  "\<exists>d'. (forwards ^^ 1) (sample_datagram\<lparr>DestinationNetwork := 4\<rparr>) d' \<and> (1 :: nat) \<le> 15"
proof -
  obtain d' where "forwards (sample_datagram\<lparr>DestinationNetwork := 4\<rparr>) d'"
    using sample_forward unfolding forwards_def by blast
  then have "(forwards ^^ 1) (sample_datagram\<lparr>DestinationNetwork := 4\<rparr>) d'" by (simp add: eq_OO)
  with forwarding_terminates [OF this] show ?thesis by blast
qed

text \<open>
  Local delivery: a received datagram is handed to a service exactly when it is addressed to
  the router, by the address of the receiving port, by the address of another direct port, or by
  a router or broadcast address on a direct network, and the service owns its socket. Only a
  broadcast is both delivered and forwarded.
\<close>

definition addressedToRouter :: "port_env \<Rightarrow> Router \<Rightarrow> port \<Rightarrow> Datagram \<Rightarrow> bool" where
  "addressedToRouter env r rx d \<longleftrightarrow>
     (if DestinationNetwork d = 0 \<or> DestinationNetwork d = portNetwork (env rx)
      then DestinationNode d \<in> {0, portNode (env rx), 0xFF}
      else \<exists>a e bad. GetByNetwork (routingTable r) (DestinationNetwork d) = Some ((a, e), bad) \<and> Distance e = 0 \<and>
             (DestinationNode d \<in> {0, 0xFF} \<or>
              DestinationNetwork d = portNetwork (env (Port e)) \<and> DestinationNode d = portNode (env (Port e))))"

lemma deliver_to: "ToService s d' p \<in> set (deliver r d rx) \<longleftrightarrow>
    map_of (servicesBySAS r) (DestinationSocket d) = Some s \<and> d' = d \<and> p = rx"
  by (auto simp: deliver_def split: option.splits)

lemma Route_not_service: "ToService s d' p \<notin> set (routed (Route env r d originating))"
  by (auto simp: Route_def Let_def split: option.splits if_splits)


theorem Inbound_delivers:
  "(ToService s d' p \<in> set (Inbound env r d rx) \<longleftrightarrow>
      p = rx \<and> d' = fillNetworks (env rx) d \<and> addressedToRouter env r rx d' \<and>
      map_of (servicesBySAS r) (DestinationSocket d) = Some s) \<and>
   (ToService s d' p \<in> set (Inbound env r d rx) \<and> sent (Inbound env r d rx) \<noteq> {} \<longrightarrow> DestinationNode d = 0xFF)"
proof (intro conjI impI)
  let ?d = "fillNetworks (env rx) d"
  have obs: "ToService s d' p \<notin> set (if observed r then [Observe ?d rx] else [])" by simp
  show "ToService s d' p \<in> set (Inbound env r d rx) \<longleftrightarrow>
      p = rx \<and> d' = ?d \<and> addressedToRouter env r rx d' \<and>
      map_of (servicesBySAS r) (DestinationSocket d) = Some s"
    by (cases "GetByNetwork (routingTable r) (DestinationNetwork ?d)")
       (auto simp: Inbound_def Let_def deliver_to Route_not_service addressedToRouter_def split: if_splits)
  show "DestinationNode d = 0xFF"
    if "ToService s d' p \<in> set (Inbound env r d rx) \<and> sent (Inbound env r d rx) \<noteq> {}"
    using that by (cases "GetByNetwork (routingTable r) (DestinationNetwork ?d)")
       (auto simp: Inbound_def Let_def deliver_to Route_not_service split: if_splits)
qed

definition sample_service :: service where
  "sample_service = \<lparr>svcId = 1, svcKind = AepService\<rparr>"

theorem Inbound_delivers_witness:
  "ToService sample_service (sample_datagram\<lparr>DestinationNetwork := 1, DestinationNode := 200\<rparr>) lt0 \<in>
     set (Inbound sample_env (sample_router\<lparr>servicesBySAS := [(4, sample_service)]\<rparr>)
       (sample_datagram\<lparr>DestinationNetwork := 1, DestinationNode := 200\<rparr>) lt0)"
  unfolding conjunct1 [OF Inbound_delivers]
  by (simp add: fillNetworks_def sample_env_def sample_datagram_def addressedToRouter_def)

text \<open>
  Detaching a port stops traffic to it: afterwards neither a received nor an originated
  datagram is ever sent out on the port, and the router does not list it (when it was listed once).
\<close>

theorem DetachPort_silences:
  assumes run: "rt_after ops = Some (routingTable r)" and once: "distinct (Ports r)"
  shows "\<not> HasPort (DetachPort p r) p \<and>
    (\<forall>q d'. (q, d') \<in> sent (Inbound env (DetachPort p r) d rx) \<union> sent (routed (Route env (DetachPort p r) d originating))
       \<longrightarrow> q \<noteq> p)"
proof (intro conjI allI impI)
  show "\<not> HasPort (DetachPort p r) p" using once by (simp add: HasPort_def DetachPort_def)
  have port: "Port e \<noteq> p" if "GetByNetwork (routingTable (DetachPort p r)) n = Some ((a, e), bad)" for n a e bad
    using that RemoveEntriesForPort_net [OF rt_after_inv [OF run], of p n]
    by (auto simp: GetByNetwork_def DetachPort_def split: option.splits if_splits)
  fix q d'
  assume "(q, d') \<in> sent (Inbound env (DetachPort p r) d rx) \<union> sent (routed (Route env (DetachPort p r) d originating))"
  then have "(q, d') \<in> sent (routed (Route env (DetachPort p r) (fillNetworks (env rx) d) False)) \<or>
      (q, d') \<in> sent (routed (Route env (DetachPort p r) d originating))"
    using sent_Inbound by blast
  then show "q \<noteq> p"
  proof
    assume "(q, d') \<in> sent (routed (Route env (DetachPort p r) (fillNetworks (env rx) d) False))"
    then show ?thesis by (rule sent_Route) (use port in blast)
  next
    assume "(q, d') \<in> sent (routed (Route env (DetachPort p r) d originating))"
    then show ?thesis by (rule sent_Route) (use port in blast)
  qed
qed

theorem DetachPort_silences_witness:
  "\<not> HasPort (DetachPort lt0 sample_router) lt0 \<and>
   lt0 \<notin> fst ` sent (Inbound sample_env (DetachPort lt0 sample_router)
      (sample_datagram\<lparr>DestinationNetwork := 4\<rparr>) other_port)"
proof -
  have "rt_after sample_routes = Some (routingTable sample_router)" "distinct (Ports sample_router)"
    using sample_after by (simp_all add: sample_router_def)
  from DetachPort_silences [OF this, of lt0 sample_env] show ?thesis by (fastforce simp: image_iff)
qed

text \<open>
  Replies go back where the request came from: at most one datagram, with the sockets
  exchanged and the given payload, to the requester's address or, when the requester has no
  address on the port's network, as a broadcast on the port the request came in on.
\<close>

theorem Reply_addressed:
  "length (Reply env r d rx ddpType payload) \<le> 1 \<and>
   (\<forall>(p, d') \<in> sent (Reply env r d rx ddpType payload).
      HopCount d' = 0 \<and> DDPType d' = ddpType \<and> Data d' = payload \<and>
      DestinationSocket d' = SourceSocket d \<and> SourceSocket d' = DestinationSocket d \<and>
      (DestinationNetwork d' = SourceNetwork d \<and> DestinationNode d' = SourceNode d \<or>
       p = rx \<and> DestinationNetwork d' = 0 \<and> DestinationNode d' = 0xFF \<and> SourceNode d' = portNode (env rx)))"
proof -
  have one: "length (routed (Route env r x originating)) \<le> 1" for x originating
    by (simp add: Route_def Let_def routed_def split: option.split)
  show ?thesis
    using one by (auto simp: Reply_def Let_def elim!: sent_Route)
qed


theorem Reply_addressed_witness:
  "\<exists>d'. (lt0, d') \<in> sent (Reply sample_env sample_router sample_datagram lt0 4 [2]) \<and> DestinationSocket d' = 128"
proof -
  obtain d' where "(lt0, d') \<in> sent (Reply sample_env sample_router sample_datagram lt0 4 [2])"
    by (simp add: Reply_def sample_env_def sample_datagram_def Let_def)
  moreover from bspec [OF conjunct2 [OF Reply_addressed] this] have "DestinationSocket d' = 128"
    by (auto simp: sample_datagram_def)
  ultimately show ?thesis by blast
qed

section \<open>Membership over time\<close>

definition router_inv :: "Router \<Rightarrow> bool" where
  "router_inv r \<longleftrightarrow> rt_inv (routingTable r) \<and> wf_gomap (servicesBySAS r) \<and>
     (\<forall>sock s. map_of (servicesBySAS r) sock = Some s \<longrightarrow> s \<in> set (Services r)) \<and>
     (\<forall>p s. map_of (linkManager r) p = Some s \<longrightarrow> svcKind s = LlapService)"

datatype router_op = OpAddService service bool | OpRemoveService service | OpAddPort port bool
  | OpAttachPort port | OpDetachPort port | OpAge | OpConsider RoutingTableEntry | OpMarkBad u16 u16
  | OpSetPortRange port u16 u16 | OpAddZone bytes u16 "u16 option"

text \<open>
  One call on the router; the flag of \<open>OpAddService\<close> and \<open>OpAddPort\<close> says whether the member
  starts. A call that does not return ends the run.
\<close>

fun router_step :: "(port \<Rightarrow> bool) \<Rightarrow> router_op \<Rightarrow> Router \<Rightarrow> Router option" where
  "router_step m (OpAddService s ok) r = Some (snd (AddService (\<lambda>_. if ok then None else Some ()) s r))"
| "router_step m (OpRemoveService s) r = Some (snd (RemoveService (\<lambda>_. None :: unit option) s r))"
| "router_step m (OpAddPort p ok) r = Some (snd (AddPort m (\<lambda>_. if ok then None else Some ()) p r))"
| "router_step m (OpAttachPort p) r = Some (AttachStartedPort m p r)"
| "router_step m (OpDetachPort p) r = Some (DetachPort p r)"
| "router_step m OpAge r = Some (RoutingTableAge r)"
| "router_step m (OpConsider e) r = map_option snd (RoutingConsider r e)"
| "router_step m (OpMarkBad lo hi) r = map_option snd (RoutingMarkBad r lo hi)"
| "router_step m (OpSetPortRange p lo hi) r = RoutingSetPortRange r p lo hi"
| "router_step m (OpAddZone zn lo hi) r = Some (snd (RouterAddNetworksToZone r zn lo hi))"

definition router_perform :: "(port \<Rightarrow> bool) \<Rightarrow> router_op \<Rightarrow> Router option \<Rightarrow> Router option" where
  "router_perform m op s = Option.bind s (router_step m op)"

lemma router_inv_table: "router_inv r \<Longrightarrow> rt_inv t \<Longrightarrow> router_inv (r\<lparr>routingTable := t\<rparr>)"
  by (simp add: router_inv_def)

lemma registerServiceSocket_inv:
  "router_inv r \<Longrightarrow> s \<in> set (Services r) \<Longrightarrow> router_inv (registerServiceSocket s r)"
  by (auto simp: registerServiceSocket_def router_inv_def Let_def split: service_kind.split)

lemma registerServiceSocket_fields [simp]:
  "Services (registerServiceSocket s r) = Services r" "Ports (registerServiceSocket s r) = Ports r"
  "routingTable (registerServiceSocket s r) = routingTable r"
  by (simp_all add: registerServiceSocket_def Let_def split: service_kind.split)

lemma bindPortLLAP_inv: "router_inv r \<Longrightarrow> router_inv (bindPortLLAP m p r)"
  by (auto simp: bindPortLLAP_def router_inv_def llapManager_def find_Some_iff split: option.splits if_splits)

lemma bindPortLLAP_fields [simp]:
  "Services (bindPortLLAP m p r) = Services r" "Ports (bindPortLLAP m p r) = Ports r"
  "routingTable (bindPortLLAP m p r) = routingTable r" "servicesBySAS (bindPortLLAP m p r) = servicesBySAS r"
  by (simp_all add: bindPortLLAP_def split: option.split)

lemma router_inv_New: "router_inv (New m fresh name ports services)"
proof -
  have reg: "router_inv (fold registerServiceSocket ss r)"
    if "router_inv r" "set ss \<subseteq> set (Services r)" for ss r
    using that by (induction ss arbitrary: r) (simp_all add: registerServiceSocket_inv)
  have bind: "router_inv (fold (bindPortLLAP m) ps r) \<and> Services (fold (bindPortLLAP m) ps r) = Services r"
    if "router_inv r" for ps r
    using that by (induction ps arbitrary: r) (simp_all add: bindPortLLAP_inv)
  let ?svcs = "case services of None \<Rightarrow> defaultServices fresh | Some ss \<Rightarrow> ss"
  let ?r = "\<lparr>shortStr = name, Ports = ports, Services = ?svcs, servicesBySAS = [],
    routingTable = NewRoutingTable, linkManager = [], observed = False\<rparr>"
  have "router_inv ?r" by (simp add: router_inv_def rt_inv_New)
  from bind [OF this, of ports] show ?thesis
    by (auto simp: New_def Let_def bindLLAPManager_def intro!: reg)
qed

lemma RemoveService_inv: "router_inv r \<Longrightarrow> router_inv (snd (RemoveService err s r))"
  by (auto simp: RemoveService_def unregisterServiceSocket_def router_inv_def Let_def map_of_filter_bindings
      split: option.splits if_splits)

lemma RouterAddNetworksToZone_inv:
  assumes "router_inv r" shows "router_inv (snd (RouterAddNetworksToZone r zn lo hi))"
proof -
  have "rt_inv (routingTable r)" "zit_inv (zit (routingTable r))"
    using assms by (simp_all add: router_inv_def rt_inv_def)
  then show ?thesis
    using assms by (simp add: RouterAddNetworksToZone_def case_prod_unfold Let_def router_inv_table
        zit_update_inv zit.add_invar_snd)
qed

lemma router_step_inv: "router_inv r \<Longrightarrow> router_step m op r = Some r' \<Longrightarrow> router_inv r'"
proof (cases op)
  case (OpAddService s ok)
  have "router_inv r \<Longrightarrow> router_inv (registerServiceSocket s (r\<lparr>Services := Services r @ [s]\<rparr>))"
    by (rule registerServiceSocket_inv) (auto simp: router_inv_def)
  then show "router_inv r \<Longrightarrow> router_step m op r = Some r' \<Longrightarrow> router_inv r'"
    using OpAddService by (auto simp: AddService_def)
next
  case (OpRemoveService s)
  then show "router_inv r \<Longrightarrow> router_step m op r = Some r' \<Longrightarrow> router_inv r'"
    by (auto intro: RemoveService_inv)
next
  case (OpAddPort p ok)
  then show "router_inv r \<Longrightarrow> router_step m op r = Some r' \<Longrightarrow> router_inv r'"
    using bindPortLLAP_inv [of r m p] by (cases ok) (auto simp: AddPort_def Let_def router_inv_def)
next
  case (OpAttachPort p)
  then show "router_inv r \<Longrightarrow> router_step m op r = Some r' \<Longrightarrow> router_inv r'"
    using bindPortLLAP_inv [of r m p] by (auto simp: AttachStartedPort_def Let_def router_inv_def split: if_splits)
next
  case (OpDetachPort p)
  then show "router_inv r \<Longrightarrow> router_step m op r = Some r' \<Longrightarrow> router_inv r'"
    by (auto simp: DetachPort_def router_inv_def RemoveEntriesForPort_inv)
next
  case (OpAddZone zn lo hi)
  then show "router_inv r \<Longrightarrow> router_step m op r = Some r' \<Longrightarrow> router_inv r'"
    by (auto intro: RouterAddNetworksToZone_inv)
qed (auto simp: RoutingTableAge_def RoutingConsider_def RoutingMarkBad_def RoutingSetPortRange_def router_inv_def
      intro: Age_inv Consider_inv MarkBad_inv SetPortRange_inv)

text \<open>A component for every construction of the router and every choice of ports with link managers.\<close>

interpretation router_runs: guarded_component
  "Some (New m fresh name ports services)" "router_perform m" "pred_option router_inv"
  for m fresh name ports services
proof
  show "pred_option router_inv (Some (New m fresh name ports services))" by (simp add: router_inv_New)
  show "pred_option router_inv s \<Longrightarrow> pred_option router_inv (router_perform m op s)" for s op
    by (cases s) (auto simp: router_perform_def pred_option_def router_step_inv)
qed


section \<open>Start-up order\<close>

definition startPlan :: "Router \<Rightarrow> lifecycle list" where
  "startPlan r = map StartService (filter (\<lambda>s. svcKind s = LlapService) (Services r)) @
     map StartPort (Ports r) @ map StartService (filter (\<lambda>s. svcKind s \<noteq> LlapService) (Services r))"

lemma start_all_plan:
  "start_all err ev xs = (res, evs) \<Longrightarrow>
     (res = None \<longleftrightarrow> (\<forall>x \<in> set xs. err x = None)) \<and> (\<exists>zs. map ev xs = evs @ zs \<and> (res = None \<longrightarrow> zs = []))"
proof (induction xs arbitrary: res evs)
  case (Cons x xs)
  show ?case
  proof (cases "err x")
    case None
    obtain res' evs' where r: "start_all err ev xs = (res', evs')" by (cases "start_all err ev xs")
    with Cons.IH [OF r] Cons.prems None show ?thesis by auto
  qed (use Cons.prems in auto)
qed simp

text \<open>
  Start-up follows one plan, LLAP services, then ports, then the other services, and stops at
  the first failure: the calls made are a prefix of the plan, they are the whole plan exactly when
  no member fails. Stopping reaches every service and every port, whatever fails.
\<close>

theorem Start_follows_plan:
  "case Start svcErr portErr r of
     (res, evs) \<Rightarrow> (\<exists>rest. startPlan r = evs @ rest \<and> (res = None \<longrightarrow> rest = [])) \<and>
       (res = None \<longleftrightarrow> (\<forall>s \<in> set (Services r). svcErr s = None) \<and> (\<forall>p \<in> set (Ports r). portErr p = None)) \<and>
       snd (Stop svcErr portErr r) = map StopService (Services r) @ map StopPort (Ports r)"
proof -
  let ?l = "filter (\<lambda>s. svcKind s = LlapService) (Services r)"
  let ?n = "filter (\<lambda>s. svcKind s \<noteq> LlapService) (Services r)"
  obtain r1 e1 where 1: "start_all svcErr StartService ?l = (r1, e1)" by (cases "start_all svcErr StartService ?l")
  obtain r2 e2 where 2: "start_all portErr StartPort (Ports r) = (r2, e2)"
    by (cases "start_all portErr StartPort (Ports r)")
  obtain r3 e3 where 3: "start_all svcErr StartService ?n = (r3, e3)" by (cases "start_all svcErr StartService ?n")
  have all: "(\<forall>s \<in> set (Services r). svcErr s = None) \<longleftrightarrow>
      (\<forall>s \<in> set ?l. svcErr s = None) \<and> (\<forall>s \<in> set ?n. svcErr s = None)" by auto
  show ?thesis
    unfolding all startPlan_def
    using start_all_plan [OF 1] start_all_plan [OF 2] start_all_plan [OF 3]
    by (cases r1; cases r2)
       (auto simp: Start_def startLLAPServices_def startNonLLAPServices_def 1 2 3 Stop_def stopServices_def
          simp del: set_filter)
qed

theorem Start_follows_plan_witness:
  "fst (Start (\<lambda>_. None :: unit option) (\<lambda>_. None) sample_router) = None"
  using Start_follows_plan [where svcErr = "\<lambda>_. None :: unit option" and portErr = "\<lambda>_. None" and r = sample_router]
  by (auto split: prod.splits)

end
