(* ===== verification/Rtmp.thy ===== *)
theory Rtmp
  imports Router
begin

text \<open>
  The Routing Table Maintenance Protocol of \<^verbatim>\<open>service/rtmp\<close>: building the advertisements,
  sending them, and the handler of received data and request packets. The goroutines of the
  services are one call of the handler per datagram taken from the channel, and one call of the
  sender per tick of the timer.
\<close>

section \<open>Constants of \<^verbatim>\<open>protocol/rtmp\<close>\<close>

abbreviation DDPTypeData :: u8 where "DDPTypeData \<equiv> 1"
abbreviation DDPTypeRequest :: u8 where "DDPTypeRequest \<equiv> 5"
abbreviation rtmpVersion :: u8 where "rtmpVersion \<equiv> 0x82"
abbreviation FuncRequest :: u8 where "FuncRequest \<equiv> 1"
abbreviation FuncRDRSplitHorizon :: u8 where "FuncRDRSplitHorizon \<equiv> 2"
abbreviation FuncRDRNoSplitHorizon :: u8 where "FuncRDRNoSplitHorizon \<equiv> 3"
abbreviation NotifyNeighborDistance :: u8 where "NotifyNeighborDistance \<equiv> 31"

section \<open>Advertisements\<close>

text \<open>The tuple of an entry; a bad entry is advertised at the notify-neighbour distance.\<close>

definition routingTuple :: "RoutingTableEntry \<Rightarrow> bool \<Rightarrow> bytes" where
  "routingTuple e bad =
    (let distance = (if bad then NotifyNeighborDistance else Distance e) in
     if \<not> ExtendedNetwork e
     then [hi8 (NetworkMin e), lo8 (NetworkMin e), distance AND 0x1F]
     else [hi8 (NetworkMin e), lo8 (NetworkMin e), (distance AND 0x1F) OR 0x80,
           hi8 (NetworkMax e), lo8 (NetworkMax e), rtmpVersion])"

text \<open>
  The loop over the entries: the port's own range goes to the header, entries reached through
  the port are left out under split horizon, the others are listed.
\<close>

fun collectTuples ::
    "PortState \<Rightarrow> port \<Rightarrow> bool \<Rightarrow> (RoutingTableEntry \<times> bool) list \<Rightarrow> bytes option \<times> bytes list \<Rightarrow> bytes option \<times> bytes list" where
  "collectTuples ps p split [] acc = acc"
| "collectTuples ps p split ((e, bad) # items) (thisNet, tuples) =
    collectTuples ps p split items
      (if isExtended p \<and> portNetworkMin ps = NetworkMin e \<and> portNetworkMax ps = NetworkMax e
       then (Some (routingTuple e bad), tuples)
       else if Port e = p \<and> split then (thisNet, tuples)
       else (thisNet, tuples @ [routingTuple e bad]))"

text \<open>Packing the tuples behind copies of the header into datagrams of bounded size.\<close>

fun packTuples :: "bytes \<Rightarrow> bytes list \<Rightarrow> bytes \<Rightarrow> bytes list" where
  "packTuples header [] cur = [cur]"
| "packTuples header (t # ts) cur =
    (if length cur + length t > MaxDataLength
     then cur # packTuples header ts (header @ t)
     else packTuples header ts (cur @ t))"

definition rtmpHeader :: "PortState \<Rightarrow> port \<Rightarrow> bytes option \<Rightarrow> bytes" where
  "rtmpHeader ps p thisNet =
    [hi8 (portNetwork ps), lo8 (portNetwork ps), 8, portNode ps] @
    (case thisNet of
       Some t \<Rightarrow> if isExtended p then t else [0, 0, rtmpVersion]
     | None \<Rightarrow> [0, 0, rtmpVersion])"

definition makeRoutingTableDatagramData :: "port_env \<Rightarrow> Router \<Rightarrow> port \<Rightarrow> bool \<Rightarrow> bytes list" where
  "makeRoutingTableDatagramData env r p splitHorizon =
    (let ps = env p in
     if portNetworkMin ps = 0 \<or> portNetworkMax ps = 0 then [] else
     let (thisNet, tuples) = collectTuples ps p splitHorizon (RoutingEntries r) (None, []);
         header = rtmpHeader ps p thisNet in
     packTuples header tuples header)"

definition rtmpBroadcast :: "port_env \<Rightarrow> Router \<Rightarrow> port \<Rightarrow> effect list" where
  "rtmpBroadcast env r p =
    (let ps = env p in
     if portNode ps = 0 \<or> portNetwork ps = 0 then [] else
     map (\<lambda>data. Broadcast p \<lparr>HopCount = 0, DestinationNetwork = 0, SourceNetwork = portNetwork ps,
            DestinationNode = 0xFF, SourceNode = portNode ps, DestinationSocket = rtmpSAS,
            SourceSocket = rtmpSAS, DDPType = DDPTypeData, Data = data\<rparr>)
         (makeRoutingTableDatagramData env r p True))"

text \<open>One tick of the sending service.\<close>

definition rtmpSendTick :: "port_env \<Rightarrow> Router \<Rightarrow> effect list" where
  "rtmpSendTick env r = concat (map (rtmpBroadcast env r) (PortsList r))"

text \<open>One tick of the ageing service.\<close>

definition rtmpAgeTick :: "Router \<Rightarrow> Router" where
  "rtmpAgeTick r = RoutingTableAge r"

section \<open>Received packets\<close>

text \<open>
  \<open>SetNetworkRange\<close> of the two kinds of ports: a LocalTalk port takes a single network number once;
  an EtherTalk port takes any range and gives up its address. Both call the routing table.
\<close>

definition localtalkSetNetworkRange :: "port_env \<Rightarrow> Router \<Rightarrow> port \<Rightarrow> u16 \<Rightarrow> u16 \<Rightarrow> (port_env \<times> Router) option" where
  "localtalkSetNetworkRange env r p networkMin networkMax =
    (if networkMin \<noteq> networkMax then Some (env, r)
     else if portNetwork (env p) \<noteq> 0 then Some (env, r)
     else map_option (\<lambda>r. (env(p := (env p)\<lparr>portNetwork := networkMin, portNetworkMin := networkMin,
                                     portNetworkMax := networkMax\<rparr>), r))
            (RoutingSetPortRange r p networkMin networkMax))"

definition ethertalkSetNetworkRange :: "port_env \<Rightarrow> Router \<Rightarrow> port \<Rightarrow> u16 \<Rightarrow> u16 \<Rightarrow> (port_env \<times> Router) option" where
  "ethertalkSetNetworkRange env r p nmin nmax =
    map_option (\<lambda>r. (env(p := (env p)\<lparr>portNetworkMin := nmin, portNetworkMax := nmax,
                                portNetwork := 0, portNode := 0\<rparr>), r))
      (RoutingSetPortRange r p nmin nmax)"

definition SetNetworkRange :: "port_env \<Rightarrow> Router \<Rightarrow> port \<Rightarrow> u16 \<Rightarrow> u16 \<Rightarrow> (port_env \<times> Router) option" where
  "SetNetworkRange env r p lo hi =
    (if isExtended p then ethertalkSetNetworkRange env r p lo hi else localtalkSetNetworkRange env r p lo hi)"

text \<open>What one tuple does to the table: distances of 15 and more mark the range bad.\<close>

definition applyTuple :: "port \<Rightarrow> u16 \<Rightarrow> u8 \<Rightarrow> u16 \<times> u16 \<times> bool \<times> u8 \<Rightarrow> Router \<Rightarrow> Router option" where
  "applyTuple rx senderNetwork senderNode = (\<lambda>(nmin, nmax, extended, dist) r.
     if dist \<ge> 15 then map_option snd (RoutingMarkBad r nmin nmax)
     else map_option snd (RoutingConsider r
            \<lparr>ExtendedNetwork = extended, NetworkMin = nmin, NetworkMax = nmax, Distance = dist + 1,
             Port = rx, NextNetwork = senderNetwork, NextNode = senderNode\<rparr>))"

text \<open>The loop over the tuples of a data packet; a truncated tuple ends it.\<close>

fun applyTuples :: "port \<Rightarrow> u16 \<Rightarrow> u8 \<Rightarrow> bytes \<Rightarrow> Router \<Rightarrow> Router option" where
  "applyTuples rx sn node (a # b # rd # data) r =
    (let nmin = be16 a b; dist = rd AND 0x1F in
     if rd AND 0x80 \<noteq> 0 then
       (case data of
          c # d # v # rest \<Rightarrow>
            Option.bind (applyTuple rx sn node (nmin, be16 c d, True, dist) r) (applyTuples rx sn node rest)
        | _ \<Rightarrow> Some r)
     else Option.bind (applyTuple rx sn node (nmin, nmin, False, dist) r) (applyTuples rx sn node data))"
| "applyTuples rx sn node _ r = Some r"

text \<open>
  The head of a data packet: sender network and node, the range of the sender's cable, and the
  tuples that follow; \<open>None\<close> where the code goes on to the next datagram.
\<close>

definition parseDataHeader :: "bool \<Rightarrow> bytes \<Rightarrow> (u16 \<times> u8 \<times> u16 \<times> u16 \<times> bytes) option" where
  "parseDataHeader extended pkt =
    (case pkt of
       n1 # n2 # idlen # node # data \<Rightarrow>
         if idlen \<noteq> 8 then None
         else if extended then
           (case data of
              a # b # rd # c # d # v # rest \<Rightarrow>
                if rd \<noteq> 0x80 then None else if v \<noteq> rtmpVersion then None
                else Some (be16 n1 n2, node, be16 a b, be16 c d, rest)
            | _ \<Rightarrow> None)
         else
           (case data of
              a # b # v # rest \<Rightarrow>
                if be16 a b \<noteq> 0 then None else if v \<noteq> rtmpVersion then None
                else Some (be16 n1 n2, node, be16 n1 n2, be16 n1 n2, rest)
            | _ \<Rightarrow> None)
     | _ \<Rightarrow> None)"

definition handleRtmpData :: "port_env \<Rightarrow> Router \<Rightarrow> Datagram \<Rightarrow> port \<Rightarrow> (port_env \<times> Router) option" where
  "handleRtmpData env r d rx =
    (case parseDataHeader (isExtended rx) (Data d) of
       None \<Rightarrow> Some (env, r)
     | Some (senderNetwork, senderNode, senderMin, senderMax, tuples) \<Rightarrow>
         Option.bind
           (if portNetworkMin (env rx) = 0 \<and> portNetworkMax (env rx) = 0
            then SetNetworkRange env r rx senderMin senderMax else Some (env, r))
           (\<lambda>(env, r). map_option (Pair env) (applyTuples rx senderNetwork senderNode tuples r)))"

definition handleRtmpRequest :: "port_env \<Rightarrow> Router \<Rightarrow> Datagram \<Rightarrow> port \<Rightarrow> effect list" where
  "handleRtmpRequest env r d rx =
    (let ps = env rx in
     case Data d of
       [] \<Rightarrow> []
     | fn # _ \<Rightarrow>
         if fn = FuncRequest then
           (if portNetworkMin ps = 0 \<or> portNetworkMax ps = 0 \<or> HopCount d \<noteq> 0 then []
            else Reply env r d rx DDPTypeData
              ([hi8 (portNetwork ps), lo8 (portNetwork ps), 8, portNode ps] @
               (if isExtended rx
                then [hi8 (portNetworkMin ps), lo8 (portNetworkMin ps), 0x80,
                      hi8 (portNetworkMax ps), lo8 (portNetworkMax ps), rtmpVersion] else [])))
         else if fn = FuncRDRSplitHorizon \<or> fn = FuncRDRNoSplitHorizon then
           concat (map (Reply env r d rx DDPTypeData)
             (makeRoutingTableDatagramData env r rx (fn = FuncRDRSplitHorizon)))
         else [])"

definition handleRtmp :: "port_env \<Rightarrow> Router \<Rightarrow> Datagram \<Rightarrow> port \<Rightarrow> (port_env \<times> Router \<times> effect list) option" where
  "handleRtmp env r d rx =
    (if DDPType d = DDPTypeData then map_option (\<lambda>(env, r). (env, r, [])) (handleRtmpData env r d rx)
     else if DDPType d = DDPTypeRequest then Some (env, r, handleRtmpRequest env r d rx)
     else Some (env, r, []))"

section \<open>Tuples on the wire\<close>

definition tupleOf :: "RoutingTableEntry \<times> bool \<Rightarrow> u16 \<times> u16 \<times> bool \<times> u8" where
  "tupleOf = (\<lambda>(e, bad). (NetworkMin e, if ExtendedNetwork e then NetworkMax e else NetworkMin e,
     ExtendedNetwork e, (if bad then NotifyNeighborDistance else Distance e) AND 0x1F))"

fun parseTuples :: "bytes \<Rightarrow> (u16 \<times> u16 \<times> bool \<times> u8) list" where
  "parseTuples (a # b # rd # data) =
    (if rd AND 0x80 \<noteq> 0 then
       (case data of
          c # d # v # rest \<Rightarrow> (be16 a b, be16 c d, True, rd AND 0x1F) # parseTuples rest
        | _ \<Rightarrow> [])
     else (be16 a b, be16 a b, False, rd AND 0x1F) # parseTuples data)"
| "parseTuples _ = []"

lemma flag_bits:
  "((x :: u8) AND 0x1F) AND 0x80 = 0" "((x AND 0x1F) OR 0x80) AND 0x80 \<noteq> 0"
  "((x AND 0x1F) OR 0x80) AND 0x1F = x AND 0x1F" "(x AND 0x1F) AND 0x1F = x AND 0x1F"
  by (simp_all add: and.assoc bit.conj_disj_distrib2)

lemma parse_routingTuple [simp]:
  "parseTuples (routingTuple e bad @ rest) = tupleOf (e, bad) # parseTuples rest"
  using flag_bits by (simp add: routingTuple_def tupleOf_def Let_def)

lemma parse_routingTuples:
  "parseTuples (concat (map (\<lambda>(e, bad). routingTuple e bad) es)) = map tupleOf es"
  by (induction es) auto

lemma length_routingTuple: "length (routingTuple e bad) \<le> 6"
  by (simp add: routingTuple_def Let_def)

text \<open>The handler's loop is the fold of \<open>applyTuple\<close> over the parsed tuples.\<close>

lemma applyTuples_fold:
  "applyTuples rx sn node data r =
     fold (\<lambda>t s. Option.bind s (applyTuple rx sn node t)) (parseTuples data) (Some r)"
proof -
  have none: "fold (\<lambda>t s. Option.bind s (applyTuple rx sn node t)) ts None = None" for ts
    by (induction ts) auto
  have bind: "Option.bind m (\<lambda>r. fold (\<lambda>t s. Option.bind s (applyTuple rx sn node t)) ts (Some r)) =
      fold (\<lambda>t s. Option.bind s (applyTuple rx sn node t)) ts m" for m ts
    using none by (cases m) auto
  let ?F = "\<lambda>ts r. fold (\<lambda>t s. Option.bind s (applyTuple rx sn node t)) ts (Some r)"
  have "applyTuples rx sn node data = ?F (parseTuples data)"
  proof (induction data rule: parseTuples.induct)
    case (1 a b rd data)
    then show ?case by (intro ext) (auto simp: Let_def bind split: list.split)
  qed auto
  then show ?thesis by simp
qed

section \<open>Packing\<close>

lemma packTuples_bound:
  assumes "\<forall>t \<in> set ts. length header + length t \<le> MaxDataLength" "length cur \<le> MaxDataLength"
  shows "\<forall>d \<in> set (packTuples header ts cur). length d \<le> MaxDataLength"
  using assms by (induction header ts cur rule: packTuples.induct) auto

lemma packTuples_header:
  assumes "\<exists>x. cur = header @ x" "d \<in> set (packTuples header ts cur)"
  shows "\<exists>x. d = header @ x"
  using assms by (induction header ts cur rule: packTuples.induct) (auto split: if_splits)

lemma packTuples_parse:
  "concat (map (\<lambda>d. parseTuples (drop (length header) d))
       (packTuples header (map (\<lambda>(e, bad). routingTuple e bad) es)
          (header @ concat (map (\<lambda>(e, bad). routingTuple e bad) ds)))) = map tupleOf (ds @ es)"
proof (induction es arbitrary: ds)
  case Nil
  then show ?case by (simp add: parse_routingTuples)
next
  case (Cons e es)
  obtain x b where e: "e = (x, b)" by (cases e)
  show ?case
    using Cons.IH [of "[e]"] Cons.IH [of "ds @ [e]"] by (simp add: parse_routingTuples e)
qed

text \<open>The entries that a port advertises, in the order of the table.\<close>

definition ownRange :: "PortState \<Rightarrow> port \<Rightarrow> RoutingTableEntry \<Rightarrow> bool" where
  "ownRange ps p e \<longleftrightarrow> isExtended p \<and> portNetworkMin ps = NetworkMin e \<and> portNetworkMax ps = NetworkMax e"

definition advertised :: "PortState \<Rightarrow> port \<Rightarrow> bool \<Rightarrow> (RoutingTableEntry \<times> bool) list \<Rightarrow> (RoutingTableEntry \<times> bool) list" where
  "advertised ps p split items = filter (\<lambda>(e, bad). \<not> ownRange ps p e \<and> \<not> (Port e = p \<and> split)) items"

lemma collectTuples_Cons:
  "collectTuples ps p split ((e, bad) # items) (n, ts) = collectTuples ps p split items
     (if ownRange ps p e then (Some (routingTuple e bad), ts)
      else if Port e = p \<and> split then (n, ts) else (n, ts @ [routingTuple e bad]))"
  by (simp add: ownRange_def)

lemma collectTuples_tuples:
  "snd (collectTuples ps p split items (n, ts)) =
     ts @ map (\<lambda>(e, bad). routingTuple e bad) (advertised ps p split items)"
proof (induction items arbitrary: n ts)
  case (Cons x xs)
  then show ?case
    by (cases x; cases split) (simp_all add: advertised_def collectTuples_Cons del: collectTuples.simps)
qed (simp add: advertised_def)

lemma collectTuples_thisNet:
  "fst (collectTuples ps p split items (n, ts)) =
     (case filter (\<lambda>(e, bad). ownRange ps p e) items of
        [] \<Rightarrow> n
      | own # owns \<Rightarrow> Some (case last (own # owns) of (e, bad) \<Rightarrow> routingTuple e bad))"
proof (induction items arbitrary: n ts)
  case (Cons x xs)
  obtain e bad where x: "x = (e, bad)" by (cases x)
  show ?case
    using Cons.IH by (cases "filter (\<lambda>(e, bad). ownRange ps p e) xs"; cases split)
       (simp_all add: x collectTuples_Cons del: collectTuples.simps)
qed simp

text \<open>The sender of a packet and the tuples in it, as the receiving handler sees them.\<close>

definition heard :: "bool \<Rightarrow> bytes \<Rightarrow> (u16 \<times> u8) option \<times> (u16 \<times> u16 \<times> bool \<times> u8) list" where
  "heard extended pkt =
    (case parseDataHeader extended pkt of
       None \<Rightarrow> (None, [])
     | Some (sn, node, _, _, ts) \<Rightarrow> (Some (sn, node), parseTuples ts))"

definition headerOf :: "port_env \<Rightarrow> Router \<Rightarrow> port \<Rightarrow> bool \<Rightarrow> bytes" where
  "headerOf env r p split =
     rtmpHeader (env p) p (fst (collectTuples (env p) p split (RoutingEntries r) (None, [])))"

text \<open>The port's own range is in the table as a good direct extended entry, as seeding leaves it.\<close>

definition ownRangeKnown :: "port_env \<Rightarrow> Router \<Rightarrow> port \<Rightarrow> bool" where
  "ownRangeKnown env r p \<longleftrightarrow>
     list_ex (\<lambda>(e, bad). ownRange (env p) p e) (RoutingEntries r) \<and>
     list_all (\<lambda>(e, bad). ownRange (env p) p e \<longrightarrow> ExtendedNetwork e \<and> \<not> bad \<and> Distance e = 0) (RoutingEntries r)"

lemma headerOf_parses:
  assumes own: "isExtended p \<Longrightarrow> ownRangeKnown env r p"
  shows "length (headerOf env r p split) \<le> 10"
    "\<exists>lo hi. parseDataHeader (isExtended p) (headerOf env r p split @ ts) =
       Some (portNetwork (env p), portNode (env p), lo, hi, ts)"
proof -
  let ?own = "filter (\<lambda>(e, bad). ownRange (env p) p e) (RoutingEntries r)"
  have "length (headerOf env r p split) \<le> 10 \<and> (\<exists>lo hi. parseDataHeader (isExtended p) (headerOf env r p split @ ts) =
      Some (portNetwork (env p), portNode (env p), lo, hi, ts))"
  proof (cases "isExtended p")
    case False
    then show ?thesis
      by (simp add: headerOf_def rtmpHeader_def parseDataHeader_def split: option.split)
  next
    case True
    note K = own [OF True, unfolded ownRangeKnown_def]
    have "?own \<noteq> []" using K by (auto simp: list_ex_iff filter_empty_conv)
    then obtain e bad where l: "last ?own = (e, bad)" "(e, bad) \<in> set ?own"
      by (metis last_in_set surj_pair)
    then have e: "ExtendedNetwork e" "\<not> bad" "Distance e = 0" "ownRange (env p) p e"
      using K by (auto simp: list_all_iff)
    have "fst (collectTuples (env p) p split (RoutingEntries r) (None, [])) = Some (routingTuple e bad)"
      using \<open>?own \<noteq> []\<close> l(1) by (cases ?own) (simp_all add: collectTuples_thisNet)
    then show ?thesis
      using True e by (simp add: headerOf_def rtmpHeader_def routingTuple_def parseDataHeader_def)
  qed
  then show "length (headerOf env r p split) \<le> 10"
    "\<exists>lo hi. parseDataHeader (isExtended p) (headerOf env r p split @ ts) =
       Some (portNetwork (env p), portNode (env p), lo, hi, ts)" by blast+
qed

lemma makeRoutingTableDatagramData_eq:
  assumes "portNetworkMin (env p) \<noteq> 0" "portNetworkMax (env p) \<noteq> 0"
  shows "makeRoutingTableDatagramData env r p split = packTuples (headerOf env r p split)
    (map (\<lambda>(e, bad). routingTuple e bad) (advertised (env p) p split (RoutingEntries r))) (headerOf env r p split)"
  using assms collectTuples_tuples [of "env p" p split "RoutingEntries r" None "[]"]
  by (simp add: makeRoutingTableDatagramData_def Let_def headerOf_def case_prod_unfold)

lemma rtmp_data_bounded:
  assumes "isExtended p \<Longrightarrow> ownRangeKnown env r p" "d \<in> set (makeRoutingTableDatagramData env r p split)"
  shows "length d \<le> MaxDataLength"
proof (cases "portNetworkMin (env p) = 0 \<or> portNetworkMax (env p) = 0")
  case False
  have h: "length (headerOf env r p split) \<le> 10" by (rule headerOf_parses(1)) (rule assms(1))
  let ?ts = "map (\<lambda>(e, bad). routingTuple e bad) (advertised (env p) p split (RoutingEntries r))"
  have "length t \<le> 6" if "t \<in> set ?ts" for t
    using that length_routingTuple by auto
  then have "\<forall>t \<in> set ?ts. length (headerOf env r p split) + length t \<le> MaxDataLength"
    using h by (force simp: MaxDataLength_def)
  moreover have "length (headerOf env r p split) \<le> MaxDataLength" using h by (simp add: MaxDataLength_def)
  ultimately have "\<forall>d \<in> set (packTuples (headerOf env r p split) ?ts (headerOf env r p split)). length d \<le> MaxDataLength"
    by (rule packTuples_bound)
  then show ?thesis using assms(2) False by (simp add: makeRoutingTableDatagramData_eq)
qed (use assms in \<open>auto simp: makeRoutingTableDatagramData_def\<close>)

section \<open>Properties\<close>




section \<open>What the handler does to the router\<close>

definition distancesBounded :: "Router \<Rightarrow> bool" where
  "distancesBounded r \<longleftrightarrow> (\<forall>q \<in> ptrs (routingTable r). Distance (snd q) \<le> 15)"

definition rtmp_inv :: "Router \<Rightarrow> bool" where
  "rtmp_inv r \<longleftrightarrow> router_inv r \<and> distancesBounded r"

lemma ptrs_storeGood: "ptrs (storeGood p t) \<subseteq> insert p (ptrs t)"
  by (auto simp: ptrs_def ran_def split: if_splits)

lemma ptrs_pointRange:
  assumes "pointRange lo hi p t = Some t'" shows "ptrs t' \<subseteq> insert p (ptrs t)"
proof -
  have "entryByKey t' = entryByKey t" by (subst pointRange_spec(2) [OF assms]) simp
  then show ?thesis by (auto simp: ptrs_def ran_def pointRange_spec(3) [OF assms] split: if_splits)
qed

lemma ptrs_dropKey: "ptrs (dropKey k t) \<subseteq> ptrs t"
  by (auto simp: ptrs_def ran_def split: if_splits)

lemma ptrs_Consider:
  assumes "Consider t e = Some (b, t')" shows "ptrs t' \<subseteq> insert (heapNext t, e) (ptrs t)"
  using assms
proof (cases rule: Consider_cases)
  case (add cur u)
  have "ptrs (replaced (alloc t) cur) \<subseteq> ptrs t"
    using ptrs_dropKey [of _ "alloc t"] by (auto simp: replaced_def split: option.splits)
  then show ?thesis using ptrs_storeGood [of "(heapNext t, e)" u] ptrs_pointRange [OF add(5)] add(6) by blast
qed (auto simp: ptrs_def)

lemma ptrs_MarkBad: "MarkBad t lo hi = Some (b, t') \<Longrightarrow> ptrs t' = ptrs t"
  by (auto simp: MarkBad_def Let_def ptrs_def split: option.splits sum.splits if_splits)

lemma ptrs_dropDirect: "ptrs (dropDirect p x t) \<subseteq> ptrs t"
  by (cases x) (auto simp: dropDirect_def Let_def ptrs_def ran_def split: if_splits)

lemma ptrs_SetPortRange:
  assumes "SetPortRange t p lo hi = Some t'" "q \<in> ptrs t'" shows "q \<in> ptrs t \<or> Distance (snd q) = 0"
proof -
  let ?s = "fold (dropDirect p) (entryByNetwork t) t"
  let ?e = "(heapNext ?s, \<lparr>ExtendedNetwork = isExtended p, NetworkMin = lo, NetworkMax = hi,
    Distance = 0, Port = p, NextNetwork = 0, NextNode = 0\<rparr>)"
  have "ptrs (fold (dropDirect p) xs s) \<subseteq> ptrs s" for xs s
    by (induction xs arbitrary: s) (auto dest: subsetD [OF ptrs_dropDirect])
  then have "ptrs (alloc ?s) \<subseteq> ptrs t" by simp
  moreover obtain u where u: "pointRange lo hi ?e (alloc ?s) = Some u" "t' = storeGood ?e u"
    using assms(1) by (auto simp: SetPortRange_def Let_def split: option.splits)
  ultimately have "ptrs t' \<subseteq> insert ?e (ptrs t)"
    using ptrs_storeGood [of ?e u] ptrs_pointRange [OF u(1)] by blast
  then show ?thesis using assms(2) by auto
qed

lemma dist_bound: "\<not> (15 :: u8) \<le> d \<Longrightarrow> d + 1 \<le> 15"
  by (simp add: inc_le)

lemma applyTuple_inv:
  assumes "rtmp_inv r" "applyTuple rx sn node x r = Some r'" shows "rtmp_inv r'"
proof -
  obtain lo hi ext d where x: "x = (lo, hi, ext, d)" by (metis surj_pair)
  have inv: "router_inv r" "distancesBounded r" using assms(1) by (simp_all add: rtmp_inv_def)
  show ?thesis
  proof (cases "15 \<le> d")
    case True
    then obtain b t' where t: "MarkBad (routingTable r) lo hi = Some (b, t')" "r' = r\<lparr>routingTable := t'\<rparr>"
      using assms(2) by (auto simp: applyTuple_def x RoutingMarkBad_def)
    then show ?thesis
      using inv MarkBad_inv [OF _ t(1)] ptrs_MarkBad [OF t(1)]
      by (simp add: rtmp_inv_def router_inv_def distancesBounded_def)
  next
    case False
    let ?e = "\<lparr>ExtendedNetwork = ext, NetworkMin = lo, NetworkMax = hi, Distance = d + 1, Port = rx,
      NextNetwork = sn, NextNode = node\<rparr>"
    obtain b t' where t: "Consider (routingTable r) ?e = Some (b, t')" "r' = r\<lparr>routingTable := t'\<rparr>"
      using assms(2) False by (auto simp: applyTuple_def x RoutingConsider_def)
    then show ?thesis
      using inv Consider_inv [OF _ t(1)] ptrs_Consider [OF t(1)] dist_bound [OF False]
      by (auto simp: rtmp_inv_def router_inv_def distancesBounded_def dest!: subsetD)
  qed
qed

lemma applyTuples_inv: "rtmp_inv r \<Longrightarrow> applyTuples rx sn node data r = Some r' \<Longrightarrow> rtmp_inv r'"
proof -
  have "rtmp_inv r'" if "fold (\<lambda>t s. Option.bind s (applyTuple rx sn node t)) ts s = Some r'" "pred_option rtmp_inv s" for ts s
    using that
  proof (induction ts arbitrary: s)
    case (Cons t ts)
    have "pred_option rtmp_inv (Option.bind s (applyTuple rx sn node t))"
      using Cons.prems(2) by (cases s) (auto simp: pred_option_def applyTuple_inv)
    then show ?case using Cons.IH Cons.prems(1) by simp
  qed simp
  then show "rtmp_inv r \<Longrightarrow> applyTuples rx sn node data r = Some r' \<Longrightarrow> rtmp_inv r'"
    by (auto simp: applyTuples_fold)
qed

lemma RoutingSetPortRange_inv: "rtmp_inv r \<Longrightarrow> RoutingSetPortRange r p lo hi = Some r' \<Longrightarrow> rtmp_inv r'"
  using SetPortRange_inv ptrs_SetPortRange
  by (fastforce simp: RoutingSetPortRange_def rtmp_inv_def router_inv_def distancesBounded_def)

lemma SetNetworkRange_inv: "rtmp_inv r \<Longrightarrow> SetNetworkRange env r p lo hi = Some (env', r') \<Longrightarrow> rtmp_inv r'"
  by (auto simp: SetNetworkRange_def ethertalkSetNetworkRange_def localtalkSetNetworkRange_def
      RoutingSetPortRange_inv split: if_splits)

lemma handleRtmpData_inv:
  assumes inv: "rtmp_inv r" and h: "handleRtmpData env r d rx = Some (env', r')"
  shows "rtmp_inv r'"
proof (cases "parseDataHeader (isExtended rx) (Data d)")
  case None
  then show ?thesis using h inv by (simp add: handleRtmpData_def)
next
  case (Some x)
  obtain sn node lo hi ts where x: "x = (sn, node, lo, hi, ts)" by (metis surj_pair)
  let ?set = "if portNetworkMin (env rx) = 0 \<and> portNetworkMax (env rx) = 0
    then SetNetworkRange env r rx lo hi else Some (env, r)"
  obtain env1 r1 where 1: "?set = Some (env1, r1)" "applyTuples rx sn node ts r1 = Some r'"
    using h by (cases ?set) (auto simp: handleRtmpData_def Some x)
  have "rtmp_inv r1" using 1(1) inv SetNetworkRange_inv by (auto split: if_splits)
  then show ?thesis using 1(2) by (rule applyTuples_inv)
qed

lemma handleRtmp_inv: "rtmp_inv r \<Longrightarrow> handleRtmp env r d rx = Some (env', r', es) \<Longrightarrow> rtmp_inv r'"
  using handleRtmpData_inv by (auto simp: handleRtmp_def split: if_splits)

section \<open>Runs of the protocol\<close>

datatype rtmp_op = ReceiveRtmp Datagram port | AgeTick

fun rtmp_perform :: "rtmp_op \<Rightarrow> (port_env \<times> Router) option \<Rightarrow> (port_env \<times> Router) option" where
  "rtmp_perform (ReceiveRtmp d rx) s =
     Option.bind s (\<lambda>(env, r). map_option (\<lambda>(env, r, _). (env, r)) (handleRtmp env r d rx))"
| "rtmp_perform AgeTick s = map_option (\<lambda>(env, r). (env, rtmpAgeTick r)) s"

lemma ptrs_Age: "rt_inv t \<Longrightarrow> ptrs (Age t) \<subseteq> ptrs t"
  by (auto simp: ptrs_def ran_def Age_net Age_key split: option.splits if_splits)

lemma rtmpAgeTick_inv: "rtmp_inv r \<Longrightarrow> rtmp_inv (rtmpAgeTick r)"
  using ptrs_Age [of "routingTable r"] Age_inv [of "routingTable r"]
  by (auto simp: rtmp_inv_def rtmpAgeTick_def RoutingTableAge_def router_inv_def distancesBounded_def)

lemma rtmp_inv_New: "rtmp_inv (New m fresh name ports services)"
proof -
  have "routingTable (fold registerServiceSocket ss r) = routingTable r" for ss r
    by (induction ss arbitrary: r) auto
  moreover have "routingTable (fold (bindPortLLAP m) ps r) = routingTable r" for ps r
    by (induction ps arbitrary: r) auto
  ultimately have "routingTable (New m fresh name ports services) = NewRoutingTable"
    by (simp add: New_def Let_def bindLLAPManager_def)
  then show ?thesis
    using router_inv_New by (simp add: rtmp_inv_def distancesBounded_def ptrs_def NewRoutingTable_def)
qed

interpretation rtmp_runs: guarded_component
  "Some (env, New m fresh name ports services)" rtmp_perform "pred_option (\<lambda>(env, r). rtmp_inv r)"
  for env m fresh name ports services
proof
  show "pred_option (\<lambda>(env, r). rtmp_inv r) (Some (env, New m fresh name ports services))"
    by (simp add: rtmp_inv_New)
  show "pred_option (\<lambda>(env, r). rtmp_inv r) (rtmp_perform op s)"
    if "pred_option (\<lambda>(env, r). rtmp_inv r) s" for s op
    using that by (cases op; cases s)
      (auto simp: rtmpAgeTick_inv pred_option_def bind_eq_Some_conv dest: handleRtmp_inv)
qed

text \<open>
  C14. Whatever packets arrive on the RTMP socket, well-formed or not, in whatever order with ageing
  ticks, as long as the handler returns the tables keep their invariants and no route in the
  table is farther than 15 hops, the largest distance that can still be reached.
\<close>

theorem rtmp_distances_bounded:
  "pred_option (\<lambda>(env, r). router_inv r \<and> (\<forall>q \<in> ptrs (routingTable r). Distance (snd q) \<le> 15))
     (fold rtmp_perform ops (Some (env, New m fresh name ports services)))"
  using rtmp_runs.invar_run [of ops env m fresh name ports services]
  by (simp add: rtmp_inv_def distancesBounded_def)

theorem rtmp_distances_bounded_witness:
  "pred_option (\<lambda>(env, r). \<forall>q \<in> ptrs (routingTable r). Distance (snd q) \<le> 15)
     (fold rtmp_perform [AgeTick] (Some (sample_env, New (\<lambda>_. False) 0 [] [lt0] None)))"
  using rtmp_distances_bounded [of "[AgeTick]" sample_env "\<lambda>_. False" 0 "[]" "[lt0]" None]
  by (auto simp: pred_option_def)

text \<open>
  A neighbour can stop the router: an EtherTalk port that has no range yet adopts the range of
  the first data packet, and with a range that ends at 0xFFFF the handler does not return; it
  holds the lock of the routing table meanwhile.
\<close>

theorem rtmp_adoption_diverges:
  assumes "isExtended rx" "DDPType d = DDPTypeData" "portNetworkMin (env rx) = 0" "portNetworkMax (env rx) = 0"
    and "Data d = [n1, n2, 8, node, a, b, 0x80, 0xFF, 0xFF, 0x82]"
  shows "handleRtmp env r d rx = None"
proof -
  have "be16 0xFF 0xFF = 0xFFFF" by (simp add: be16_def)
  then show ?thesis
    using assms SetPortRange_returns [of "routingTable r" rx "be16 a b" "0xFFFF"]
    by (simp add: handleRtmp_def handleRtmpData_def parseDataHeader_def SetNetworkRange_def
        ethertalkSetNetworkRange_def RoutingSetPortRange_def)
qed

theorem rtmp_adoption_diverges_witness:
  "handleRtmp (\<lambda>_. \<lparr>portNetwork = 0, portNode = 0, portNetworkMin = 0, portNetworkMax = 0\<rparr>) sample_router
     (sample_datagram\<lparr>DDPType := DDPTypeData, Data := [0, 9, 8, 1, 0, 5, 0x80, 0xFF, 0xFF, 0x82]\<rparr>) other_port = None"
  by (rule rtmp_adoption_diverges) (simp_all add: other_port_def)

end
