(* ===== verification/Nbp.thy ===== *)
theory Nbp
  imports Router
begin

text \<open>
  The wire formats of \<^verbatim>\<open>protocol/llap/llap.go\<close> and \<^verbatim>\<open>protocol/nbp/nbp.go\<close>, the name registry and
  packet handler of \<^verbatim>\<open>service/zip/name_information.go\<close>, and the echo service of
  \<^verbatim>\<open>service/aep/aep.go\<close>.
\<close>

section \<open>LLAP frames\<close>

record Frame =
  frameDestination :: u8
  frameSource :: u8
  frameType :: u8
  framePayload :: bytes

datatype llap_error = FrameTooShort nat | ControlPayload u8 nat | InvalidControlType u8
  | InvalidFrameType u8 | PayloadTooLarge nat

abbreviation TypeAppleTalkShortHeader :: u8 where "TypeAppleTalkShortHeader \<equiv> 0x01"
abbreviation TypeAppleTalkLongHeader :: u8 where "TypeAppleTalkLongHeader \<equiv> 0x02"
abbreviation TypeENQ :: u8 where "TypeENQ \<equiv> 0x81"
abbreviation TypeACK :: u8 where "TypeACK \<equiv> 0x82"
abbreviation TypeRTS :: u8 where "TypeRTS \<equiv> 0x84"
abbreviation TypeCTS :: u8 where "TypeCTS \<equiv> 0x85"

definition IsControl :: "Frame \<Rightarrow> bool" where
  "IsControl f \<longleftrightarrow> frameType f \<ge> 0x80"

definition IsData :: "Frame \<Rightarrow> bool" where
  "IsData f \<longleftrightarrow> frameType f = TypeAppleTalkShortHeader \<or> frameType f = TypeAppleTalkLongHeader"

definition MaxDataSize :: nat where
  "MaxDataSize = 600"

definition Validate :: "Frame \<Rightarrow> llap_error option" where
  "Validate f =
    (if IsControl f then
       if length (framePayload f) \<noteq> 0 then Some (ControlPayload (frameType f) (length (framePayload f)))
       else if frameType f = TypeENQ \<or> frameType f = TypeACK \<or> frameType f = TypeRTS \<or> frameType f = TypeCTS
       then None else Some (InvalidControlType (frameType f))
     else if \<not> IsData f then Some (InvalidFrameType (frameType f))
     else if length (framePayload f) > MaxDataSize then Some (PayloadTooLarge (length (framePayload f)))
     else None)"

definition FrameFromBytes :: "bytes \<Rightarrow> llap_error + Frame" where
  "FrameFromBytes b =
    (case b of
       d # s # t # payload \<Rightarrow>
         let f = \<lparr>frameDestination = d, frameSource = s, frameType = t, framePayload = payload\<rparr> in
         (case Validate f of Some e \<Rightarrow> Inl e | None \<Rightarrow> Inr f)
     | _ \<Rightarrow> Inl (FrameTooShort (length b)))"

definition Bytes :: "Frame \<Rightarrow> bytes" where
  "Bytes f = [frameDestination f, frameSource f, frameType f] @ framePayload f"

interpretation llap_frame: wire_codec
  "\<lambda>f. Validate f = None" "\<lambda>f. Inr (Bytes f) :: llap_error + bytes" FrameFromBytes "3 + MaxDataSize"
proof
  fix f and b assume v: "Validate f = None" and b: "Inr (Bytes f) = (Inr b :: llap_error + bytes)"
  show "FrameFromBytes b = Inr f"
    using v b by (cases f) (auto simp: FrameFromBytes_def Bytes_def Let_def)
  show "length b \<le> 3 + MaxDataSize"
    using v b by (auto simp: Validate_def Bytes_def split: if_splits)
qed simp

section \<open>Case-insensitive comparison\<close>

text \<open>
  \<open>bytes.EqualFold\<close> of Go's standard library reads both slices as UTF-8 and compares rune by rune up
  to simple case folding. A byte that does not start a valid sequence reads as U+FFFD of width 1.
  The folding of runes outside ASCII is Unicode data and is the parameter \<open>orbit\<close>: \<open>orbit a b\<close>
  says that \<open>b\<close> is in the folding orbit of \<open>a\<close>.
\<close>

abbreviation contByte :: "u8 \<Rightarrow> bool" where "contByte b \<equiv> 0x80 \<le> b \<and> b \<le> 0xBF"

abbreviation RuneError :: nat where "RuneError \<equiv> 0xFFFD"

definition secondOk :: "u8 \<Rightarrow> u8 \<Rightarrow> bool" where
  "secondOk b0 b1 \<longleftrightarrow>
     (if b0 = 0xE0 then 0xA0 \<le> b1 \<and> b1 \<le> 0xBF
      else if b0 = 0xED then 0x80 \<le> b1 \<and> b1 \<le> 0x9F
      else if b0 = 0xF0 then 0x90 \<le> b1 \<and> b1 \<le> 0xBF
      else if b0 = 0xF4 then 0x80 \<le> b1 \<and> b1 \<le> 0x8F
      else contByte b1)"

definition DecodeRune :: "bytes \<Rightarrow> nat \<times> nat" where
  "DecodeRune s =
    (case s of
       [] \<Rightarrow> (RuneError, 0)
     | b0 # r \<Rightarrow>
         if b0 < 0x80 then (unat b0, 1)
         else if 0xC2 \<le> b0 \<and> b0 \<le> 0xDF then
           (case r of
              b1 # _ \<Rightarrow> if secondOk b0 b1 then (unat (b0 AND 0x1F) * 64 + unat (b1 AND 0x3F), 2) else (RuneError, 1)
            | _ \<Rightarrow> (RuneError, 1))
         else if 0xE0 \<le> b0 \<and> b0 \<le> 0xEF then
           (case r of
              b1 # b2 # _ \<Rightarrow>
                if secondOk b0 b1 \<and> contByte b2
                then (unat (b0 AND 0x0F) * 4096 + unat (b1 AND 0x3F) * 64 + unat (b2 AND 0x3F), 3) else (RuneError, 1)
            | _ \<Rightarrow> (RuneError, 1))
         else if 0xF0 \<le> b0 \<and> b0 \<le> 0xF4 then
           (case r of
              b1 # b2 # b3 # _ \<Rightarrow>
                if secondOk b0 b1 \<and> contByte b2 \<and> contByte b3
                then (unat (b0 AND 0x07) * 262144 + unat (b1 AND 0x3F) * 4096 + unat (b2 AND 0x3F) * 64
                        + unat (b3 AND 0x3F), 4) else (RuneError, 1)
            | _ \<Rightarrow> (RuneError, 1))
         else (RuneError, 1))"

function runes :: "bytes \<Rightarrow> nat list" where
  "runes s = (if s = [] then [] else let (r, size) = DecodeRune s in r # runes (drop size s))"
  by pat_completeness auto
termination
proof (relation "measure length")
  fix s :: bytes and x r size assume "s \<noteq> []" "x = DecodeRune s" "(r, size) = x"
  then have "size > 0" by (auto simp: DecodeRune_def split: list.splits if_splits)
  then show "(drop size s, s) \<in> measure length" using \<open>s \<noteq> []\<close> by simp
qed simp

declare runes.simps [simp del]

definition runeEq :: "(nat \<Rightarrow> nat \<Rightarrow> bool) \<Rightarrow> nat \<Rightarrow> nat \<Rightarrow> bool" where
  "runeEq orbit a b \<longleftrightarrow>
     a = b \<or>
     (let lo = min a b; hi = max a b in
      if hi < 0x80 then 65 \<le> lo \<and> lo \<le> 90 \<and> hi = lo + 32 else orbit lo hi)"

definition EqualFold :: "(nat \<Rightarrow> nat \<Rightarrow> bool) \<Rightarrow> bytes \<Rightarrow> bytes \<Rightarrow> bool" where
  "EqualFold orbit s t \<longleftrightarrow> list_all2 (runeEq orbit) (runes s) (runes t)"

section \<open>NBP packets\<close>

record Tuple =
  tupleNetwork :: u16
  tupleNode :: u8
  tupleSocket :: u8
  tupleEnumerator :: u8
  tupleObject :: bytes
  tupleType :: bytes
  tupleZone :: bytes

record Packet =
  nbpFunction :: u8
  nbpTupleCount :: u8
  nbpID :: u8
  nbpTuple :: Tuple

datatype nbp_error = ErrMalformed

abbreviation CtrlBrRq :: u8 where "CtrlBrRq \<equiv> 1"
abbreviation CtrlLkUp :: u8 where "CtrlLkUp \<equiv> 2"
abbreviation CtrlLkUpRply :: u8 where "CtrlLkUpRply \<equiv> 3"
abbreviation CtrlFwd :: u8 where "CtrlFwd \<equiv> 4"
abbreviation NameWildcard :: u8 where "NameWildcard \<equiv> 61"
abbreviation ZoneWildcard :: u8 where "ZoneWildcard \<equiv> 42"
abbreviation NBPDDPType :: u8 where "NBPDDPType \<equiv> 2"

definition ParsePacket :: "bytes \<Rightarrow> nbp_error + Packet" where
  "ParsePacket data =
    (if length data < 8 then Inl ErrMalformed else
     let objLen = unat (data ! 7) in
     if objLen < 1 \<or> length data < 8 + objLen + 1 then Inl ErrMalformed else
     let typLen = unat (data ! (8 + objLen)) in
     if typLen < 1 \<or> length data < 9 + objLen + typLen + 1 then Inl ErrMalformed else
     let zoneLen = unat (data ! (9 + objLen + typLen)) in
     if length data < 10 + objLen + typLen + zoneLen then Inl ErrMalformed else
     let zone = take zoneLen (drop (10 + objLen + typLen) data) in
     Inr \<lparr>nbpFunction = drop_bit 4 (data ! 0), nbpTupleCount = data ! 0 AND 0x0F, nbpID = data ! 1,
          nbpTuple = \<lparr>tupleNetwork = be16 (data ! 2) (data ! 3), tupleNode = data ! 4, tupleSocket = data ! 5,
            tupleEnumerator = data ! 6, tupleObject = take objLen (drop 8 data),
            tupleType = take typLen (drop (9 + objLen) data),
            tupleZone = (if zone = [] then [ZoneWildcard] else zone)\<rparr>\<rparr>)"

definition lenByte :: "bytes \<Rightarrow> u8" where
  "lenByte b = word_of_nat (length b)"

definition BuildLkUpRply :: "u8 \<Rightarrow> u16 \<Rightarrow> u8 \<Rightarrow> u8 \<Rightarrow> bytes \<Rightarrow> bytes \<Rightarrow> bytes \<Rightarrow> bytes" where
  "BuildLkUpRply ident network node socket obj typ zone =
     [push_bit 4 CtrlLkUpRply OR 1, ident, hi8 network, lo8 network, node, socket, 0,
      lenByte obj] @ obj @ [lenByte typ] @ typ @ [lenByte zone] @ zone"

definition NameMatch :: "(nat \<Rightarrow> nat \<Rightarrow> bool) \<Rightarrow> bytes \<Rightarrow> bytes \<Rightarrow> bool" where
  "NameMatch orbit pattern name \<longleftrightarrow> pattern = [NameWildcard] \<or> EqualFold orbit pattern name"

definition ZoneMatch :: "(nat \<Rightarrow> nat \<Rightarrow> bool) \<Rightarrow> bytes \<Rightarrow> bytes \<Rightarrow> bool" where
  "ZoneMatch orbit pattern zone \<longleftrightarrow> pattern = [ZoneWildcard] \<or> EqualFold orbit pattern zone"

section \<open>The name registry\<close>

record NBPRegisteredName =
  regObject :: bytes
  regType :: bytes
  regZone :: bytes
  regSocket :: u8

definition sameName :: "(nat \<Rightarrow> nat \<Rightarrow> bool) \<Rightarrow> NBPRegisteredName \<Rightarrow> bytes \<Rightarrow> bytes \<Rightarrow> bytes \<Rightarrow> bool" where
  "sameName orbit n obj typ zone \<longleftrightarrow>
     EqualFold orbit (regObject n) obj \<and> EqualFold orbit (regType n) typ \<and> EqualFold orbit (regZone n) zone"

fun RegisterName ::
    "(nat \<Rightarrow> nat \<Rightarrow> bool) \<Rightarrow> bytes \<Rightarrow> bytes \<Rightarrow> bytes \<Rightarrow> u8 \<Rightarrow> NBPRegisteredName list \<Rightarrow> NBPRegisteredName list" where
  "RegisterName orbit obj typ zone socket [] =
     [\<lparr>regObject = obj, regType = typ, regZone = zone, regSocket = socket\<rparr>]"
| "RegisterName orbit obj typ zone socket (n # names) =
    (if sameName orbit n obj typ zone then n\<lparr>regSocket := socket\<rparr> # names
     else n # RegisterName orbit obj typ zone socket names)"

fun UnregisterName ::
    "(nat \<Rightarrow> nat \<Rightarrow> bool) \<Rightarrow> bytes \<Rightarrow> bytes \<Rightarrow> bytes \<Rightarrow> NBPRegisteredName list \<Rightarrow> NBPRegisteredName list" where
  "UnregisterName orbit obj typ zone [] = []"
| "UnregisterName orbit obj typ zone (n # names) =
    (if sameName orbit n obj typ zone then names else n # UnregisterName orbit obj typ zone names)"

definition nameMatches :: "(nat \<Rightarrow> nat \<Rightarrow> bool) \<Rightarrow> bytes \<Rightarrow> bytes \<Rightarrow> bytes \<Rightarrow> NBPRegisteredName \<Rightarrow> bool" where
  "nameMatches orbit obj typ zone n \<longleftrightarrow>
     NameMatch orbit obj (regObject n) \<and> NameMatch orbit typ (regType n) \<and> ZoneMatch orbit zone (regZone n)"

section \<open>The packet handler\<close>

definition buildCommonPayload :: "Datagram \<Rightarrow> bytes \<Rightarrow> u16 \<Rightarrow> bytes \<times> bytes" where
  "buildCommonPayload d zone replyNet =
    (let data = Data d; objLen = unat (data ! 7); typLen = unat (data ! (8 + objLen));
         common = [data ! 1, hi8 replyNet, lo8 replyNet] @ take 4 (drop 4 data) @
           take objLen (drop 8 data) @ [data ! (8 + objLen)] @ take typLen (drop (9 + objLen) data) @
           [lenByte zone] @ zone in
     ((push_bit 4 CtrlLkUp OR 1) # common, (push_bit 4 CtrlFwd OR 1) # common))"

definition nbpAnswer :: "port_env \<Rightarrow> Router \<Rightarrow> Datagram \<Rightarrow> port \<Rightarrow> u16 \<Rightarrow> NBPRegisteredName \<Rightarrow> effect list" where
  "nbpAnswer env r d p replyNet n =
     routed (Route env r \<lparr>HopCount = 0, DestinationNetwork = replyNet, SourceNetwork = 0,
        DestinationNode = Data d ! 4, SourceNode = 0, DestinationSocket = Data d ! 5,
        SourceSocket = nbpSocket, DDPType = NBPDDPType,
        Data = BuildLkUpRply (Data d ! 1) (portNetwork (env p)) (portNode (env p)) (regSocket n)
          (regObject n) (regType n) (regZone n)\<rparr> True)"

definition lookupDatagram :: "PortState \<Rightarrow> bytes \<Rightarrow> Datagram" where
  "lookupDatagram ps lkup = \<lparr>HopCount = 0, DestinationNetwork = 0, SourceNetwork = portNetwork ps,
     DestinationNode = 0xFF, SourceNode = portNode ps, DestinationSocket = nbpSocket,
     SourceSocket = nbpSocket, DDPType = NBPDDPType, Data = lkup\<rparr>"

text \<open>The loop over the networks of the zone, with the set of ports already served.\<close>

fun spreadRequest :: "port_env \<Rightarrow> Router \<Rightarrow> bytes \<Rightarrow> bytes \<Rightarrow> bytes \<Rightarrow> u16 list \<Rightarrow> port set \<Rightarrow> effect list" where
  "spreadRequest env r zone lkup fwd [] seen = []"
| "spreadRequest env r zone lkup fwd (n # ns) seen =
    (case GetByNetwork (routingTable r) n of
       None \<Rightarrow> spreadRequest env r zone lkup fwd ns seen
     | Some ((_, entry), _) \<Rightarrow>
         if Port entry \<in> seen then spreadRequest env r zone lkup fwd ns seen
         else (if Distance entry = 0
               then [Multicast (Port entry) zone (lookupDatagram (env (Port entry)) lkup)]
               else routed (Route env r \<lparr>HopCount = 0, DestinationNetwork = NetworkMin entry, SourceNetwork = 0,
                      DestinationNode = 0, SourceNode = 0, DestinationSocket = nbpSocket,
                      SourceSocket = nbpSocket, DDPType = NBPDDPType, Data = fwd\<rparr> True))
              @ spreadRequest env r zone lkup fwd ns (insert (Port entry) seen))"

definition routeZoneOf :: "port_env \<Rightarrow> Router \<Rightarrow> port \<Rightarrow> bytes \<Rightarrow> bytes" where
  "routeZoneOf env r p zone =
    (if zone = [ZoneWildcard] \<and> portNetwork (env p) \<noteq> 0 then
       (case GetByNetwork (routingTable r) (portNetwork (env p)) of
          None \<Rightarrow> zone
        | Some ((_, entry), _) \<Rightarrow>
            (case RouterZonesInNetworkRange r (NetworkMin entry) None of
               Inr [z] \<Rightarrow> z
             | _ \<Rightarrow> zone))
     else zone)"

definition handleBrRq :: "(nat \<Rightarrow> nat \<Rightarrow> bool) \<Rightarrow> port_env \<Rightarrow> Router \<Rightarrow> NBPRegisteredName list \<Rightarrow> Datagram \<Rightarrow> port \<Rightarrow>
    bytes \<Rightarrow> bytes \<Rightarrow> bytes \<Rightarrow> u16 \<Rightarrow> effect list option" where
  "handleBrRq orbit env r names d p obj typ zone replyNet =
    (let answers = concat (map (nbpAnswer env r d p replyNet) (filter (nameMatches orbit obj typ zone) names)) in
     if zone = [ZoneWildcard] \<and> isExtended p then Some answers else
     let routeZone = routeZoneOf env r p zone;
         (lkup, fwd) = buildCommonPayload d zone replyNet in
     if routeZone = [ZoneWildcard] then Some (answers @ [Broadcast p (lookupDatagram (env p) lkup)])
     else map_option (\<lambda>nets. answers @ spreadRequest env r routeZone lkup fwd nets {}) (RouterNetworksInZone r routeZone))"

definition handleFwd :: "port_env \<Rightarrow> Router \<Rightarrow> Datagram \<Rightarrow> bytes \<Rightarrow> u16 \<Rightarrow> effect list" where
  "handleFwd env r d zone replyNet =
    (case GetByNetwork (routingTable r) (DestinationNetwork d) of
       None \<Rightarrow> []
     | Some ((_, entry), _) \<Rightarrow>
         if Distance entry \<noteq> 0 then []
         else [Multicast (Port entry) zone
                 (lookupDatagram (env (Port entry)) (fst (buildCommonPayload d zone replyNet)))])"

definition handleLkUp :: "(nat \<Rightarrow> nat \<Rightarrow> bool) \<Rightarrow> port_env \<Rightarrow> Router \<Rightarrow> NBPRegisteredName list \<Rightarrow> Datagram \<Rightarrow> port \<Rightarrow>
    bytes \<Rightarrow> bytes \<Rightarrow> bytes \<Rightarrow> u16 \<Rightarrow> effect list" where
  "handleLkUp orbit env r names d p obj typ zone replyNet =
     concat (map (nbpAnswer env r d p replyNet) (filter (nameMatches orbit obj typ zone) names))"

definition handlePacket :: "(nat \<Rightarrow> nat \<Rightarrow> bool) \<Rightarrow> port_env \<Rightarrow> Router \<Rightarrow> NBPRegisteredName list \<Rightarrow> Datagram \<Rightarrow> port \<Rightarrow>
    effect list option" where
  "handlePacket orbit env r names d p =
    (if DDPType d \<noteq> NBPDDPType then Some [] else
     case ParsePacket (Data d) of
       Inl _ \<Rightarrow> Some []
     | Inr pkt \<Rightarrow>
         if nbpTupleCount pkt \<noteq> 1 then Some [] else
         let t = nbpTuple pkt;
             replyNet = (if tupleNetwork t = 0 then portNetwork (env p) else tupleNetwork t) in
         if nbpFunction pkt = CtrlBrRq
         then handleBrRq orbit env r names d p (tupleObject t) (tupleType t) (tupleZone t) replyNet
         else if nbpFunction pkt = CtrlFwd then Some (handleFwd env r d (tupleZone t) replyNet)
         else if nbpFunction pkt = CtrlLkUp
         then Some (handleLkUp orbit env r names d p (tupleObject t) (tupleType t) (tupleZone t) replyNet)
         else Some [])"

section \<open>AppleTalk echo\<close>

abbreviation aepDDPType :: u8 where "aepDDPType \<equiv> 4"
abbreviation aepRequest :: u8 where "aepRequest \<equiv> 1"
abbreviation aepReply :: u8 where "aepReply \<equiv> 2"

definition handleEcho :: "port_env \<Rightarrow> Router \<Rightarrow> Datagram \<Rightarrow> port \<Rightarrow> effect list" where
  "handleEcho env r d p =
    (case Data d of
       [] \<Rightarrow> []
     | cmd # rest \<Rightarrow>
         if DDPType d \<noteq> aepDDPType \<or> cmd \<noteq> aepRequest then []
         else Reply env r d p aepDDPType (aepReply # rest))"

section \<open>Wire format\<close>

lemma unat_lenByte: "length b < 256 \<Longrightarrow> unat (lenByte b) = length b"
  by (simp add: lenByte_def unat_of_nat take_bit_eq_mod)

text \<open>
  A lookup reply carries the name and the address it was built from: parsing it gives back the
  function code, the transaction number, the address and the three name fields, for names of 1 to
  255 bytes; an empty zone reads as the wildcard.
\<close>

lemma nbp_reply_roundtrip:
  assumes "1 \<le> length obj" "length obj < 256" "1 \<le> length typ" "length typ < 256" "length zone < 256"
  shows "ParsePacket (BuildLkUpRply ident network node socket obj typ zone) =
    Inr \<lparr>nbpFunction = CtrlLkUpRply, nbpTupleCount = 1, nbpID = ident,
         nbpTuple = \<lparr>tupleNetwork = network, tupleNode = node, tupleSocket = socket, tupleEnumerator = 0,
           tupleObject = obj, tupleType = typ, tupleZone = (if zone = [] then [ZoneWildcard] else zone)\<rparr>\<rparr>"
proof -
  define data where "data = BuildLkUpRply ident network node socket obj typ zone"
  have d: "data = [push_bit 4 CtrlLkUpRply OR 1, ident, hi8 network, lo8 network, node, socket, 0, lenByte obj] @
      obj @ [lenByte typ] @ typ @ [lenByte zone] @ zone"
    by (simp add: data_def BuildLkUpRply_def)
  have len: "length data = 10 + length obj + length typ + length zone" by (simp add: d)
  have L: "unat (data ! 7) = length obj" "unat (data ! (8 + length obj)) = length typ"
    "unat (data ! (9 + length obj + length typ)) = length zone"
    using assms by (simp_all add: d nth_append unat_lenByte)
  have parts: "take (length obj) (drop 8 data) = obj" "take (length typ) (drop (9 + length obj) data) = typ"
    "take (length zone) (drop (10 + length obj + length typ) data) = zone"
  proof -
    let ?h = "[push_bit 4 CtrlLkUpRply OR 1, ident, hi8 network, lo8 network, node, socket, 0, lenByte obj]"
    show "take (length obj) (drop 8 data) = obj" by (simp add: d)
    have "data = (?h @ obj @ [lenByte typ]) @ typ @ [lenByte zone] @ zone" by (simp only: d append_assoc)
    then show "take (length typ) (drop (9 + length obj) data) = typ" by (elim ssubst) (rule take_drop_at; simp)
    have "data = (?h @ obj @ [lenByte typ] @ typ @ [lenByte zone]) @ zone @ []" by (simp add: d)
    then show "take (length zone) (drop (10 + length obj + length typ) data) = zone" by (elim ssubst) (rule take_drop_at; simp)
  qed
  have first: "data ! 0 = 0x31" "data ! 1 = ident" "data ! 2 = hi8 network" "data ! 3 = lo8 network" "data ! 4 = node"
    "data ! 5 = socket" "data ! 6 = 0"
    by (simp_all add: d)
  show ?thesis
    using assms len first(2)
    by (auto simp: ParsePacket_def data_def [symmetric] L parts first Let_def)
qed


section \<open>The registry as a map\<close>

lemma EqualFold_refl [simp]: "EqualFold orbit s s"
  by (simp add: EqualFold_def runeEq_def list.rel_refl)

definition lookupName :: "(nat \<Rightarrow> nat \<Rightarrow> bool) \<Rightarrow> NBPRegisteredName list \<Rightarrow> bytes \<Rightarrow> bytes \<Rightarrow> bytes \<Rightarrow> u8 option" where
  "lookupName orbit names obj typ zone =
     map_option regSocket (List.find (\<lambda>n. sameName orbit n obj typ zone) names)"

text \<open>No name is registered twice, up to letter case.\<close>

definition registry_inv :: "(nat \<Rightarrow> nat \<Rightarrow> bool) \<Rightarrow> NBPRegisteredName list \<Rightarrow> bool" where
  "registry_inv orbit names \<longleftrightarrow>
     sorted_wrt (\<lambda>n m. \<not> sameName orbit n (regObject m) (regType m) (regZone m)) names"

lemma sameName_socket [simp]: "sameName orbit (n\<lparr>regSocket := s\<rparr>) obj typ zone = sameName orbit n obj typ zone"
  by (simp add: sameName_def)

lemma set_RegisterName:
  "m \<in> set (RegisterName orbit obj typ zone s names) \<Longrightarrow>
     (\<exists>n \<in> set names. regObject m = regObject n \<and> regType m = regType n \<and> regZone m = regZone n) \<or>
     m = \<lparr>regObject = obj, regType = typ, regZone = zone, regSocket = s\<rparr>"
  by (induction names) (auto split: if_splits)

lemma RegisterName_inv: "registry_inv orbit names \<Longrightarrow> registry_inv orbit (RegisterName orbit obj typ zone s names)"
proof (induction names)
  case (Cons n names)
  show ?case
  proof (cases "sameName orbit n obj typ zone")
    case True
    then show ?thesis using Cons.prems by (simp add: registry_inv_def)
  next
    case False
    have "\<not> sameName orbit n (regObject m) (regType m) (regZone m)"
      if "m \<in> set (RegisterName orbit obj typ zone s names)" for m
      using set_RegisterName [OF that] Cons.prems False by (auto simp: registry_inv_def)
    then show ?thesis using Cons False by (simp add: registry_inv_def)
  qed
qed (simp add: registry_inv_def)

lemma set_UnregisterName: "set (UnregisterName orbit obj typ zone names) \<subseteq> set names"
  by (induction names) auto

lemma UnregisterName_inv: "registry_inv orbit names \<Longrightarrow> registry_inv orbit (UnregisterName orbit obj typ zone names)"
  using set_UnregisterName by (induction names) (fastforce simp: registry_inv_def)+

text \<open>The interface that clients of a name directory rely on.\<close>

locale name_directory =
  fixes invar :: "'s \<Rightarrow> bool"
    and empty :: 's
    and register :: "'k \<Rightarrow> 'v \<Rightarrow> 's \<Rightarrow> 's"
    and unregister :: "'k \<Rightarrow> 's \<Rightarrow> 's"
    and find :: "'s \<Rightarrow> 'k \<Rightarrow> 'v option"
    and same :: "'k \<Rightarrow> 'k \<Rightarrow> bool"
  assumes find_empty: "find empty k = None"
    and find_register: "invar s \<Longrightarrow> find (register k v s) k' = (if same k k' then Some v else find s k')"
    and find_unregister: "invar s \<Longrightarrow> find (unregister k s) k' = (if same k k' then None else find s k')"
    and invar_empty: "invar empty"
    and invar_register: "invar s \<Longrightarrow> invar (register k v s)"
    and invar_unregister: "invar s \<Longrightarrow> invar (unregister k s)"
    and same_refl: "same k k"
begin

lemma unregister_register: "invar s \<Longrightarrow> find (unregister k (register k v s)) k' = find (unregister k s) k'"
  by (simp add: find_unregister find_register invar_register)

text \<open>The last registration of a name decides, whatever was registered or removed before.\<close>

lemma last_registration_wins:
  assumes "invar s" "\<forall>(k', v') \<in> set later. \<not> same k' k"
  shows "find (fold (\<lambda>(k, v). register k v) later (register k v s)) k = Some v"
proof -
  have "invar t \<Longrightarrow> find t k = Some v \<Longrightarrow> find (fold (\<lambda>(k, v). register k v) later t) k = Some v" for t
    using assms(2) by (induction later arbitrary: t) (auto simp: find_register invar_register)
  then show ?thesis using assms(1) by (simp add: find_register invar_register same_refl)
qed

end

lemma EqualFold_equiv:
  assumes "equivp (runeEq orbit)"
  shows "EqualFold orbit a b \<Longrightarrow> EqualFold orbit b a"
    "EqualFold orbit a b \<Longrightarrow> EqualFold orbit b c \<Longrightarrow> EqualFold orbit a c"
proof -
  have s: "runeEq orbit x y \<Longrightarrow> runeEq orbit y x" for x y using assms by (blast dest: equivp_symp)
  have t: "runeEq orbit x y \<Longrightarrow> runeEq orbit y z \<Longrightarrow> runeEq orbit x z" for x y z
    using assms by (blast dest: equivp_transp)
  show "EqualFold orbit a b \<Longrightarrow> EqualFold orbit b a"
    unfolding EqualFold_def using s by (simp add: list_all2_conv_all_nth)
  show "EqualFold orbit a b \<Longrightarrow> EqualFold orbit b c \<Longrightarrow> EqualFold orbit a c"
    unfolding EqualFold_def by (rule list_all2_trans [of "runeEq orbit" "runeEq orbit"]) (rule t)
qed

definition sameKey :: "(nat \<Rightarrow> nat \<Rightarrow> bool) \<Rightarrow> bytes \<times> bytes \<times> bytes \<Rightarrow> bytes \<times> bytes \<times> bytes \<Rightarrow> bool" where
  "sameKey orbit = (\<lambda>(o1, t1, z1) (o2, t2, z2).
     EqualFold orbit o1 o2 \<and> EqualFold orbit t1 t2 \<and> EqualFold orbit z1 z2)"

lemma sameName_trans:
  assumes "equivp (runeEq orbit)"
  shows "sameName orbit n o1 t1 z1 \<Longrightarrow> sameKey orbit (o1, t1, z1) (o2, t2, z2) = sameName orbit n o2 t2 z2"
  using EqualFold_equiv [OF assms] unfolding sameName_def sameKey_def by (metis (no_types, lifting) case_prod_conv)

lemma lookup_Register:
  assumes eq: "equivp (runeEq orbit)"
  shows "lookupName orbit (RegisterName orbit o1 t1 z1 s names) o2 t2 z2 =
    (if sameKey orbit (o1, t1, z1) (o2, t2, z2) then Some s else lookupName orbit names o2 t2 z2)"
proof (induction names)
  case Nil
  then show ?case by (simp add: lookupName_def sameName_def sameKey_def)
next
  case (Cons n names)
  have "sameName orbit n o2 t2 z2 \<Longrightarrow> sameKey orbit (o1, t1, z1) (o2, t2, z2) \<Longrightarrow> sameName orbit n o1 t1 z1"
    using EqualFold_equiv [OF eq] unfolding sameName_def sameKey_def by (metis (no_types, lifting) case_prod_conv)
  then show ?case
    using Cons.IH sameName_trans [OF eq, of n o1 t1 z1 o2 t2 z2] by (auto simp: lookupName_def)
qed

lemma lookup_Unregister:
  assumes eq: "equivp (runeEq orbit)" and inv: "registry_inv orbit names"
  shows "lookupName orbit (UnregisterName orbit o1 t1 z1 names) o2 t2 z2 =
    (if sameKey orbit (o1, t1, z1) (o2, t2, z2) then None else lookupName orbit names o2 t2 z2)"
  using inv
proof (induction names)
  case Nil
  then show ?case by (simp add: lookupName_def)
next
  case (Cons n names)
  have other: "\<not> sameName orbit m o1 t1 z1" if "m \<in> set names" "sameName orbit n o1 t1 z1" for m
    using that Cons.prems EqualFold_equiv [OF eq] unfolding registry_inv_def sameName_def
    by (metis (no_types, lifting) sorted_wrt.simps(2))
  have via: "sameName orbit m o2 t2 z2 \<Longrightarrow> sameKey orbit (o1, t1, z1) (o2, t2, z2) \<Longrightarrow> sameName orbit m o1 t1 z1" for m
    using EqualFold_equiv [OF eq] unfolding sameName_def sameKey_def by (metis (no_types, lifting) case_prod_conv)
  have IH: "lookupName orbit (UnregisterName orbit o1 t1 z1 names) o2 t2 z2 =
      (if sameKey orbit (o1, t1, z1) (o2, t2, z2) then None else lookupName orbit names o2 t2 z2)"
    using Cons by (simp add: registry_inv_def)
  show ?case
  proof (cases "sameName orbit n o1 t1 z1")
    case True
    have "sameKey orbit (o1, t1, z1) (o2, t2, z2) \<Longrightarrow> lookupName orbit names o2 t2 z2 = None"
      using other [OF _ True] via by (auto simp: lookupName_def find_None_iff)
    then show ?thesis
      using True sameName_trans [OF eq True, of o2 t2 z2] by (auto simp: lookupName_def)
  next
    case False
    then show ?thesis using IH via [of n] by (auto simp: lookupName_def)
  qed
qed

text \<open>What the code relies on of Unicode: folding orbits partition the runes.\<close>

locale case_folding =
  fixes orbit :: "nat \<Rightarrow> nat \<Rightarrow> bool"
  assumes orbits_partition: "equivp (runeEq orbit)"
begin

lemma sameKey_refl: "sameKey orbit k k"
  by (cases k) (simp add: sameKey_def)

end

lemma registry_Nil [simp]: "registry_inv orbit []" "lookupName orbit [] obj typ zone = None"
  by (simp_all add: registry_inv_def lookupName_def)

sublocale case_folding \<subseteq> dir: name_directory
  "registry_inv orbit" "[]" "\<lambda>(obj, typ, zone) s. RegisterName orbit obj typ zone s"
  "\<lambda>(obj, typ, zone). UnregisterName orbit obj typ zone"
  "\<lambda>names (obj, typ, zone). lookupName orbit names obj typ zone" "sameKey orbit"
proof
  show "sameKey orbit k k" for k by (rule sameKey_refl)
qed (auto simp: RegisterName_inv UnregisterName_inv lookup_Register [OF orbits_partition]
      lookup_Unregister [OF orbits_partition])

context case_folding
begin

lemma registry_laws:
  assumes "registry_inv orbit names"
  shows "lookupName orbit (RegisterName orbit obj typ zone s names) obj' typ' zone' =
      (if sameKey orbit (obj, typ, zone) (obj', typ', zone') then Some s else lookupName orbit names obj' typ' zone')"
    "lookupName orbit (UnregisterName orbit obj typ zone names) obj' typ' zone' =
      (if sameKey orbit (obj, typ, zone) (obj', typ', zone') then None else lookupName orbit names obj' typ' zone')"
  using dir.find_register [OF assms, of "(obj, typ, zone)" s "(obj', typ', zone')"]
    dir.find_unregister [OF assms, of "(obj, typ, zone)" "(obj', typ', zone')"] by simp_all

end

lemma ascii_partition: "equivp (runeEq (\<lambda>_ _. False))"
proof (rule equivpI)
  show "reflp (runeEq (\<lambda>_ _. False))" by (simp add: reflp_def runeEq_def)
  show "symp (runeEq (\<lambda>_ _. False))" by (auto simp: symp_def runeEq_def min.commute max.commute)
  show "transp (runeEq (\<lambda>_ _. False))"
    by (auto simp: transp_def runeEq_def Let_def min_def max_def split: if_splits)
qed

text \<open>Folding of ASCII letters only, the part of the folding that is in the source of the library.\<close>

interpretation ascii: case_folding "\<lambda>_ _. False"
  by unfold_locales (rule ascii_partition)

datatype registry_op = OpRegister bytes bytes bytes u8 | OpUnregister bytes bytes bytes

fun registry_perform :: "(nat \<Rightarrow> nat \<Rightarrow> bool) \<Rightarrow> registry_op \<Rightarrow> NBPRegisteredName list \<Rightarrow> NBPRegisteredName list" where
  "registry_perform orbit (OpRegister obj typ zone s) names = RegisterName orbit obj typ zone s names"
| "registry_perform orbit (OpUnregister obj typ zone) names = UnregisterName orbit obj typ zone names"

interpretation registry_runs: guarded_component "[]" "registry_perform orbit" "registry_inv orbit" for orbit
proof
  show "registry_inv orbit []" by (simp add: registry_inv_def)
  show "registry_inv orbit names \<Longrightarrow> registry_inv orbit (registry_perform orbit op names)" for names op
    by (cases op) (simp_all add: RegisterName_inv UnregisterName_inv)
qed

section \<open>Properties\<close>

text \<open>
  The name registry is a map up to letter case: after any history, looking up the name just
  registered gives its socket, looking up a name just unregistered gives nothing, and every other
  name is as before. The hypothesis is what the code relies on of Unicode case folding.
\<close>

theorem nbp_registry_is_a_map:
  assumes fold: "equivp (runeEq orbit)"
    and names: "names = fold (registry_perform orbit) ops []"
  shows "lookupName orbit (RegisterName orbit obj typ zone s names) obj' typ' zone' =
           (if sameKey orbit (obj, typ, zone) (obj', typ', zone') then Some s
            else lookupName orbit names obj' typ' zone') \<and>
         lookupName orbit (UnregisterName orbit obj typ zone names) obj' typ' zone' =
           (if sameKey orbit (obj, typ, zone) (obj', typ', zone') then None
            else lookupName orbit names obj' typ' zone')"
proof -
  have cf: "case_folding orbit" by (rule case_folding.intro [OF fold])
  have inv: "registry_inv orbit names" unfolding names by (rule registry_runs.invar_run)
  show ?thesis
    using case_folding.registry_laws [OF cf inv] by simp
qed

lemma runes_ascii: "c < 0x80 \<Longrightarrow> runes (c # cs) = unat c # runes cs"
  by (subst runes.simps) (simp add: DecodeRune_def)

lemma runes_Nil [simp]: "runes [] = []"
  by (simp add: runes.simps)

theorem nbp_registry_is_a_map_witness:
  "lookupName (\<lambda>_ _. False) (RegisterName (\<lambda>_ _. False) [65] [66] [67] 9
      (fold (registry_perform (\<lambda>_ _. False)) [OpRegister [97] [66] [67] 5] [])) [97] [98] [99] = Some 9"
proof -
  have "sameKey (\<lambda>_ _. False) ([65], [66], [67]) ([97], [98], [99])"
    by (simp add: sameKey_def EqualFold_def runes_ascii runeEq_def Let_def)
  then show ?thesis
    using nbp_registry_is_a_map [OF ascii_partition refl, of "[65]" "[66]" "[67]" 9 "[OpRegister [97] [66] [67] 5]"
        "[97]" "[98]" "[99]"] by simp
qed

text \<open>
  A defect of the comparison: names are MacRoman, but they are compared as UTF-8, in which any
  accented letter alone is invalid and reads as the same replacement rune. So two different
  one-letter names above 0x7F count as one: registering the second replaces the socket of the first.
\<close>

lemma runes_high_single: "c \<ge> 0x80 \<Longrightarrow> runes [c] = [RuneError]"
  by (subst runes.simps) (auto simp: DecodeRune_def not_less)

theorem nbp_registry_conflates_accents:
  assumes "a \<ge> 0x80" "b \<ge> 0x80"
  shows "RegisterName orbit [b] typ zone s2 (RegisterName orbit [a] typ zone s1 []) =
    [\<lparr>regObject = [a], regType = typ, regZone = zone, regSocket = s2\<rparr>]"
proof -
  have "EqualFold orbit [a] [b]" using assms by (simp add: EqualFold_def runes_high_single runeEq_def)
  then show ?thesis by (simp add: sameName_def)
qed

theorem nbp_registry_conflates_accents_witness:
  "RegisterName (\<lambda>_ _. False) [0x8F] [66] [67] 9 (RegisterName (\<lambda>_ _. False) [0x8E] [66] [67] 5 []) =
    [\<lparr>regObject = [0x8E], regType = [66], regZone = [67], regSocket = 9\<rparr>]"
  by (rule nbp_registry_conflates_accents) simp_all

text \<open>
  A lookup is answered for the registered names that match, in order, and for nothing else: the
  handler changes nothing and each answer goes to the address in the request and carries the
  port's address, the name and its socket in a packet the requester can parse.
\<close>

definition wellFormedName :: "NBPRegisteredName \<Rightarrow> bool" where
  "wellFormedName n \<longleftrightarrow> 1 \<le> length (regObject n) \<and> length (regObject n) < 256 \<and> 1 \<le> length (regType n) \<and>
     length (regType n) < 256 \<and> 1 \<le> length (regZone n) \<and> length (regZone n) < 256"


lemma sent_concat: "sent (concat ess) = (\<Union>es \<in> set ess. sent es)"
  by (induction ess) auto

theorem nbp_lookup_answers:
  assumes "\<forall>n \<in> set names. wellFormedName n"
  shows "\<forall>(q, d') \<in> sent (handleLkUp orbit env r names d p obj typ zone replyNet).
    DestinationNetwork d' = replyNet \<and> DestinationNode d' = Data d ! 4 \<and> DestinationSocket d' = Data d ! 5 \<and>
    (\<exists>n \<in> set names. nameMatches orbit obj typ zone n \<and>
       ParsePacket (Data d') = Inr \<lparr>nbpFunction = CtrlLkUpRply, nbpTupleCount = 1, nbpID = Data d ! 1,
         nbpTuple = \<lparr>tupleNetwork = portNetwork (env p), tupleNode = portNode (env p), tupleSocket = regSocket n,
           tupleEnumerator = 0, tupleObject = regObject n, tupleType = regType n, tupleZone = regZone n\<rparr>\<rparr>)"
proof (clarify)
  fix q d' assume "(q, d') \<in> sent (handleLkUp orbit env r names d p obj typ zone replyNet)"
  then obtain n where n: "n \<in> set names" "nameMatches orbit obj typ zone n"
    and s: "(q, d') \<in> sent (nbpAnswer env r d p replyNet n)"
    by (auto simp: handleLkUp_def sent_concat)
  have w: "wellFormedName n" using assms n(1) by blast
  from s [unfolded nbpAnswer_def] have "DestinationNetwork d' = replyNet" "DestinationNode d' = Data d ! 4"
    "DestinationSocket d' = Data d ! 5"
    "Data d' = BuildLkUpRply (Data d ! 1) (portNetwork (env p)) (portNode (env p)) (regSocket n)
       (regObject n) (regType n) (regZone n)"
    by (rule sent_Route, simp)+
  moreover have "regZone n \<noteq> []" using w by (auto simp: wellFormedName_def)
  ultimately show "DestinationNetwork d' = replyNet \<and> DestinationNode d' = Data d ! 4 \<and> DestinationSocket d' = Data d ! 5 \<and>
    (\<exists>n \<in> set names. nameMatches orbit obj typ zone n \<and>
       ParsePacket (Data d') = Inr \<lparr>nbpFunction = CtrlLkUpRply, nbpTupleCount = 1, nbpID = Data d ! 1,
         nbpTuple = \<lparr>tupleNetwork = portNetwork (env p), tupleNode = portNode (env p), tupleSocket = regSocket n,
           tupleEnumerator = 0, tupleObject = regObject n, tupleType = regType n, tupleZone = regZone n\<rparr>\<rparr>)"
    using n w by (auto simp: wellFormedName_def nbp_reply_roundtrip intro!: bexI [of _ n])
qed

definition sample_name :: NBPRegisteredName where
  "sample_name = \<lparr>regObject = [65], regType = [66], regZone = [67], regSocket = 9\<rparr>"

definition sample_request :: Datagram where
  "sample_request = sample_datagram\<lparr>Data := [0x21, 7, 0, 3, 44, 130, 0, 1, 61, 1, 66, 1, 67]\<rparr>"

theorem nbp_lookup_answers_witness:
  "\<exists>d'. (lt0, d') \<in> sent (handleLkUp (\<lambda>_ _. False) sample_env sample_router [sample_name] sample_request lt0 [61] [66] [67] 3)
     \<and> DestinationNode d' = 44 \<and> DestinationSocket d' = 130"
proof -
  have "nameMatches (\<lambda>_ _. False) [61] [66] [67] sample_name"
    by (simp add: nameMatches_def NameMatch_def ZoneMatch_def sample_name_def)
  then obtain d' where d': "(lt0, d') \<in> sent (handleLkUp (\<lambda>_ _. False) sample_env sample_router [sample_name] sample_request lt0 [61] [66] [67] 3)"
    by (simp add: handleLkUp_def nbpAnswer_def Route_def GetByNetwork_def sample_router_def sample_table_def
        sample_env_def Let_def)
  have w: "\<forall>n \<in> set [sample_name]. wellFormedName n" by (simp add: wellFormedName_def sample_name_def)
  from bspec [OF nbp_lookup_answers [OF w] d'] d' show ?thesis
    by (auto simp: sample_request_def)
qed

text \<open>
  C15. A broadcast request is spread once per port, not once per network: the number of requests sent
  is at most the number of ports that lead to the networks of the zone, however many networks lie
  behind each. So a zone that spans two remote networks reached through one port is searched in
  one of them only.
\<close>

definition portsTowards :: "Router \<Rightarrow> u16 list \<Rightarrow> port set" where
  "portsTowards r ns = {Port (snd (fst x)) |x n. n \<in> set ns \<and> GetByNetwork (routingTable r) n = Some x}"

lemma portsTowards_Cons:
  "portsTowards r (n # ns) =
     (case GetByNetwork (routingTable r) n of None \<Rightarrow> {} | Some x \<Rightarrow> {Port (snd (fst x))}) \<union> portsTowards r ns"
  by (auto simp: portsTowards_def split: option.splits)

lemma finite_portsTowards [simp]: "finite (portsTowards r ns)"
  by (induction ns) (auto simp: portsTowards_Cons portsTowards_def [of _ "[]"] split: option.split)

lemma length_routed: "length (routed (Route env r d originating)) \<le> 1"
  by (simp add: Route_def Let_def routed_def split: option.split)

lemma spreadRequest_bound:
  "length (spreadRequest env r zone lkup fwd ns seen) \<le> card (portsTowards r ns - seen)"
proof (induction ns arbitrary: seen)
  case (Cons n ns)
  show ?case
  proof (cases "GetByNetwork (routingTable r) n")
    case None
    then show ?thesis using Cons.IH by (simp add: portsTowards_Cons)
  next
    case (Some x)
    obtain a e bad where x: "x = ((a, e), bad)" by (metis surj_pair)
    show ?thesis
    proof (cases "Port e \<in> seen")
      case True
      then show ?thesis using Cons.IH [of seen] Some x by (simp add: portsTowards_Cons insert_Diff_if)
    next
      case False
      have "portsTowards r (n # ns) - seen = insert (Port e) (portsTowards r ns - insert (Port e) seen)"
        using Some x False by (auto simp: portsTowards_Cons)
      then have "card (portsTowards r (n # ns) - seen) = Suc (card (portsTowards r ns - insert (Port e) seen))"
        by simp
      then show ?thesis
        using Some x False Cons.IH [of "insert (Port e) seen"]
          add_mono [OF length_routed [of env r _ True] Cons.IH [of "insert (Port e) seen"]]
        by simp
    qed
  qed
qed (simp add: portsTowards_def)


end
