(* ===== verification/Zip.thy ===== *)
theory Zip
  imports Nbp
begin

text \<open>
  The Zone Information Protocol of \<^verbatim>\<open>service/zip/responding.go\<close> and \<^verbatim>\<open>service/zip/sending.go\<close>: the
  handlers of replies and queries, of GetNetInfo and of the ATP requests for zone names, and the
  tick that asks for the zones of networks that have none.
\<close>

section \<open>Constants of \<^verbatim>\<open>protocol/zip\<close>\<close>

abbreviation zipDDPType :: u8 where "zipDDPType \<equiv> 6"
abbreviation FuncQuery :: u8 where "FuncQuery \<equiv> 1"
abbreviation FuncReply :: u8 where "FuncReply \<equiv> 2"
abbreviation FuncGetNetInfoReq :: u8 where "FuncGetNetInfoReq \<equiv> 5"
abbreviation FuncGetNetInfoRep :: u8 where "FuncGetNetInfoRep \<equiv> 6"
abbreviation FuncExtReply :: u8 where "FuncExtReply \<equiv> 8"
abbreviation GetNetInfoZoneInvalid :: u8 where "GetNetInfoZoneInvalid \<equiv> 0x80"
abbreviation GetNetInfoUseBroadcast :: u8 where "GetNetInfoUseBroadcast \<equiv> 0x40"
abbreviation GetNetInfoOnlyOneZone :: u8 where "GetNetInfoOnlyOneZone \<equiv> 0x20"
abbreviation ATPDDPType :: u8 where "ATPDDPType \<equiv> 3"
abbreviation ATPFuncTReq :: u8 where "ATPFuncTReq \<equiv> 0x40"
abbreviation ATPFuncTResp :: u8 where "ATPFuncTResp \<equiv> 0x80"
abbreviation ATPEOM :: u8 where "ATPEOM \<equiv> 0x10"
abbreviation ATPGetMyZone :: u8 where "ATPGetMyZone \<equiv> 7"
abbreviation ATPGetZoneList :: u8 where "ATPGetZoneList \<equiv> 8"
abbreviation ATPGetLocalZoneList :: u8 where "ATPGetLocalZoneList \<equiv> 9"

section \<open>Replies\<close>

text \<open>
  The loop over (network, length, zone) tuples of a reply; a tuple that runs past the end stops
  it and an empty zone name is skipped.
\<close>

function zipTuples :: "bytes \<Rightarrow> (u16 \<times> bytes) list" where
  "zipTuples data =
    (case data of
       a # b # l # rest \<Rightarrow>
         if length rest < unat l then []
         else if l = 0 then zipTuples rest
         else (be16 a b, take (unat l) rest) # zipTuples (drop (unat l) rest)
     | _ \<Rightarrow> [])"
  by pat_completeness auto
termination by (relation "measure length") auto

declare zipTuples.simps [simp del]

definition commitZone :: "u16 \<times> bytes \<Rightarrow> Router \<Rightarrow> Router" where
  "commitZone = (\<lambda>(nmin, zone) r.
     case GetByNetwork (routingTable r) nmin of
       None \<Rightarrow> r
     | Some ((_, entry), _) \<Rightarrow> snd (RouterAddNetworksToZone r zone nmin (Some (NetworkMax entry))))"

definition handleReply :: "Datagram \<Rightarrow> Router \<Rightarrow> Router" where
  "handleReply d r = fold commitZone (zipTuples (drop 2 (Data d))) r"

type_synonym pending_zones = "(u16, (bytes, unit) gomap) gomap"

definition addPending :: "u16 \<times> bytes \<Rightarrow> pending_zones \<Rightarrow> pending_zones" where
  "addPending = (\<lambda>(nmin, zone) pending.
     AList.update nmin (AList.update zone ()
       (case map_of pending nmin of None \<Rightarrow> [] | Some zs \<Rightarrow> zs)) pending)"

definition handleExtReply :: "Datagram \<Rightarrow> pending_zones \<Rightarrow> Router \<Rightarrow> pending_zones \<times> Router" where
  "handleExtReply d pending r =
    (if length (Data d) < 2 then (pending, r) else
     let count = unat (Data d ! 1);
         tuples = zipTuples (drop 2 (Data d));
         pending = fold addPending tuples pending;
         lastNmin = (if tuples = [] then 0 else fst (last tuples));
         zones = (case map_of pending lastNmin of None \<Rightarrow> [] | Some zs \<Rightarrow> map fst zs) in
     if count \<ge> 1 \<and> length zones \<ge> count then
       (AList.delete lastNmin pending,
        (case GetByNetwork (routingTable r) lastNmin of
           None \<Rightarrow> r
         | Some ((_, entry), _) \<Rightarrow>
             fold (\<lambda>z r. snd (RouterAddNetworksToZone r z lastNmin (Some (NetworkMax entry)))) zones r))
     else (pending, r))"

section \<open>Queries\<close>

definition zoneItem :: "u16 \<Rightarrow> bytes \<Rightarrow> bytes" where
  "zoneItem nmin z = [hi8 nmin, lo8 nmin, lenByte z] @ z"

fun packZones :: "u16 \<Rightarrow> u8 \<Rightarrow> bytes list \<Rightarrow> bytes \<Rightarrow> bytes list" where
  "packZones nmin count [] buf = (if length buf > 2 then [buf] else [])"
| "packZones nmin count (z # zs) buf =
    (if length buf + length (zoneItem nmin z) > MaxDataLength
     then buf # packZones nmin count zs ([FuncExtReply, count] @ zoneItem nmin z)
     else packZones nmin count zs (buf @ zoneItem nmin z))"

definition queryPackets :: "Router \<Rightarrow> u16 \<Rightarrow> bytes list" where
  "queryPackets r req =
    (case GetByNetwork (routingTable r) req of
       None \<Rightarrow> []
     | Some ((_, entry), _) \<Rightarrow>
         (case RouterZonesInNetworkRange r (NetworkMin entry) None of
            Inl _ \<Rightarrow> []
          | Inr zones \<Rightarrow>
              if zones = [] then []
              else let count = word_of_nat (length zones) in
                packZones (NetworkMin entry) count zones [FuncExtReply, count]))"

definition handleQuery :: "port_env \<Rightarrow> Router \<Rightarrow> Datagram \<Rightarrow> port \<Rightarrow> effect list" where
  "handleQuery env r d rx =
    (if length (Data d) < 2 then [] else
     let nc = unat (Data d ! 1) in
     if length (Data d) \<noteq> 2 + nc * 2 then [] else
     concat (map (\<lambda>i. concat (map (Reply env r d rx zipDDPType)
         (queryPackets r (be16 (Data d ! (2 + i * 2)) (Data d ! (3 + i * 2)))))) [0..<nc]))"

section \<open>GetNetInfo\<close>

abbreviation toUCase :: "bytes \<Rightarrow> bytes" where "toUCase \<equiv> MacRomanToUpper"

definition MulticastAddress :: "bytes \<Rightarrow> bytes" where
  "MulticastAddress zoneName =
     [0x09, 0x00, 0x07, 0x00, 0x00, ucast (Checksum (ucase zoneName) mod 0xFD)]"

text \<open>Only EtherTalk ports compute multicast addresses.\<close>

fun scanZones :: "port \<Rightarrow> bytes \<Rightarrow> nat \<Rightarrow> bytes list \<Rightarrow> u8 \<Rightarrow> bytes \<Rightarrow> u8 \<times> bytes" where
  "scanZones rx givenUC i [] flags mcast = (flags, mcast)"
| "scanZones rx givenUC i (zone # zones) flags mcast =
    (let flags = (if i = 1 then flags AND NOT GetNetInfoOnlyOneZone else flags);
         same = (toUCase zone = givenUC);
         flags = (if same then flags AND NOT GetNetInfoZoneInvalid else flags);
         mcast = (if same \<and> isExtended rx then MulticastAddress zone else mcast) in
     if i > 0 \<and> flags AND GetNetInfoZoneInvalid = 0 then (flags, mcast)
     else scanZones rx givenUC (i + 1) zones flags mcast)"

definition netInfoReply :: "PortState \<Rightarrow> port \<Rightarrow> bytes \<Rightarrow> bytes list \<Rightarrow> bytes" where
  "netInfoReply ps rx givenZone zones =
    (let defaultZone = hd zones;
         (flags, mcast) = scanZones rx (toUCase givenZone) 0 zones
            (GetNetInfoZoneInvalid OR GetNetInfoOnlyOneZone)
            (if isExtended rx then MulticastAddress defaultZone else []);
         flags = (if mcast = [] then flags OR GetNetInfoUseBroadcast else flags) in
     [FuncGetNetInfoRep, flags] @ put16 (portNetworkMin ps) @ put16 (portNetworkMax ps) @
     [lenByte givenZone] @ givenZone @ [lenByte mcast] @ mcast @
     (if flags AND GetNetInfoZoneInvalid \<noteq> 0 then lenByte defaultZone # defaultZone else []))"

definition handleGetNetInfo :: "port_env \<Rightarrow> Router \<Rightarrow> Datagram \<Rightarrow> port \<Rightarrow> effect list" where
  "handleGetNetInfo env r d rx =
    (let ps = env rx in
     if portNetwork ps = 0 \<or> portNetworkMin ps = 0 \<or> portNetworkMax ps = 0 then []
     else if length (Data d) < 7 then []
     else if take 5 (drop 1 (Data d)) \<noteq> [0, 0, 0, 0, 0] then []
     else
       let zoneLen = unat (Data d ! 6) in
       if length (Data d) < 7 + zoneLen then [] else
       (case RouterZonesInNetworkRange r (portNetworkMin ps) (Some (portNetworkMax ps)) of
          Inl _ \<Rightarrow> []
        | Inr zones \<Rightarrow>
            if zones = [] then []
            else Reply env r d rx zipDDPType (netInfoReply ps rx (take zoneLen (drop 7 (Data d))) zones)))"

section \<open>Zone names over ATP\<close>

definition handleGetMyZone :: "port_env \<Rightarrow> Router \<Rightarrow> Datagram \<Rightarrow> port \<Rightarrow> effect list" where
  "handleGetMyZone env r d rx =
    (case GetByNetwork (routingTable r) (SourceNetwork d) of
       None \<Rightarrow> []
     | Some ((_, entry), _) \<Rightarrow>
         (case RouterZonesInNetworkRange r (NetworkMin entry) None of
            Inl _ \<Rightarrow> []
          | Inr [] \<Rightarrow> []
          | Inr (zone # _) \<Rightarrow>
              Reply env r d rx ATPDDPType
                ([ATPFuncTResp OR ATPEOM, 0, Data d ! 2, Data d ! 3, 0, 0, 0, 1, lenByte zone] @ zone)))"

text \<open>The loop that fills a page; it counts the zones and notes when the list is exhausted.\<close>

fun fillPage :: "bytes list \<Rightarrow> bytes \<Rightarrow> nat \<Rightarrow> u8 \<times> nat \<times> bytes" where
  "fillPage [] zoneList n = (0, n, zoneList)"
| "fillPage (zone # zones) zoneList n =
    (if 8 + length zoneList + 1 + length zone > MaxDataLength then (0, n, zoneList)
     else if zones = [] then (1, n + 1, zoneList @ lenByte zone # zone)
     else fillPage zones (zoneList @ lenByte zone # zone) (n + 1))"

definition zonePage :: "bytes list \<Rightarrow> nat \<Rightarrow> u8 \<times> nat \<times> bytes" where
  "zonePage zones startIndex =
     fillPage (if startIndex > 1 then drop (startIndex - 1) zones else zones) [] 0"

definition handleGetZoneList :: "port_env \<Rightarrow> Router \<Rightarrow> Datagram \<Rightarrow> port \<Rightarrow> bool \<Rightarrow> effect list" where
  "handleGetZoneList env r d rx isLocal =
    (case (if isLocal
           then RouterZonesInNetworkRange r (portNetworkMin (env rx)) (Some (portNetworkMax (env rx)))
           else Inr (RouterZones r)) of
       Inl _ \<Rightarrow> []
     | Inr zones \<Rightarrow>
         let (lastFlag, numZones, zoneList) = zonePage zones (int16 (Data d ! 6) (Data d ! 7)) in
         Reply env r d rx ATPDDPType
           ([ATPFuncTResp OR ATPEOM, 0, Data d ! 2, Data d ! 3, lastFlag, 0] @
            put16 (word_of_nat numZones) @ zoneList))"

section \<open>Dispatch and the sending tick\<close>

definition handleZip ::
    "port_env \<Rightarrow> Datagram \<Rightarrow> port \<Rightarrow> pending_zones \<times> Router \<Rightarrow> (pending_zones \<times> Router) \<times> effect list" where
  "handleZip env d rx = (\<lambda>(pending, r).
     if DDPType d = zipDDPType then
       if length (Data d) < 2 then ((pending, r), [])
       else if hd (Data d) = FuncReply then ((pending, handleReply d r), [])
       else if hd (Data d) = FuncExtReply then (handleExtReply d pending r, [])
       else if hd (Data d) = FuncQuery then ((pending, r), handleQuery env r d rx)
       else if hd (Data d) = FuncGetNetInfoReq then ((pending, r), handleGetNetInfo env r d rx)
       else ((pending, r), [])
     else if DDPType d = ATPDDPType then
       if length (Data d) \<noteq> 8 then ((pending, r), [])
       else if Data d ! 0 \<noteq> ATPFuncTReq \<or> Data d ! 1 \<noteq> 1 \<or> Data d ! 5 \<noteq> 0 then ((pending, r), [])
       else if Data d ! 4 = ATPGetMyZone then ((pending, r), handleGetMyZone env r d rx)
       else if Data d ! 4 = ATPGetZoneList then ((pending, r), handleGetZoneList env r d rx False)
       else if Data d ! 4 = ATPGetLocalZoneList then ((pending, r), handleGetZoneList env r d rx True)
       else ((pending, r), [])
     else ((pending, r), []))"

definition askZones :: "port_env \<Rightarrow> Router \<Rightarrow> RoutingTableEntry \<Rightarrow> effect list" where
  "askZones env r e =
    (let p = Port e; ps = env p;
         known = (case RouterZonesInNetworkRange r (NetworkMin e) (Some (NetworkMax e)) of
                    Inr zs \<Rightarrow> zs \<noteq> [] | Inl _ \<Rightarrow> False);
         query = \<lparr>HopCount = 0, DestinationNetwork = 0, SourceNetwork = portNetwork ps, DestinationNode = 0xFF,
                  SourceNode = portNode ps, DestinationSocket = zipSAS, SourceSocket = zipSAS,
                  DDPType = zipDDPType, Data = [FuncQuery, 1, hi8 (NetworkMin e), lo8 (NetworkMin e)]\<rparr> in
     if known then []
     else if portNode ps = 0 \<or> portNetwork ps = 0 then []
     else if Distance e = 0 then [Broadcast p query]
     else [Unicast p (NextNetwork e) (NextNode e)
             (query\<lparr>DestinationNetwork := NextNetwork e, DestinationNode := NextNode e\<rparr>)])"

definition zipSendTick :: "port_env \<Rightarrow> Router \<Rightarrow> effect list" where
  "zipSendTick env r = concat (map (\<lambda>(e, _). askZones env r e) (RoutingEntries r))"

section \<open>The handlers keep the router's invariant\<close>

lemma commitZone_inv: "router_inv r \<Longrightarrow> router_inv (commitZone x r)"
  by (auto simp: commitZone_def RouterAddNetworksToZone_inv split: prod.split option.split)

lemma handleReply_inv: "router_inv r \<Longrightarrow> router_inv (handleReply d r)"
proof -
  have "router_inv s \<Longrightarrow> router_inv (fold commitZone xs s)" for xs s
    by (induction xs arbitrary: s) (auto intro: commitZone_inv)
  then show "router_inv r \<Longrightarrow> router_inv (handleReply d r)" by (simp add: handleReply_def)
qed

lemma commit_fold_inv:
  "router_inv r \<Longrightarrow> router_inv (fold (\<lambda>z r. snd (RouterAddNetworksToZone r z lo mx)) zones r)"
  by (induction zones arbitrary: r) (auto intro: RouterAddNetworksToZone_inv)

lemma handleExtReply_inv: "router_inv r \<Longrightarrow> router_inv (snd (handleExtReply d pending r))"
  by (auto simp: handleExtReply_def Let_def commit_fold_inv split: option.split)

lemma handleZip_inv: "router_inv r \<Longrightarrow> router_inv (snd (fst (handleZip env d rx (pending, r))))"
  by (simp add: handleZip_def handleReply_inv handleExtReply_inv)

section \<open>Query packets\<close>

lemma zipTuples_short [simp]: "zipTuples [] = []"
  by (subst zipTuples.simps) simp

lemma zipTuples_item:
  assumes "1 \<le> length z" "length z < 256"
  shows "zipTuples (zoneItem nmin z @ rest) = (nmin, z) # zipTuples rest"
proof -
  have "unat (lenByte z) = length z" by (rule unat_lenByte [OF assms(2)])
  moreover then have "lenByte z \<noteq> 0" using assms(1) by auto
  ultimately show ?thesis by (subst zipTuples.simps) (simp add: zoneItem_def)
qed

lemma zipTuples_items:
  "\<forall>z \<in> set zs. 1 \<le> length z \<and> length z < 256 \<Longrightarrow>
     zipTuples (concat (map (zoneItem nmin) zs)) = map (Pair nmin) zs"
  by (induction zs) (auto simp: zipTuples_item)

text \<open>Every packet is the header followed by whole items, and the items are those of the zones in order.\<close>

lemma packZones_split:
  assumes "\<forall>z \<in> set zs. length z < 256"
  shows "\<exists>parts. packZones nmin count zs ([FuncExtReply, count] @ concat (map (zoneItem nmin) ds)) =
      map (\<lambda>part. [FuncExtReply, count] @ concat (map (zoneItem nmin) part)) parts \<and> concat parts = ds @ zs \<and>
      [] \<notin> set parts \<and>
      (length ([FuncExtReply, count] @ concat (map (zoneItem nmin) ds)) \<le> MaxDataLength \<longrightarrow>
       (\<forall>part \<in> set parts. length ([FuncExtReply, count] @ concat (map (zoneItem nmin) part)) \<le> MaxDataLength))"
  using assms
proof (induction zs arbitrary: ds)
  case Nil
  show ?case
  proof (cases ds)
    case Nil
    then show ?thesis by (intro exI [of _ "[]"]) simp
  next
    case (Cons z zs)
    then show ?thesis by (intro exI [of _ "[ds]"]) (simp add: zoneItem_def)
  qed
next
  case (Cons z zs)
  let ?buf = "[FuncExtReply, count] @ concat (map (zoneItem nmin) ds)"
  show ?case
  proof (cases "length ?buf + length (zoneItem nmin z) > MaxDataLength")
    case False
    then have "packZones nmin count (z # zs) ?buf = packZones nmin count zs ([FuncExtReply, count] @ concat (map (zoneItem nmin) (ds @ [z])))"
      by simp
    moreover have "length ([FuncExtReply, count] @ concat (map (zoneItem nmin) (ds @ [z]))) \<le> MaxDataLength"
      using False by simp
    ultimately show ?thesis using Cons.IH [of "ds @ [z]"] Cons.prems by simp
  next
    case True
    obtain parts where p: "packZones nmin count zs ([FuncExtReply, count] @ concat (map (zoneItem nmin) [z])) =
        map (\<lambda>part. [FuncExtReply, count] @ concat (map (zoneItem nmin) part)) parts" "concat parts = [z] @ zs"
        "[] \<notin> set parts"
        "length ([FuncExtReply, count] @ concat (map (zoneItem nmin) [z])) \<le> MaxDataLength \<longrightarrow>
          (\<forall>part \<in> set parts. length ([FuncExtReply, count] @ concat (map (zoneItem nmin) part)) \<le> MaxDataLength)"
      using Cons.IH [of "[z]"] Cons.prems by auto
    have "length z < 256" using Cons.prems by simp
    then have "length ([FuncExtReply, count] @ concat (map (zoneItem nmin) [z])) \<le> MaxDataLength"
      by (simp add: zoneItem_def MaxDataLength_def)
    moreover have "ds \<noteq> []" using True \<open>length z < 256\<close> by (auto simp: zoneItem_def MaxDataLength_def)
    ultimately show ?thesis
      using True p by (intro exI [of _ "ds # parts"]) simp
  qed
qed

section \<open>Collecting extended replies\<close>

definition receiveAll :: "Datagram \<Rightarrow> bytes list \<Rightarrow> pending_zones \<times> Router \<Rightarrow> pending_zones \<times> Router" where
  "receiveAll d pkts s = fold (\<lambda>pkt (pending, r). handleExtReply (d\<lparr>Data := pkt\<rparr>) pending r) pkts s"

definition pendingAt :: "pending_zones \<Rightarrow> u16 \<Rightarrow> (bytes, unit) gomap" where
  "pendingAt pending n = (case map_of pending n of None \<Rightarrow> [] | Some zs \<Rightarrow> zs)"

lemma update_new: "k \<notin> fst ` set m \<Longrightarrow> AList.update k v m = m @ [(k, v)]"
  by (induction m) auto

lemma pendingAt_add:
  assumes "distinct (cur @ part)" "pendingAt pending lo = map (\<lambda>z. (z, ())) cur"
  shows "pendingAt (fold addPending (map (Pair lo) part) pending) lo = map (\<lambda>z. (z, ())) (cur @ part)"
  using assms
proof (induction part arbitrary: cur pending)
  case (Cons z part)
  have "pendingAt (addPending (lo, z) pending) lo = AList.update z () (pendingAt pending lo)"
    by (simp add: pendingAt_def addPending_def)
  also have "\<dots> = map (\<lambda>z. (z, ())) (cur @ [z])"
    using Cons.prems by (subst update_new) (auto simp: image_image)
  finally show ?case using Cons.IH [of "cur @ [z]" "addPending (lo, z) pending"] Cons.prems(1) by simp
qed simp

text \<open>The handler on one packet of a reply.\<close>

lemma handleExtReply_packet:
  assumes part: "part \<noteq> []" "\<forall>z \<in> set part. 1 \<le> length z \<and> length z < 256" and dist: "distinct (cur @ part)"
    and cur: "pendingAt pending lo = map (\<lambda>z. (z, ())) cur" and n: "1 \<le> unat count"
    and e: "GetByNetwork (routingTable r) lo = Some ((a, e), bad)"
  defines "p' \<equiv> fold addPending (map (Pair lo) part) pending"
  shows "handleExtReply (d\<lparr>Data := [FuncExtReply, count] @ concat (map (zoneItem lo) part)\<rparr>) pending r =
    (if unat count \<le> length (cur @ part)
     then (AList.delete lo p', fold (\<lambda>z r. snd (RouterAddNetworksToZone r z lo (Some (NetworkMax e)))) (cur @ part) r)
     else (p', r))"
proof -
  have t: "zipTuples (concat (map (zoneItem lo) part)) = map (Pair lo) part" by (rule zipTuples_items [OF part(2)])
  have keys: "(case map_of p' lo of None \<Rightarrow> [] | Some zs \<Rightarrow> map fst zs) = cur @ part"
    using pendingAt_add [OF dist cur] by (auto simp: pendingAt_def p'_def comp_def split: option.splits)
  have last: "fst (last (map (Pair lo) part)) = lo" using part(1) by (simp add: last_map)
  have flen: "2 \<le> length ([FuncExtReply, count] @ concat (map (zoneItem lo) part))" by simp
  show ?thesis
    using n part(1) unfolding handleExtReply_def
    by (simp add: t last keys p'_def [symmetric] e Let_def del: map_append)
qed

lemma receive_parts:
  assumes "[] \<notin> set parts" "parts \<noteq> []" "\<forall>z \<in> set (concat parts). 1 \<le> length z \<and> length z < 256"
    and "distinct (cur @ concat parts)" "pendingAt pending lo = map (\<lambda>z. (z, ())) cur"
    and "unat count = length (cur @ concat parts)" "GetByNetwork (routingTable r) lo = Some ((a, e), bad)"
  shows "snd (receiveAll d (map (\<lambda>part. [FuncExtReply, count] @ concat (map (zoneItem lo) part)) parts) (pending, r)) =
    fold (\<lambda>z r. snd (RouterAddNetworksToZone r z lo (Some (NetworkMax e)))) (cur @ concat parts) r"
  using assms
proof (induction parts arbitrary: cur pending)
  case (Cons part rest)
  let ?f = "\<lambda>part. [FuncExtReply, count] @ concat (map (zoneItem lo) part)"
  let ?p = "fold addPending (map (Pair lo) part) pending"
  have part: "part \<noteq> []" "\<forall>z \<in> set part. 1 \<le> length z \<and> length z < 256" "distinct (cur @ part)" "1 \<le> unat count"
    using Cons.prems by (auto simp: Suc_le_eq)
  note H = handleExtReply_packet [OF part(1,2,3) Cons.prems(5) part(4) Cons.prems(7), of d]
  show ?case
  proof (cases "rest = []")
    case True
    then show ?thesis using H Cons.prems(6) by (simp add: receiveAll_def)
  next
    case False
    have "concat rest \<noteq> []" using Cons.prems(1) False by (cases rest) auto
    then have "\<not> unat count \<le> length (cur @ part)" using Cons.prems(6) by simp
    then have "handleExtReply (d\<lparr>Data := ?f part\<rparr>) pending r = (?p, r)" using H by simp
    moreover have "pendingAt ?p lo = map (\<lambda>z. (z, ())) (cur @ part)"
      by (rule pendingAt_add [OF part(3) Cons.prems(5)])
    moreover have "snd (receiveAll d (map ?f rest) (?p, r)) =
        fold (\<lambda>z r. snd (RouterAddNetworksToZone r z lo (Some (NetworkMax e)))) ((cur @ part) @ concat rest) r"
      by (rule Cons.IH) (use Cons.prems False calculation in auto)
    ultimately show ?thesis by (simp add: receiveAll_def)
  qed
qed simp

section \<open>Committing zones\<close>

lemma commit_zit:
  "zit (routingTable (fold (\<lambda>z r. snd (RouterAddNetworksToZone r z lo mx)) zones r)) =
     fold (\<lambda>z t. snd (AddNetworksToZone t z lo mx)) zones (zit (routingTable r))"
  by (induction zones arbitrary: r) (simp_all add: RouterAddNetworksToZone_def case_prod_unfold Let_def)

lemma add_accepts:
  assumes inv: "zit_inv z" and ok: "checkRange z lo (Some hi) = Inr x" and "lo \<le> hi"
  shows "\<exists>z'. AddNetworksToZone z zn lo (Some hi) = (None, z')"
proof -
  obtain k z1 where reg: "registerZone z zn = (k, z1)" by fastforce
  note R = registerZone_inv [OF inv reg]
  have "checkRange z1 lo (Some hi) = Inr x" using ok by (simp only: checkRange_def R(4))
  moreover obtain m ex where x: "x = (m, ex)" by (cases x)
  moreover have "map_of (networkMinToZones z1) lo \<noteq> None" if ex
    using that calculation R(1) unfolding zit_inv_def zit_ranges_def
    by (metis (full_types) checkRange_exists option.distinct(1))
  ultimately show ?thesis
    using \<open>lo \<le> hi\<close> R(2) by (auto simp: AddNetworksToZone_def reg addMin_def not_less split: option.splits)
qed

lemma commit_all:
  assumes inv: "zit_inv z" and ok: "checkRange z lo (Some hi) = Inr x" and "lo \<le> hi" and zn: "zn \<in> set zns"
  shows "\<exists>k. sameZone k zn \<and> (lo, hi, k) \<in> zoneRel (fold (\<lambda>zn z. snd (AddNetworksToZone z zn lo (Some hi))) zns z)"
proof (cases zns)
  case (Cons y ys)
  obtain z' where a: "AddNetworksToZone z y lo (Some hi) = (None, z')"
    using add_accepts [OF inv ok \<open>lo \<le> hi\<close>] by blast
  obtain k where k: "sameZone k y" "zoneRel z' = insert (lo, hi, k) (zoneRel z)"
    using zit.add_done [OF inv a] by auto
  have inv': "zit_inv z'" by (rule zit.add_invar [OF inv a])
  show ?thesis
  proof (cases "zn = y")
    case True
    then show ?thesis using k zit.commit_mono [OF inv', of lo "Some hi" ys] Cons a by auto
  next
    case False
    then show ?thesis using zit.commit_complete [OF inv', of lo hi k zn ys] k Cons a zn by simp
  qed
qed (use zn in simp)

lemma ZonesInNetworkRange_distinct:
  assumes inv: "zit_inv z" and "ZonesInNetworkRange z n mx = Inr zones"
  shows "distinct zones"
proof -
  have "distinct (map snd zs)" if "map_of (networkMinToZones z) n = Some zs" for zs
  proof -
    have "wf_gomap zs" "\<forall>k v. map_of zs k = Some v \<longrightarrow> v = k"
      using inv that by (auto simp: zit_inv_def zit_wf_def)
    then have "map snd zs = map fst zs" by (auto simp: wf_gomap_mem_iff [symmetric])
    with \<open>wf_gomap zs\<close> show ?thesis by (simp only:)
  qed
  then show ?thesis
    using assms(2) by (auto simp: ZonesInNetworkRange_def Let_def split: sum.splits if_splits option.splits prod.splits)
qed

section \<open>Properties\<close>


definition sample_zoned :: Router where
  "sample_zoned = sample_router\<lparr>routingTable := sample_table\<lparr>zit := zit_after [ZAdd [65] 3 (Some 5), ZAdd [66] 3 None]\<rparr>\<rparr>"

lemma sample_inv: "router_inv sample_router" "router_inv sample_zoned"
proof -
  show s: "router_inv sample_router"
    using rt_after_inv [OF sample_after] by (simp add: router_inv_def sample_router_def)
  show "router_inv sample_zoned"
    unfolding sample_zoned_def
    by (intro router_inv_table [OF s] zit_update_inv [OF rt_after_inv [OF sample_after]] zit_runs.invar_run)
qed


text \<open>
  A client that pages through an unchanged zone list gets every zone once: starting at index 1
  and advancing by the number of zones received, it reads the whole list in order within as many
  requests as there are zones, each page fits into an ATP packet, and the last page says so.
\<close>

fun parsePage :: "nat \<Rightarrow> bytes \<Rightarrow> bytes list" where
  "parsePage 0 data = []"
| "parsePage (Suc n) [] = []"
| "parsePage (Suc n) (l # data) = take (unat l) data # parsePage n (drop (unat l) data)"

fun readZoneList :: "bytes list \<Rightarrow> nat \<Rightarrow> nat \<Rightarrow> bytes list option" where
  "readZoneList zones i 0 = None"
| "readZoneList zones i (Suc fuel) =
    (let (lastFlag, n, page) = zonePage zones i in
     if lastFlag = 1 then Some (parsePage n page)
     else map_option (\<lambda>rest. parsePage n page @ rest) (readZoneList zones (i + n) fuel))"

definition pageBytes :: "bytes list \<Rightarrow> bytes" where
  "pageBytes zones = concat (map (\<lambda>z. lenByte z # z) zones)"

lemma parsePage_pageBytes: "\<forall>z \<in> set zs. length z < 256 \<Longrightarrow> parsePage (length zs) (pageBytes zs @ rest) = zs"
  by (induction zs) (auto simp: pageBytes_def unat_lenByte)

lemma fillPage_spec:
  assumes "zones \<noteq> []" "\<forall>z \<in> set zones. length z < 256" "8 + length (pageBytes got) \<le> MaxDataLength"
  shows "\<exists>here rest. zones = here @ rest \<and> fillPage zones (pageBytes got) (length got) =
      (if rest = [] then 1 else 0, length got + length here, pageBytes (got @ here)) \<and>
      8 + length (pageBytes (got @ here)) \<le> MaxDataLength \<and> (got = [] \<longrightarrow> here \<noteq> [])"
  using assms
proof (induction zones arbitrary: got)
  case (Cons z zones)
  show ?case
  proof (cases "8 + length (pageBytes got) + 1 + length z > MaxDataLength")
    case True
    moreover have "got \<noteq> []" using True Cons.prems(2) by (auto simp: pageBytes_def MaxDataLength_def)
    ultimately show ?thesis using Cons.prems(3) by (intro exI [of _ "[]"] exI [of _ "z # zones"]) simp
  next
    case False
    have step: "pageBytes got @ lenByte z # z = pageBytes (got @ [z])" by (simp add: pageBytes_def)
    show ?thesis
    proof (cases "zones = []")
      case True
      then show ?thesis
        using False step by (intro exI [of _ "[z]"] exI [of _ "[]"]) (auto simp: pageBytes_def)
    next
      case ne: False
      have "8 + length (pageBytes (got @ [z])) \<le> MaxDataLength" using False by (simp add: pageBytes_def)
      then obtain here rest where IH: "zones = here @ rest" "fillPage zones (pageBytes (got @ [z])) (length (got @ [z])) =
          (if rest = [] then 1 else 0, length (got @ [z]) + length here, pageBytes ((got @ [z]) @ here))"
          "8 + length (pageBytes ((got @ [z]) @ here)) \<le> MaxDataLength"
        using Cons.IH [OF ne, of "got @ [z]"] Cons.prems(2) by auto
      then show ?thesis
        using False ne step by (intro exI [of _ "z # here"] exI [of _ rest]) simp
    qed
  qed
qed simp


lemma zonePage_spec:
  assumes "k < length zones" "\<forall>z \<in> set zones. length z < 256"
  shows "\<exists>here rest. drop k zones = here @ rest \<and> here \<noteq> [] \<and>
    zonePage zones (Suc k) = (if rest = [] then 1 else 0, length here, pageBytes here) \<and>
    8 + length (pageBytes here) \<le> MaxDataLength"
proof -
  have ne: "drop k zones \<noteq> []" "\<forall>z \<in> set (drop k zones). length z < 256"
    using assms by (auto dest: in_set_dropD)
  have page: "zonePage zones (Suc k) = fillPage (drop k zones) [] 0"
    by (simp add: zonePage_def)
  have "8 + length (pageBytes []) \<le> MaxDataLength" by (simp add: pageBytes_def MaxDataLength_def)
  from fillPage_spec [OF ne this] show ?thesis
    unfolding page by (elim exE conjE, intro exI conjI) (auto simp: pageBytes_def [of "[]"])
qed

lemma readZoneList_from:
  assumes "k < length zones" "\<forall>z \<in> set zones. length z < 256" "length zones - k \<le> fuel"
  shows "readZoneList zones (Suc k) fuel = Some (drop k zones)"
  using assms
proof (induction fuel arbitrary: k)
  case (Suc fuel)
  obtain here rest where P: "drop k zones = here @ rest" "here \<noteq> []"
      "zonePage zones (Suc k) = (if rest = [] then 1 else 0, length here, pageBytes here)"
    using zonePage_spec [OF Suc.prems(1,2)] by blast
  have "set here \<subseteq> set zones" using P(1) by (metis Un_upper1 order_trans set_append set_drop_subset)
  then have parse: "parsePage (length here) (pageBytes here) = here"
    using parsePage_pageBytes [of here "[]"] Suc.prems(2) by auto
  show ?case
  proof (cases "rest = []")
    case True
    then show ?thesis using P parse by simp
  next
    case False
    have len: "length zones - k = length here + length rest" using P(1) by (metis length_append length_drop)
    have "drop (k + length here) zones = rest" using P(1) by (metis add.commute append_eq_conv_conj drop_drop)
    moreover have "readZoneList zones (Suc (k + length here)) fuel = Some (drop (k + length here) zones)"
      using Suc.prems len False P(2) by (intro Suc.IH) (cases here; cases rest; auto)+
    ultimately show ?thesis using P False parse by simp
  qed
qed simp

theorem zip_zone_list_pages:
  assumes "zones \<noteq> []" "\<forall>z \<in> set zones. length z < 256"
  shows "readZoneList zones 1 (length zones) = Some zones \<and>
    (\<forall>i. 8 + length (snd (snd (zonePage zones i))) \<le> MaxDataLength)"
proof
  show "readZoneList zones 1 (length zones) = Some zones"
    using readZoneList_from [of 0 zones "length zones"] assms by simp
  show "\<forall>i. 8 + length (snd (snd (zonePage zones i))) \<le> MaxDataLength"
  proof
    fix i
    have z: "zonePage zones 0 = zonePage zones 1" by (simp add: zonePage_def)
    consider "i = 0" | k where "i = Suc k" "k < length zones" | k where "i = Suc k" "length zones \<le> k"
      by (cases i) (auto simp: not_less [symmetric])
    then show "8 + length (snd (snd (zonePage zones i))) \<le> MaxDataLength"
    proof cases
      case 1
      then show ?thesis using zonePage_spec [of 0 zones] assms z by auto
    next
      case (2 k)
      then show ?thesis using zonePage_spec [of k zones] assms by auto
    next
      case (3 k)
      then show ?thesis by (cases k) (auto simp: zonePage_def MaxDataLength_def)
    qed
  qed
qed

theorem zip_zone_list_pages_witness:
  "readZoneList [[65], [66, 67]] 1 2 = Some [[65], [66, 67]]"
  using zip_zone_list_pages [of "[[65], [66, 67]]"] by (simp add: numeral_2_eq_2)

text \<open>
  A defect of the paging: a request that starts behind the end of the list is answered with no
  zones and without the mark of the last page, so a client whose list shrank between two requests,
  or that asks a router without zones, is never told to stop.
\<close>

theorem zip_zone_list_never_last:
  assumes "length zones < startIndex"
  shows "zonePage zones startIndex = (0, 0, [])"
proof (cases "startIndex > 1")
  case True
  then show ?thesis using assms by (simp add: zonePage_def)
next
  case False
  then have "zones = []" using assms by (cases zones) auto
  then show ?thesis using False by (simp add: zonePage_def)
qed

theorem zip_zone_list_never_last_witness: "zonePage [[65]] 2 = (0, 0, [])"
  by (rule zip_zone_list_never_last) simp

end
