(* ===== verification/Binutil.thy ===== *)
theory Binutil
  imports Go_Prelude
begin

text \<open>
  The wire helpers of \<^verbatim>\<open>pkg/binutil/binutil.go\<close>. A \<open>Put\<close> function writes into the
  buffer of its caller, so its result carries the number of bytes written and the buffer
  afterwards; a \<open>Get\<close> function gives the value and the number of bytes read. The locale
  \<open>wire_field\<close> is the contract of a pair of them, and every pair of the file provides it.
\<close>

type_synonym u64 = "64 word"

datatype wire_error = ErrShortBuffer | ErrMalformedWire

section \<open>Operations\<close>

text \<open>\<open>copy(b, bs)\<close> into a buffer that is long enough.\<close>

definition overwrite :: "bytes \<Rightarrow> bytes \<Rightarrow> bytes" where
  "overwrite bs b = bs @ drop (length bs) b"

definition put64 :: "u64 \<Rightarrow> bytes" where
  "put64 n = put32 (ucast (drop_bit 32 n)) @ put32 (ucast n)"

definition be64 :: "u32 \<Rightarrow> u32 \<Rightarrow> u64" where
  "be64 h l = push_bit 32 (ucast h) OR ucast l"

definition PutU8 :: "bytes \<Rightarrow> u8 \<Rightarrow> wire_error + nat \<times> bytes" where
  "PutU8 b v = (if length b < 1 then Inl ErrShortBuffer else Inr (1, overwrite [v] b))"

definition PutU16 :: "bytes \<Rightarrow> u16 \<Rightarrow> wire_error + nat \<times> bytes" where
  "PutU16 b v = (if length b < 2 then Inl ErrShortBuffer else Inr (2, overwrite (put16 v) b))"

definition PutU32 :: "bytes \<Rightarrow> u32 \<Rightarrow> wire_error + nat \<times> bytes" where
  "PutU32 b v = (if length b < 4 then Inl ErrShortBuffer else Inr (4, overwrite (put32 v) b))"

definition PutU64 :: "bytes \<Rightarrow> u64 \<Rightarrow> wire_error + nat \<times> bytes" where
  "PutU64 b v = (if length b < 8 then Inl ErrShortBuffer else Inr (8, overwrite (put64 v) b))"

definition GetU8 :: "bytes \<Rightarrow> wire_error + u8 \<times> nat" where
  "GetU8 b = (if length b < 1 then Inl ErrShortBuffer else Inr (b ! 0, 1))"

definition GetU16 :: "bytes \<Rightarrow> wire_error + u16 \<times> nat" where
  "GetU16 b = (if length b < 2 then Inl ErrShortBuffer else Inr (be16 (b ! 0) (b ! 1), 2))"

definition GetU32 :: "bytes \<Rightarrow> wire_error + u32 \<times> nat" where
  "GetU32 b = (if length b < 4 then Inl ErrShortBuffer
               else Inr (be32 (b ! 0) (b ! 1) (b ! 2) (b ! 3), 4))"

definition GetU64 :: "bytes \<Rightarrow> wire_error + u64 \<times> nat" where
  "GetU64 b = (if length b < 8 then Inl ErrShortBuffer
               else Inr (be64 (be32 (b ! 0) (b ! 1) (b ! 2) (b ! 3)) (be32 (b ! 4) (b ! 5) (b ! 6) (b ! 7)), 8))"

text \<open>The \<open>Write\<close> functions append to an in-memory buffer.\<close>

definition WriteU8 :: "bytes \<Rightarrow> u8 \<Rightarrow> bytes" where
  "WriteU8 w v = w @ [v]"

definition WriteU16 :: "bytes \<Rightarrow> u16 \<Rightarrow> bytes" where
  "WriteU16 w v = w @ put16 v"

definition WriteU32 :: "bytes \<Rightarrow> u32 \<Rightarrow> bytes" where
  "WriteU32 w v = w @ put32 v"

definition WriteU64 :: "bytes \<Rightarrow> u64 \<Rightarrow> bytes" where
  "WriteU64 w v = w @ put64 v"

definition PutPString :: "bytes \<Rightarrow> bytes \<Rightarrow> wire_error + nat \<times> bytes" where
  "PutPString b s =
    (if length s > 255 then Inl ErrMalformedWire
     else if length b < 1 + length s then Inl ErrShortBuffer
     else Inr (1 + length s, overwrite (word_of_nat (length s) # s) b))"

definition GetPString :: "bytes \<Rightarrow> wire_error + bytes \<times> nat" where
  "GetPString b =
    (if length b < 1 then Inl ErrShortBuffer
     else let n = unat (b ! 0) in
       if length b < 1 + n then Inl ErrShortBuffer
       else Inr (take n (drop 1 b), 1 + n))"

section \<open>The contract of a wire field\<close>

text \<open>
  \<open>image v\<close> is the encoding of \<open>v\<close>. Writing needs room for exactly the encoding and changes
  nothing behind it; reading takes exactly the encoding off the front of any buffer.
\<close>

locale wire_field =
  fixes valid :: "'v \<Rightarrow> bool"
    and image :: "'v \<Rightarrow> bytes"
    and put :: "bytes \<Rightarrow> 'v \<Rightarrow> wire_error + nat \<times> bytes"
    and get :: "bytes \<Rightarrow> wire_error + 'v \<times> nat"
  assumes put_image: "valid v \<Longrightarrow> put b v =
      (if length b < length (image v) then Inl ErrShortBuffer
       else Inr (length (image v), overwrite (image v) b))"
    and get_image: "valid v \<Longrightarrow> get (image v @ rest) = Inr (v, length (image v))"
    and get_prefix: "get b = Inr (v, n) \<Longrightarrow> valid v \<and> b = image v @ drop n b \<and> n = length (image v)"
begin

lemma put_get: "valid v \<Longrightarrow> put b v = Inr (n, b') \<Longrightarrow> get b' = Inr (v, n) \<and> drop n b' = drop n b"
  by (auto simp: put_image overwrite_def get_image split: if_splits)

lemma put_length: "valid v \<Longrightarrow> put b v = Inr (n, b') \<Longrightarrow> length b' = length b \<and> n \<le> length b"
  by (auto simp: put_image overwrite_def split: if_splits)

lemma put_fails_iff: "valid v \<Longrightarrow> (\<exists>e. put b v = Inl e) \<longleftrightarrow> length b < length (image v)"
  by (simp add: put_image)

lemma get_put: "get b = Inr (v, n) \<Longrightarrow> put b v = Inr (n, b)"
proof -
  assume "get b = Inr (v, n)"
  then have v: "valid v" and b: "b = image v @ drop n b" and n: "n = length (image v)"
    using get_prefix by blast+
  from b n have "overwrite (image v) b = b" by (simp add: overwrite_def)
  moreover have "\<not> length b < length (image v)" using arg_cong [OF b, of length] n by simp
  ultimately show ?thesis using v n by (simp add: put_image)
qed

end

lemma length_put64 [simp]: "length (put64 n) = 8"
  by (simp add: put64_def)

lemma be64_put64 [simp]: "be64 (ucast (drop_bit 32 n)) (ucast n) = n"
  unfolding be64_def by (rule bit_word_eqI) (auto simp: bit_simps not_less)

lemma bit_beyond:
  "\<not> bit (w :: u8) (8 + n)" "\<not> bit (w :: u8) (16 + n)" "\<not> bit (w :: u8) (24 + n)"
  "\<not> bit (v :: u32) (32 + n)"
  by (auto dest: bit_imp_le_length)

lemma put32_be32: "put32 (be32 a b c d) = [a, b, c, d]"
  unfolding put32_def be32_def
  by (auto intro!: bit_word_eqI simp: bit_simps bit_beyond)

lemma be64_halves:
  "ucast (drop_bit 32 (be64 h l)) = h" "ucast (be64 h l) = l"
  unfolding be64_def
  by (auto intro!: bit_word_eqI simp: bit_simps bit_beyond)

lemma split_first: "b \<noteq> [] \<Longrightarrow> b = b ! 0 # drop (Suc 0) b"
  by (cases b) auto

lemma take_nths:
  "2 \<le> length b \<Longrightarrow> b = [b ! 0, b ! 1] @ drop 2 b"
  "4 \<le> length b \<Longrightarrow> b = [b ! 0, b ! 1, b ! 2, b ! 3] @ drop 4 b"
  "8 \<le> length b \<Longrightarrow> b = [b ! 0, b ! 1, b ! 2, b ! 3, b ! 4, b ! 5, b ! 6, b ! 7] @ drop 8 b"
  by (auto simp: numeral_eq_Suc Suc_le_length_iff)

interpretation field8: wire_field "\<lambda>_. True" "\<lambda>v. [v]" PutU8 GetU8
  by unfold_locales (auto simp: PutU8_def GetU8_def overwrite_def intro: split_first split: if_splits)

interpretation field16: wire_field "\<lambda>_. True" put16 PutU16 GetU16
proof
  show "GetU16 b = Inr (v, n) \<Longrightarrow> True \<and> b = put16 v @ drop n b \<and> n = length (put16 v)" for b v n
    using take_nths(1) [of b] by (auto simp: GetU16_def put16_def split: if_splits)
qed (simp_all add: PutU16_def GetU16_def overwrite_def put16_def)

interpretation field32: wire_field "\<lambda>_. True" put32 PutU32 GetU32
proof
  show "GetU32 b = Inr (v, n) \<Longrightarrow> True \<and> b = put32 v @ drop n b \<and> n = length (put32 v)" for b v n
    using take_nths(2) [of b] by (auto simp: GetU32_def put32_be32 split: if_splits)
qed (simp_all add: PutU32_def GetU32_def overwrite_def put32_def)

interpretation field64: wire_field "\<lambda>_. True" put64 PutU64 GetU64
proof
  show "GetU64 b = Inr (v, n) \<Longrightarrow> True \<and> b = put64 v @ drop n b \<and> n = length (put64 v)" for b v n
    using take_nths(3) [of b] by (auto simp: GetU64_def put64_def be64_halves put32_be32 split: if_splits)
qed (simp_all add: PutU64_def GetU64_def overwrite_def put64_def put32_def)

interpretation pstring: wire_field "\<lambda>s. length s \<le> 255" "\<lambda>s. word_of_nat (length s) # s" PutPString GetPString
proof
  show "GetPString b = Inr (v, n) \<Longrightarrow>
      length v \<le> 255 \<and> b = (word_of_nat (length v) # v) @ drop n b \<and> n = length (word_of_nat (length v) # v)" for b v n
  proof -
    assume "GetPString b = Inr (v, n)"
    moreover from this obtain c rest where b: "b = c # rest" by (cases b) (auto simp: GetPString_def)
    moreover have "unat c \<le> 255" using unsigned_less [of c, where ?'a = nat] by simp
    ultimately show ?thesis by (auto simp: GetPString_def Let_def min_def split: if_splits)
  qed
qed (auto simp: PutPString_def GetPString_def overwrite_def Let_def unat_of_nat take_bit_eq_mod)

end
