(* ===== verification/Atp.thy ===== *)
theory Atp
  imports Binutil
begin

text \<open>
  The AppleTalk Transaction Protocol: the header of \<^verbatim>\<open>protocol/atp/atp.go\<close> and the
  transaction engine of \<^verbatim>\<open>service/atp/transaction.go\<close>.

  Control blocks are shared between the tables of the endpoint, the timers and the handles the
  callers hold, so they live in a store: a pointer is an index into a list that only grows, and
  an update through one holder is seen by all. Calls on the sender, the clock, the request
  handler and the channel of a waiting caller are the effects an operation returns, in the order
  of the code. A reply function is a stored closure, since a handler may call it at any later
  time. Each operation is one atomic step, as the endpoint's mutex makes it; \<open>SendRequest\<close>
  gives the mutex up once, so it is two steps, and anything may happen between them. Timers run
  at any time: every statement about runs allows a timer callback for any control block, whether
  its timer has been stopped or not.
\<close>

section \<open>Header\<close>

record Header =
  Control :: u8
  Bitmap :: u8
  TransID :: u16
  UserData :: u32

abbreviation TREQ :: u8 where "TREQ \<equiv> 0x40"
abbreviation TRESP :: u8 where "TRESP \<equiv> 0x80"
abbreviation TREL :: u8 where "TREL \<equiv> 0xC0"
abbreviation XOBit :: u8 where "XOBit \<equiv> 0x20"
abbreviation EOMBit :: u8 where "EOMBit \<equiv> 0x10"
abbreviation STSBit :: u8 where "STSBit \<equiv> 0x08"

abbreviation HeaderSize :: nat where "HeaderSize \<equiv> 8"
abbreviation MaxResponsePackets :: nat where "MaxResponsePackets \<equiv> 8"
abbreviation MaxATPData :: nat where "MaxATPData \<equiv> 578"

definition FuncCode :: "Header \<Rightarrow> u8" where
  "FuncCode h = Control h AND 0xC0"

definition XO :: "Header \<Rightarrow> bool" where
  "XO h \<longleftrightarrow> Control h AND XOBit \<noteq> 0"

definition EOM :: "Header \<Rightarrow> bool" where
  "EOM h \<longleftrightarrow> Control h AND EOMBit \<noteq> 0"

definition STS :: "Header \<Rightarrow> bool" where
  "STS h \<longleftrightarrow> Control h AND STSBit \<noteq> 0"

text \<open>\<open>time.Duration\<close> is a number of nanoseconds.\<close>

type_synonym duration = int

definition Duration :: "u8 \<Rightarrow> duration" where
  "Duration t = (if t = 0 then 30 * 10^9 else if t = 1 then 60 * 10^9 else if t = 2 then 120 * 10^9
     else if t = 3 then 240 * 10^9 else if t = 4 then 480 * 10^9 else 30 * 10^9)"

definition GetTRelTimeout :: "Header \<Rightarrow> u8" where
  "GetTRelTimeout h = Control h AND 7"

definition SetTRelTimeout :: "u8 \<Rightarrow> Header \<Rightarrow> Header" where
  "SetTRelTimeout t h = h\<lparr>Control := (Control h AND NOT 7) OR (t AND 7)\<rparr>"

definition headerImage :: "Header \<Rightarrow> bytes" where
  "headerImage h = [Control h, Bitmap h] @ put16 (TransID h) @ put32 (UserData h)"

definition MarshalWire :: "bytes \<Rightarrow> Header \<Rightarrow> wire_error + nat \<times> bytes" where
  "MarshalWire b h = (if length b < HeaderSize then Inl ErrShortBuffer
                      else Inr (HeaderSize, overwrite (headerImage h) b))"

definition UnmarshalWire :: "bytes \<Rightarrow> wire_error + Header \<times> nat" where
  "UnmarshalWire b =
    (if length b < HeaderSize then Inl ErrShortBuffer
     else Inr (\<lparr>Control = b ! 0, Bitmap = b ! 1, TransID = be16 (b ! 2) (b ! 3),
                UserData = be32 (b ! 4) (b ! 5) (b ! 6) (b ! 7)\<rparr>, HeaderSize))"

definition Marshal :: "Header \<Rightarrow> bytes" where
  "Marshal h = (case MarshalWire (replicate HeaderSize 0) h of Inr (_, b) \<Rightarrow> b | Inl _ \<Rightarrow> replicate HeaderSize 0)"

definition Unmarshal :: "bytes \<Rightarrow> Header option" where
  "Unmarshal b = (case UnmarshalWire b of Inr (h, _) \<Rightarrow> Some h | Inl _ \<Rightarrow> None)"

section \<open>Data of the engine\<close>

record Address =
  Net :: u16
  Node :: u8
  Socket :: u8

record Request =
  rqSrc :: Address
  rqDst :: Address
  rqUserBytes :: u32
  rqData :: bytes
  rqNumBuffers :: int
  rqXO :: bool
  rqTRelTO :: u8
  rqRetryTimeout :: duration
  rqMaxRetries :: int

text \<open>A nil slice and an empty one are the same list.\<close>

record Response =
  Buffers :: "bytes list"
  UserBytes :: "u32 list"
  Count :: nat

record IncomingRequest =
  inSrc :: Address
  inLocal :: Address
  inTID :: u16
  inUserBytes :: u32
  inData :: bytes
  inBitmap :: u8
  inXO :: bool
  inTRelTO :: u8

record ResponseMessage =
  msgBuffers :: "bytes list"
  msgUserBytes :: "u32 list"

datatype atp_error = ErrInvalidNumBuffers | ErrDataTooLarge | ErrTimeout | ErrCancelled

record tcb =
  src :: Address
  dst :: Address
  tid :: u16
  xo :: bool
  trelTO :: u8
  bitmap :: u8
  expected :: nat
  resp :: Response
  header :: bytes
  retryTimeout :: duration
  retriesLeft :: int
  timerSet :: bool
  finished :: bool
  err :: "atp_error option"

record ResponsePacket =
  pktHeader :: bytes
  pktData :: bytes

record rspcb =
  rspSrc :: Address
  rspTid :: u16
  cached :: "ResponsePacket list"
  releaseTO :: duration
  gotResp :: bool

text \<open>The closure that answers one request: the variables it captures and its \<open>sync.Once\<close>.\<close>

record 'h replier =
  rpLocal :: Address
  rpSrc :: Address
  rpTid :: u16
  rpBitmap :: u8
  rpXO :: bool
  rpRcb :: "nat option"
  rpHint :: "'h option"
  replied :: bool

record 'h Endpoint =
  listening :: bool
  admissibleSrc :: "Address option"
  tcbs :: "(u16, nat) gomap"
  rspcbs :: "(Address \<times> u16, nat) gomap"
  lastTID :: u16
  pacer :: "(Address, duration) gomap"
  tcbStore :: "tcb list"
  rspStore :: "rspcb list"
  repliers :: "'h replier list"

datatype 'h atp_effect =
    Send Address Address bytes "'h option"
  | ArmRetry nat duration
  | StopRetry nat
  | ArmRelease nat duration
  | StopRelease nat
  | CloseDone nat
  | Sleep duration
  | CallHandler IncomingRequest nat

definition NewEndpoint :: "Address option \<Rightarrow> 'h Endpoint" where
  "NewEndpoint admissible = \<lparr>listening = False, admissibleSrc = admissible, tcbs = [], rspcbs = [],
     lastTID = 0, pacer = [], tcbStore = [], rspStore = [], repliers = []\<rparr>"

definition Listen :: "bool \<Rightarrow> 'h Endpoint \<Rightarrow> 'h Endpoint" where
  "Listen h e = e\<lparr>listening := h\<rparr>"

definition SetLastTID :: "u16 \<Rightarrow> 'h Endpoint \<Rightarrow> 'h Endpoint" where
  "SetLastTID v e = e\<lparr>lastTID := v\<rparr>"

section \<open>Requester\<close>

definition fullBitmap :: "nat \<Rightarrow> u8" where
  "fullBitmap n = (if n \<ge> MaxResponsePackets then 0xFF else push_bit n 1 - 1)"

definition buildTReq :: "tcb \<Rightarrow> u32 \<Rightarrow> bytes \<Rightarrow> bytes" where
  "buildTReq t userBytes data =
    (let ctrl = (if xo t then TREQ OR XOBit OR (trelTO t AND 7) else TREQ) in
     Marshal \<lparr>Control = ctrl, Bitmap = bitmap t, TransID = tid t, UserData = userBytes\<rparr> @ data)"

text \<open>The loop of \<open>allocTIDLocked\<close>; its counter is the first argument.\<close>

primrec scanTID :: "nat \<Rightarrow> (u16, nat) gomap \<Rightarrow> u16 \<Rightarrow> u16" where
  "scanTID 0 m t = t"
| "scanTID (Suc n) m t =
    (let t = (t + 1) AND 0xFFFF in if map_of m t = None then t else scanTID n m t)"

definition allocTIDLocked :: "'h Endpoint \<Rightarrow> u16 \<times> 'h Endpoint" where
  "allocTIDLocked e = (let t = scanTID 0x10000 (tcbs e) (lastTID e) in (t, e\<lparr>lastTID := t\<rparr>))"

text \<open>\<open>SendRequest\<close> up to the point where it releases the mutex, and the rest.\<close>

definition SendRequest_begin :: "Request \<Rightarrow> 'h Endpoint \<Rightarrow> atp_error + nat \<times> 'h Endpoint" where
  "SendRequest_begin req e =
    (if rqNumBuffers req < 1 \<or> rqNumBuffers req > int MaxResponsePackets then Inl ErrInvalidNumBuffers
     else if length (rqData req) > MaxATPData then Inl ErrDataTooLarge
     else
       let n = nat (rqNumBuffers req);
           (t, e) = allocTIDLocked e;
           p = length (tcbStore e);
           cb = \<lparr>src = rqSrc req, dst = rqDst req, tid = t, xo = rqXO req, trelTO = rqTRelTO req,
                 bitmap = fullBitmap n, expected = n,
                 resp = \<lparr>Buffers = replicate n [], UserBytes = replicate MaxResponsePackets 0, Count = 0\<rparr>,
                 header = [],
                 retryTimeout = (if rqRetryTimeout req \<le> 0 then 2 * 10^9 else rqRetryTimeout req),
                 retriesLeft = (if rqMaxRetries req = 0 then 8 else rqMaxRetries req),
                 timerSet = False, finished = False, err = None\<rparr> in
       Inr (p, e\<lparr>tcbStore := tcbStore e @ [cb], tcbs := AList.update t p (tcbs e)\<rparr>))"

definition updTcb :: "nat \<Rightarrow> (tcb \<Rightarrow> tcb) \<Rightarrow> 'h Endpoint \<Rightarrow> 'h Endpoint" where
  "updTcb p f e = e\<lparr>tcbStore := (tcbStore e)[p := f (tcbStore e ! p)]\<rparr>"

definition armRetryTimerLocked :: "nat \<Rightarrow> 'h Endpoint \<Rightarrow> 'h atp_effect list \<times> 'h Endpoint" where
  "armRetryTimerLocked p e =
    ([ArmRetry p (retryTimeout (tcbStore e ! p))], updTcb p (\<lambda>t. t\<lparr>timerSet := True\<rparr>) e)"

definition SendRequest_transmit :: "nat \<Rightarrow> u32 \<Rightarrow> bytes \<Rightarrow> 'h Endpoint \<Rightarrow> 'h atp_effect list \<times> 'h Endpoint" where
  "SendRequest_transmit p userBytes data e =
    (let e = updTcb p (\<lambda>t. t\<lparr>header := buildTReq t userBytes data\<rparr>) e;
         t = tcbStore e ! p;
         (arm, e) = armRetryTimerLocked p e in
     (Send (src t) (dst t) (header t) None # arm, e))"

definition SendRequest :: "Request \<Rightarrow> 'h Endpoint \<Rightarrow> atp_error + nat \<times> 'h atp_effect list \<times> 'h Endpoint" where
  "SendRequest req e =
    bind_err (SendRequest_begin req e)
      (\<lambda>(p, e). Inr (p, SendRequest_transmit p (rqUserBytes req) (rqData req) e))"

definition stopRetry :: "nat \<Rightarrow> tcb \<Rightarrow> 'h atp_effect list" where
  "stopRetry p t = (if timerSet t then [StopRetry p] else [])"

text \<open>\<open>t.once.Do\<close>: the error is set and the channel closed at most once.\<close>

definition finish :: "nat \<Rightarrow> atp_error option \<Rightarrow> 'h Endpoint \<Rightarrow> 'h atp_effect list \<times> 'h Endpoint" where
  "finish p er e =
    (if finished (tcbStore e ! p) then ([], e)
     else ([CloseDone p], updTcb p (\<lambda>t. t\<lparr>finished := True, err := er\<rparr>) e))"

definition cancelTCB :: "nat \<Rightarrow> atp_error \<Rightarrow> 'h Endpoint \<Rightarrow> 'h atp_effect list \<times> 'h Endpoint" where
  "cancelTCB p er e =
    (let t = tcbStore e ! p in
     if map_of (tcbs e) (tid t) = None then ([], e)
     else
       let e = e\<lparr>tcbs := AList.delete (tid t) (tcbs e)\<rparr>;
           (fin, e) = finish p (Some er) e in
       (stopRetry p t @ fin, e))"

definition Cancel :: "nat \<Rightarrow> 'h Endpoint \<Rightarrow> 'h atp_effect list \<times> 'h Endpoint" where
  "Cancel p e = cancelTCB p ErrCancelled e"

text \<open>What \<open>Wait\<close> returns once the channel is closed.\<close>

definition Wait :: "nat \<Rightarrow> 'h Endpoint \<Rightarrow> (Response \<times> atp_error option) option" where
  "Wait p e = (let t = tcbStore e ! p in if finished t then Some (resp t, err t) else None)"

definition refreshBitmapInHeader :: "tcb \<Rightarrow> tcb" where
  "refreshBitmapInHeader t =
    (if length (header t) \<ge> 2 then t\<lparr>header := (header t)[1 := bitmap t]\<rparr> else t)"

definition onRetry :: "nat \<Rightarrow> 'h Endpoint \<Rightarrow> 'h atp_effect list \<times> 'h Endpoint" where
  "onRetry p e =
    (let t = tcbStore e ! p in
     if map_of (tcbs e) (tid t) = None then ([], e)
     else if retriesLeft t = 0 then cancelTCB p ErrTimeout e
     else
       let e = updTcb p (\<lambda>t. if retriesLeft t > 0 then t\<lparr>retriesLeft := retriesLeft t - 1\<rparr> else t) e;
           e = updTcb p refreshBitmapInHeader e;
           pkt = header (tcbStore e ! p);
           (arm, e) = armRetryTimerLocked p e in
       (arm @ [Send (src t) (dst t) pkt None], e))"

definition sendTRel :: "Address \<Rightarrow> Address \<Rightarrow> u16 \<Rightarrow> 'h atp_effect list" where
  "sendTRel s d t =
    [Send s d (Marshal \<lparr>Control = TREL, Bitmap = 0, TransID = t, UserData = 0\<rparr>) None]"

text \<open>What \<open>handleTResp\<close> does to the control block before it looks whether the response is complete.\<close>

definition absorb :: "Header \<Rightarrow> bytes \<Rightarrow> tcb \<Rightarrow> tcb" where
  "absorb h data t =
    (let seq = unat (Bitmap h);
         bt = push_bit seq 1;
         t = (if bitmap t AND bt \<noteq> 0
              then t\<lparr>bitmap := bitmap t AND NOT bt,
                     resp := \<lparr>Buffers = (Buffers (resp t))[seq := data],
                              UserBytes = (UserBytes (resp t))[seq := UserData h],
                              Count = Count (resp t) + 1\<rparr>\<rparr>
              else t) in
     if EOM h then t\<lparr>bitmap := fold (\<lambda>s b. b AND NOT (push_bit s 1)) [seq + 1..<MaxResponsePackets] (bitmap t)\<rparr>
     else t)"

definition handleTResp :: "Header \<Rightarrow> bytes \<Rightarrow> Address \<Rightarrow> 'h Endpoint \<Rightarrow> 'h atp_effect list \<times> 'h Endpoint" where
  "handleTResp h data from e =
    (case map_of (tcbs e) (TransID h) of
       None \<Rightarrow> ([], e)
     | Some p \<Rightarrow>
         if dst (tcbStore e ! p) \<noteq> from then ([], e)
         else if unat (Bitmap h) \<ge> MaxResponsePackets \<or> unat (Bitmap h) \<ge> expected (tcbStore e ! p) then ([], e)
         else
           let e = updTcb p (absorb h data) e;
               t = tcbStore e ! p in
           if bitmap t = 0 then
             let e = e\<lparr>tcbs := AList.delete (tid t) (tcbs e)\<rparr>;
                 (fin, e) = finish p None e in
             (stopRetry p t @ (if xo t then sendTRel (src t) (dst t) (tid t) else []) @ fin, e)
           else if STS h then
             let e = updTcb p refreshBitmapInHeader e;
                 pkt = header (tcbStore e ! p);
                 (arm, e) = armRetryTimerLocked p e in
             (stopRetry p t @ arm @ [Send (src t) (dst t) pkt None], e)
           else ([], e))"

section \<open>Responder\<close>

abbreviation adaptivePacerMaxDelay :: duration where "adaptivePacerMaxDelay \<equiv> 16000000"
abbreviation adaptivePacerLossStep :: duration where "adaptivePacerLossStep \<equiv> 1000000"
abbreviation adaptivePacerLossBurstStep :: duration where "adaptivePacerLossBurstStep \<equiv> 2000000"
abbreviation adaptivePacerRecoveryStep :: duration where "adaptivePacerRecoveryStep \<equiv> 250000"

definition currentResponderPacingLocked :: "Address \<Rightarrow> 'h Endpoint \<Rightarrow> duration" where
  "currentResponderPacingLocked a e = (case map_of (pacer e) a of Some d \<Rightarrow> d | None \<Rightarrow> 0)"

definition ensureResponderPacerLocked :: "Address \<Rightarrow> 'h Endpoint \<Rightarrow> duration \<times> 'h Endpoint" where
  "ensureResponderPacerLocked a e =
    (case map_of (pacer e) a of Some d \<Rightarrow> (d, e) | None \<Rightarrow> (0, e\<lparr>pacer := AList.update a 0 (pacer e)\<rparr>))"

definition increaseResponderPacingLocked :: "Address \<Rightarrow> nat \<Rightarrow> 'h Endpoint \<Rightarrow> 'h Endpoint" where
  "increaseResponderPacingLocked a missing e =
    (if missing = 0 then e
     else
       let (d, e) = ensureResponderPacerLocked a e;
           step = int missing * adaptivePacerLossStep;
           step = (if missing \<ge> 3 then step + adaptivePacerLossBurstStep else step);
           d = d + step;
           d = (if d > adaptivePacerMaxDelay then adaptivePacerMaxDelay else d) in
       e\<lparr>pacer := AList.update a d (pacer e)\<rparr>)"

definition relaxResponderPacingLocked :: "Address \<Rightarrow> 'h Endpoint \<Rightarrow> 'h Endpoint" where
  "relaxResponderPacingLocked a e =
    (let (d, e) = ensureResponderPacerLocked a e;
         d = (if d \<le> adaptivePacerRecoveryStep then 0 else d - adaptivePacerRecoveryStep) in
     e\<lparr>pacer := AList.update a d (pacer e)\<rparr>)"

text \<open>\<open>bits.OnesCount8\<close>.\<close>

definition OnesCount8 :: "u8 \<Rightarrow> nat" where
  "OnesCount8 b = length (filter (bit b) [0..<8])"

definition admissible :: "'h Endpoint \<Rightarrow> Address \<Rightarrow> bool" where
  "admissible e s =
    (case admissibleSrc e of
       None \<Rightarrow> True
     | Some a \<Rightarrow> \<not> (Net a \<noteq> 0 \<and> Net a \<noteq> Net s) \<and> \<not> (Node a \<noteq> 0 \<and> Node a \<noteq> Node s) \<and>
                 \<not> (Socket a \<noteq> 0 \<and> Socket a \<noteq> Socket s))"

definition responsePacket :: "u16 \<Rightarrow> ResponseMessage \<Rightarrow> nat \<Rightarrow> ResponsePacket" where
  "responsePacket t msg i =
    (let ctrl = (if i = length (msgBuffers msg) - 1 then TRESP OR EOMBit else TRESP);
         ub = (if i < length (msgUserBytes msg) then msgUserBytes msg ! i else 0) in
     \<lparr>pktHeader = Marshal \<lparr>Control = ctrl, Bitmap = word_of_nat i, TransID = t, UserData = ub\<rparr>,
      pktData = msgBuffers msg ! i\<rparr>)"

definition buildResponsePackets :: "u16 \<Rightarrow> ResponseMessage \<Rightarrow> ResponsePacket list" where
  "buildResponsePackets t msg = map (responsePacket t msg) [0..<length (msgBuffers msg)]"

text \<open>The loop of \<open>replayCachedFiltered\<close> from index \<open>i\<close> on; \<open>first\<close> is its flag.\<close>

fun replayFrom :: "Address \<Rightarrow> Address \<Rightarrow> u8 \<Rightarrow> 'h option \<Rightarrow> duration \<Rightarrow> nat \<Rightarrow> bool \<Rightarrow> ResponsePacket list \<Rightarrow>
    'h atp_effect list" where
  "replayFrom s d bm hint delay i first [] = []"
| "replayFrom s d bm hint delay i first (p # ps) =
    (if bm AND push_bit i 1 = 0 then replayFrom s d bm hint delay (i + 1) first ps
     else (if \<not> first \<and> delay > 0 then [Sleep delay] else []) @
       Send s d (pktHeader p @ pktData p) hint # replayFrom s d bm hint delay (i + 1) False ps)"

definition replayCachedFiltered :: "Address \<Rightarrow> Address \<Rightarrow> u8 \<Rightarrow> ResponsePacket list \<Rightarrow> 'h option \<Rightarrow> 'h Endpoint \<Rightarrow>
    'h atp_effect list" where
  "replayCachedFiltered s d bm ps hint e = replayFrom s d bm hint (currentResponderPacingLocked d e) 0 True ps"

definition updRsp :: "nat \<Rightarrow> (rspcb \<Rightarrow> rspcb) \<Rightarrow> 'h Endpoint \<Rightarrow> 'h Endpoint" where
  "updRsp r f e = e\<lparr>rspStore := (rspStore e)[r := f (rspStore e ! r)]\<rparr>"

text \<open>The closure a handler gets: \<open>reply\<close> runs it.\<close>

definition reply :: "nat \<Rightarrow> ResponseMessage \<Rightarrow> 'h Endpoint \<Rightarrow> 'h atp_effect list \<times> 'h Endpoint" where
  "reply k msg e =
    (let rp = repliers e ! k in
     if replied rp then ([], e)
     else
       let e = e\<lparr>repliers := (repliers e)[k := rp\<lparr>replied := True\<rparr>]\<rparr> in
       if length (msgBuffers msg) > MaxResponsePackets then ([], e)
       else if \<exists>b \<in> set (msgBuffers msg). length b > MaxATPData then ([], e)
       else
         let ps = buildResponsePackets (rpTid rp) msg;
             (timers, e) =
               (case rpRcb rp of
                  Some r \<Rightarrow>
                    if rpXO rp
                    then ([StopRelease r, ArmRelease r (releaseTO (rspStore e ! r))],
                          updRsp r (\<lambda>c. c\<lparr>cached := ps, gotResp := True\<rparr>) e)
                    else ([], e)
                | None \<Rightarrow> ([], e)) in
         (timers @ replayCachedFiltered (rpLocal rp) (rpSrc rp) (rpBitmap rp) ps (rpHint rp) e, e))"

definition newReplier :: "Header \<Rightarrow> Address \<Rightarrow> Address \<Rightarrow> nat option \<Rightarrow> 'h option \<Rightarrow> 'h replier" where
  "newReplier h from local rcb hint =
    \<lparr>rpLocal = local, rpSrc = from, rpTid = TransID h, rpBitmap = Bitmap h, rpXO = XO h, rpRcb = rcb,
     rpHint = hint, replied = False\<rparr>"

definition callHandler :: "Header \<Rightarrow> bytes \<Rightarrow> Address \<Rightarrow> Address \<Rightarrow> nat option \<Rightarrow> 'h option \<Rightarrow> 'h Endpoint \<Rightarrow>
    'h atp_effect list \<times> 'h Endpoint" where
  "callHandler h data from local rcb hint e =
    ([CallHandler \<lparr>inSrc = from, inLocal = local, inTID = TransID h, inUserBytes = UserData h,
        inData = data, inBitmap = Bitmap h, inXO = XO h, inTRelTO = GetTRelTimeout h\<rparr> (length (repliers e))],
     e\<lparr>repliers := repliers e @ [newReplier h from local rcb hint]\<rparr>)"

definition handleTReq :: "Header \<Rightarrow> bytes \<Rightarrow> Address \<Rightarrow> Address \<Rightarrow> 'h option \<Rightarrow> 'h Endpoint \<Rightarrow>
    'h atp_effect list \<times> 'h Endpoint" where
  "handleTReq h data from local hint e =
    (let key = (from, TransID h);
         held = map_of (rspcbs e) key in
     if \<not> admissible e from then ([], e)
     else if XO h \<and> (case held of Some r \<Rightarrow> gotResp (rspStore e ! r) | None \<Rightarrow> False) then
       let r = the held;
           e = increaseResponderPacingLocked from (OnesCount8 (Bitmap h)) e in
       ([StopRelease r, ArmRelease r (releaseTO (rspStore e ! r))] @
          replayCachedFiltered local from (Bitmap h) (cached (rspStore e ! r)) hint e, e)
     else if \<not> listening e then ([], e)
     else if XO h then
       let e = relaxResponderPacingLocked from e in
       if held \<noteq> None then ([], e)
       else
         let r = length (rspStore e);
             cb = \<lparr>rspSrc = from, rspTid = TransID h, cached = [], releaseTO = Duration (GetTRelTimeout h),
                   gotResp = False\<rparr>;
             e = e\<lparr>rspStore := rspStore e @ [cb], rspcbs := AList.update key r (rspcbs e)\<rparr>;
             (call, e) = callHandler h data from local (Some r) hint e in
         (ArmRelease r (releaseTO cb) # call, e)
     else callHandler h data from local None hint e)"

definition handleTRel :: "Header \<Rightarrow> Address \<Rightarrow> 'h Endpoint \<Rightarrow> 'h atp_effect list \<times> 'h Endpoint" where
  "handleTRel h from e =
    (case map_of (rspcbs e) (from, TransID h) of
       None \<Rightarrow> ([], e)
     | Some r \<Rightarrow> ([StopRelease r], e\<lparr>rspcbs := AList.delete (from, TransID h) (rspcbs e)\<rparr>))"

definition expireRspCB :: "nat \<Rightarrow> 'h Endpoint \<Rightarrow> 'h Endpoint" where
  "expireRspCB r e =
    (let key = (rspSrc (rspStore e ! r), rspTid (rspStore e ! r)) in
     if map_of (rspcbs e) key = Some r then e\<lparr>rspcbs := AList.delete key (rspcbs e)\<rparr> else e)"

definition HandleInbound :: "bytes \<Rightarrow> Address \<Rightarrow> Address \<Rightarrow> 'h option \<Rightarrow> 'h Endpoint \<Rightarrow>
    'h atp_effect list \<times> 'h Endpoint" where
  "HandleInbound packet from local hint e =
    (case Unmarshal packet of
       None \<Rightarrow> ([], e)
     | Some h \<Rightarrow>
         let data = drop HeaderSize packet in
         if FuncCode h = TREQ then handleTReq h data from local hint e
         else if FuncCode h = TRESP then handleTResp h data from e
         else if FuncCode h = TREL then handleTRel h from e
         else ([], e))"

section \<open>Header lemmas\<close>

named_theorems atp_defs \<open>operations of the transaction engine\<close>

lemma length_headerImage [simp]: "length (headerImage h) = 8"
  by (simp add: headerImage_def)

lemma Marshal_eq [simp]: "Marshal h = headerImage h"
  by (simp add: Marshal_def MarshalWire_def overwrite_def)

lemma Unmarshal_image [simp]: "Unmarshal (headerImage h @ data) = Some h"
  by (simp add: Unmarshal_def UnmarshalWire_def headerImage_def put16_def put32_def)

interpretation atp_header: wire_field "\<lambda>_. True" headerImage MarshalWire UnmarshalWire
proof
  show "UnmarshalWire b = Inr (v, n) \<Longrightarrow> True \<and> b = headerImage v @ drop n b \<and> n = length (headerImage v)" for b v n
    using take_nths(3) [of b]
    by (auto simp: UnmarshalWire_def headerImage_def put16_def put32_be32 split: if_splits)
qed (simp_all add: MarshalWire_def UnmarshalWire_def headerImage_def put16_def put32_def)

lemma bit_fullBitmap: "n \<le> 8 \<Longrightarrow> bit (fullBitmap n) i \<longleftrightarrow> i < n"
proof -
  assume "n \<le> 8"
  then have "fullBitmap n = mask n"
    by (auto simp: fullBitmap_def mask_eq_exp_minus_1 push_bit_eq_mult le_less numeral_eq_Suc)
  then show ?thesis using \<open>n \<le> 8\<close> by (auto simp: bit_simps)
qed

lemma and_bit_zero_iff: "b AND 2 ^ i = 0 \<longleftrightarrow> \<not> bit (b :: u8) i"
proof
  assume "b AND 2 ^ i = 0"
  then have "\<not> bit (b AND 2 ^ i) i" by simp
  then show "\<not> bit b i" by (cases "i < 8") (auto simp: bit_simps dest: bit_imp_le_length)
next
  assume "\<not> bit b i"
  then show "b AND 2 ^ i = 0" by (intro bit_word_eqI) (auto simp: bit_simps)
qed

lemma bit_clear: "bit (b AND NOT (2 ^ s) :: u8) i \<longleftrightarrow> bit b i \<and> i \<noteq> s"
  by (auto simp: bit_simps dest: bit_imp_le_length)

lemma bit_clear_above:
  "bit (fold (\<lambda>s b. b AND NOT (2 ^ s)) ss (b :: u8)) i \<longleftrightarrow> bit b i \<and> i \<notin> set ss"
  by (induction ss arbitrary: b) (auto simp: bit_clear)

lemma zero_bits_iff: "b = 0 \<longleftrightarrow> (\<forall>i<8. \<not> bit (b :: u8) i)"
proof
  assume none: "\<forall>i<8. \<not> bit b i"
  show "b = 0" by (rule bit_word_eqI) (use none in simp)
qed simp

section \<open>Operations on control blocks\<close>

lemma updTcb_simps [simp]:
  "length (tcbStore (updTcb p f e)) = length (tcbStore e)"
  "p < length (tcbStore e) \<Longrightarrow> tcbStore (updTcb p f e) ! p = f (tcbStore e ! p)"
  "q \<noteq> p \<Longrightarrow> tcbStore (updTcb p f e) ! q = tcbStore e ! q"
  "tcbs (updTcb p f e) = tcbs e" "rspcbs (updTcb p f e) = rspcbs e" "lastTID (updTcb p f e) = lastTID e"
  "pacer (updTcb p f e) = pacer e" "rspStore (updTcb p f e) = rspStore e"
  "repliers (updTcb p f e) = repliers e" "listening (updTcb p f e) = listening e"
  "admissibleSrc (updTcb p f e) = admissibleSrc e"
  by (simp_all add: updTcb_def)

lemma updTcb_cell:
  "q < length (tcbStore e) \<Longrightarrow> tcbStore (updTcb p f e) ! q = (if q = p then f (tcbStore e ! q) else tcbStore e ! q)"
  by simp

lemma absorb_keeps [simp]:
  "src (absorb h d t) = src t" "dst (absorb h d t) = dst t" "tid (absorb h d t) = tid t"
  "xo (absorb h d t) = xo t" "expected (absorb h d t) = expected t" "finished (absorb h d t) = finished t"
  "timerSet (absorb h d t) = timerSet t" "header (absorb h d t) = header t" "err (absorb h d t) = err t"
  "retriesLeft (absorb h d t) = retriesLeft t" "retryTimeout (absorb h d t) = retryTimeout t"
  by (simp_all add: absorb_def Let_def)

lemma bit_absorb:
  "i < 8 \<Longrightarrow> bit (bitmap (absorb h d t)) i \<longleftrightarrow>
     bit (bitmap t) i \<and> i \<noteq> unat (Bitmap h) \<and> \<not> (EOM h \<and> unat (Bitmap h) < i)"
  by (auto simp: absorb_def Let_def and_bit_zero_iff bit_clear bit_clear_above)

lemma absorb_resp:
  "resp (absorb h d t) =
    (if bit (bitmap t) (unat (Bitmap h))
     then \<lparr>Buffers = (Buffers (resp t))[unat (Bitmap h) := d],
           UserBytes = (UserBytes (resp t))[unat (Bitmap h) := UserData h], Count = Count (resp t) + 1\<rparr>
     else resp t)"
  by (simp add: absorb_def Let_def and_bit_zero_iff)

section \<open>Well-formed endpoints\<close>

definition tcb_ok :: "tcb \<Rightarrow> bool" where
  "tcb_ok t \<longleftrightarrow> 1 \<le> expected t \<and> expected t \<le> MaxResponsePackets \<and>
     length (Buffers (resp t)) = expected t \<and> length (UserBytes (resp t)) = MaxResponsePackets \<and>
     (\<forall>i. bit (bitmap t) i \<longrightarrow> i < expected t)"

definition requester_ok :: "'h Endpoint \<Rightarrow> bool" where
  "requester_ok e \<longleftrightarrow>
     wf_gomap (tcbs e) \<and> (\<forall>t \<in> set (tcbStore e). tcb_ok t) \<and>
     (\<forall>k p. map_of (tcbs e) k = Some p \<longrightarrow>
        p < length (tcbStore e) \<and> tid (tcbStore e ! p) = k \<and> \<not> finished (tcbStore e ! p) \<and>
        bitmap (tcbStore e ! p) \<noteq> 0)"

definition responder_ok :: "'h Endpoint \<Rightarrow> bool" where
  "responder_ok e \<longleftrightarrow>
     wf_gomap (rspcbs e) \<and>
     (\<forall>k r. map_of (rspcbs e) k = Some r \<longrightarrow>
        r < length (rspStore e) \<and> (rspSrc (rspStore e ! r), rspTid (rspStore e ! r)) = k) \<and>
     (\<forall>c \<in> set (rspStore e). length (cached c) \<le> MaxResponsePackets) \<and>
     (\<forall>rp \<in> set (repliers e). \<forall>r. rpRcb rp = Some r \<longrightarrow> r < length (rspStore e) \<and>
        (rspSrc (rspStore e ! r), rspTid (rspStore e ! r)) = (rpSrc rp, rpTid rp)) \<and>
     (\<forall>a d. map_of (pacer e) a = Some d \<longrightarrow> 0 \<le> d \<and> d \<le> adaptivePacerMaxDelay)"

definition atp_inv :: "'h Endpoint \<Rightarrow> bool" where
  "atp_inv e \<longleftrightarrow> requester_ok e \<and> responder_ok e"

lemma requester_okD:
  assumes "requester_ok e" "map_of (tcbs e) k = Some p"
  shows "p < length (tcbStore e)" "tid (tcbStore e ! p) = k" "\<not> finished (tcbStore e ! p)"
    "bitmap (tcbStore e ! p) \<noteq> 0" "tcb_ok (tcbStore e ! p)"
  using assms by (auto simp: requester_ok_def)

text \<open>What an operation on one side leaves alone on the other.\<close>

definition same_responder :: "'h Endpoint \<Rightarrow> 'h Endpoint \<Rightarrow> bool" where
  "same_responder e e' \<longleftrightarrow> rspcbs e' = rspcbs e \<and> rspStore e' = rspStore e \<and> repliers e' = repliers e \<and>
     pacer e' = pacer e \<and> listening e' = listening e \<and> admissibleSrc e' = admissibleSrc e"

definition same_requester :: "'h Endpoint \<Rightarrow> 'h Endpoint \<Rightarrow> bool" where
  "same_requester e e' \<longleftrightarrow> tcbs e' = tcbs e \<and> tcbStore e' = tcbStore e \<and> lastTID e' = lastTID e"

lemma same_responder_ok: "same_responder e e' \<Longrightarrow> responder_ok e' = responder_ok e"
  by (simp add: same_responder_def responder_ok_def)

lemma same_requester_ok: "same_requester e e' \<Longrightarrow> requester_ok e' = requester_ok e"
  by (simp add: same_requester_def requester_ok_def)

lemma same_updTcb [simp]: "same_responder e (updTcb p f e)"
  by (simp add: same_responder_def)

lemma same_responder_trans: "same_responder e e' \<Longrightarrow> same_responder e' e'' \<Longrightarrow> same_responder e e''"
  by (simp add: same_responder_def)

lemma same_tcbs [simp]: "same_responder e (e\<lparr>tcbs := m\<rparr>)" "same_responder e e"
  by (simp_all add: same_responder_def)

lemma same_finish [simp]: "same_responder e (snd (finish p er e))"
  by (simp add: finish_def)

lemma same_cancelTCB [simp]: "same_responder e (snd (cancelTCB p er e))"
  by (simp add: cancelTCB_def Let_def finish_def same_responder_def split: prod.split)

lemma same_SendRequest_begin: "SendRequest_begin req e = Inr (p, e') \<Longrightarrow> same_responder e e'"
  by (auto simp: SendRequest_begin_def allocTIDLocked_def same_responder_def Let_def split: if_splits)

lemma same_SendRequest_transmit [simp]: "same_responder e (snd (SendRequest_transmit p ub d e))"
  by (simp add: SendRequest_transmit_def armRetryTimerLocked_def Let_def same_responder_def)

lemma same_onRetry [simp]: "same_responder e (snd (onRetry p e))"
  using same_cancelTCB [of e p ErrTimeout]
  by (simp add: onRetry_def Let_def armRetryTimerLocked_def same_responder_def)

lemma same_handleTResp [simp]: "same_responder e (snd (handleTResp h d a e))"
  by (simp add: handleTResp_def Let_def armRetryTimerLocked_def finish_def same_responder_def split: option.split prod.split)

section \<open>The requester keeps its tables\<close>

lemma requester_ok_updTcb:
  assumes "requester_ok e" "tcb_ok (tcbStore e ! p) \<Longrightarrow> tcb_ok (f (tcbStore e ! p))"
    "tid (f (tcbStore e ! p)) = tid (tcbStore e ! p)"
    "\<not> finished (tcbStore e ! p) \<Longrightarrow> \<not> finished (f (tcbStore e ! p))"
    "bitmap (tcbStore e ! p) \<noteq> 0 \<Longrightarrow> bitmap (f (tcbStore e ! p)) \<noteq> 0"
  shows "requester_ok (updTcb p f e)"
proof (cases "p < length (tcbStore e)")
  case True
  have "tcb_ok t" if "t \<in> set (tcbStore (updTcb p f e))" for t
    using that assms(1,2) True set_update_subset_insert [of "tcbStore e" p "f (tcbStore e ! p)"]
    by (auto simp: updTcb_def requester_ok_def)
  then show ?thesis
    using assms unfolding requester_ok_def by (auto simp: updTcb_cell)
next
  case False
  then have "updTcb p f e = e" by (simp add: updTcb_def list_update_beyond)
  then show ?thesis using assms by simp
qed

text \<open>A change that may finish the block or clear its bitmap is safe once its entry is gone.\<close>

lemma requester_ok_retire:
  assumes "requester_ok e" "tcb_ok (tcbStore e ! p) \<Longrightarrow> tcb_ok (f (tcbStore e ! p))"
    "tid (f (tcbStore e ! p)) = tid (tcbStore e ! p)" "p < length (tcbStore e)"
  shows "requester_ok ((updTcb p f e)\<lparr>tcbs := AList.delete (tid (tcbStore e ! p)) (tcbs e)\<rparr>)"
proof -
  have "tcb_ok t" if "t \<in> set (tcbStore (updTcb p f e))" for t
    using that assms set_update_subset_insert [of "tcbStore e" p "f (tcbStore e ! p)"]
    by (auto simp: updTcb_def requester_ok_def)
  then show ?thesis
    using assms unfolding requester_ok_def by (auto simp: updTcb_cell)
qed

lemma tcb_ok_absorb:
  assumes "tcb_ok t"
  shows "tcb_ok (absorb h d t)"
proof -
  have "i < expected t" if "bit (bitmap (absorb h d t)) i" for i
    using that assms bit_absorb [of i h d t] bit_imp_le_length [OF that]
    by (auto simp: tcb_ok_def)
  then show ?thesis using assms by (auto simp: tcb_ok_def absorb_resp)
qed

lemma updTcb_updTcb [simp]: "p < length (tcbStore e) \<Longrightarrow> updTcb p g (updTcb p f e) = updTcb p (\<lambda>t. g (f t)) e"
  by (simp add: updTcb_def)

lemma updTcb_tcbs [simp]: "updTcb p f (e\<lparr>tcbs := m\<rparr>) = (updTcb p f e)\<lparr>tcbs := m\<rparr>"
  by (simp add: updTcb_def)

lemma updTcb_outside: "\<not> p < length (tcbStore e) \<Longrightarrow> updTcb p f e = e"
  by (simp add: updTcb_def list_update_beyond)

lemma requester_ok_delete: "requester_ok e \<Longrightarrow> requester_ok (e\<lparr>tcbs := AList.delete k (tcbs e)\<rparr>)"
  by (simp add: requester_ok_def)

lemma requester_ok_cancelTCB: "requester_ok e \<Longrightarrow> p < length (tcbStore e) \<Longrightarrow> requester_ok (snd (cancelTCB p er e))"
  using requester_ok_retire [of e p "\<lambda>t. t\<lparr>finished := True, err := Some er\<rparr>"] requester_ok_delete [of e]
  by (simp add: cancelTCB_def Let_def finish_def tcb_ok_def)

lemma refresh_keeps [simp]:
  "src (refreshBitmapInHeader t) = src t" "dst (refreshBitmapInHeader t) = dst t" "tid (refreshBitmapInHeader t) = tid t"
  "xo (refreshBitmapInHeader t) = xo t" "expected (refreshBitmapInHeader t) = expected t"
  "finished (refreshBitmapInHeader t) = finished t" "timerSet (refreshBitmapInHeader t) = timerSet t"
  "bitmap (refreshBitmapInHeader t) = bitmap t" "err (refreshBitmapInHeader t) = err t"
  "resp (refreshBitmapInHeader t) = resp t" "retriesLeft (refreshBitmapInHeader t) = retriesLeft t"
  "retryTimeout (refreshBitmapInHeader t) = retryTimeout t"
  by (simp_all add: refreshBitmapInHeader_def)

lemma requester_ok_onRetry:
  assumes "requester_ok e" "p < length (tcbStore e)"
  shows "requester_ok (snd (onRetry p e))"
proof (cases "map_of (tcbs e) (tid (tcbStore e ! p)) = None \<or> retriesLeft (tcbStore e ! p) = 0")
  case True
  then show ?thesis using assms requester_ok_cancelTCB by (auto simp: onRetry_def Let_def)
next
  case False
  then show ?thesis
    using assms by (auto simp: onRetry_def Let_def armRetryTimerLocked_def tcb_ok_def
        intro!: requester_ok_updTcb split: if_splits)
qed

lemma requester_ok_transmit: "requester_ok e \<Longrightarrow> requester_ok (snd (SendRequest_transmit p ub d e))"
  by (cases "p < length (tcbStore e)")
    (auto simp: SendRequest_transmit_def Let_def armRetryTimerLocked_def tcb_ok_def updTcb_outside intro!: requester_ok_updTcb)

lemma requester_ok_handleTResp:
  assumes ok: "requester_ok e"
  shows "requester_ok (snd (handleTResp h d a e))"
proof (cases "map_of (tcbs e) (TransID h)")
  case (Some p)
  note live = requester_okD [OF ok Some]
  let ?t = "absorb h d (tcbStore e ! p)"
  have done_ok: "requester_ok (updTcb p (\<lambda>t. absorb h d t\<lparr>finished := True, err := None\<rparr>) e
      \<lparr>tcbs := AList.delete (TransID h) (tcbs e)\<rparr>)"
    using requester_ok_retire [OF ok, of p "\<lambda>t. absorb h d t\<lparr>finished := True, err := None\<rparr>"] live
      tcb_ok_absorb [of "tcbStore e ! p" h d]
    by (simp add: tcb_ok_def)
  have going_ok: "requester_ok (updTcb p (\<lambda>t. absorb h d t) e)" if "bitmap ?t \<noteq> 0"
    using that by (intro requester_ok_updTcb [OF ok]) (auto intro: tcb_ok_absorb)
  then have resend_ok: "requester_ok (updTcb p (\<lambda>t. refreshBitmapInHeader (absorb h d t)\<lparr>timerSet := True\<rparr>) e)" if "bitmap ?t \<noteq> 0"
    using that tcb_ok_absorb [of "tcbStore e ! p" h d]
    by (intro requester_ok_updTcb [OF ok]) (auto simp: tcb_ok_def)
  show ?thesis
    using Some live ok done_ok going_ok resend_ok
    by (simp add: handleTResp_def Let_def finish_def armRetryTimerLocked_def)
qed (simp add: handleTResp_def ok)


text \<open>Transaction identifiers: the scan visits every identifier before it gives up.\<close>

lemma and_FFFF [simp]: "(x :: u16) AND 0xFFFF = x"
proof -
  have "(0xFFFF :: u16) = mask 16" by (simp add: mask_eq_exp_minus_1)
  then have "x AND 0xFFFF = take_bit 16 x" by (simp only: take_bit_eq_mask)
  then show ?thesis by (simp add: take_bit_word_eq_self)
qed

lemma scanTID_fresh:
  "map_of m (scanTID n m t) = None \<or> (\<forall>i. 1 \<le> i \<and> i \<le> n \<longrightarrow> map_of m (t + of_nat i) \<noteq> None)"
proof (induction n arbitrary: t)
  case (Suc n)
  have "map_of m (t + of_nat i) \<noteq> None"
    if "map_of m (t + 1) \<noteq> None" "\<forall>i. 1 \<le> i \<and> i \<le> n \<longrightarrow> map_of m (t + 1 + of_nat i) \<noteq> None" "1 \<le> i" "i \<le> Suc n" for i
    using that(1) that(2) [rule_format, of "i - 1"] that(3,4)
    by (cases "i = 1"; cases i) (auto simp: algebra_simps Suc_le_eq)
  with Suc.IH [of "t + 1"] show ?case by (auto simp: Let_def)
qed simp

lemma allocTIDLocked_fresh:
  assumes "map_of (tcbs e) k = None"
  shows "map_of (tcbs e) (fst (allocTIDLocked e)) = None"
proof (rule ccontr)
  assume used: "map_of (tcbs e) (fst (allocTIDLocked e)) \<noteq> None"
  define i where "i = (if k = lastTID e then 65536 else unat (k - lastTID e))"
  have "1 \<le> i \<and> i \<le> 65536"
    using unsigned_less [of "k - lastTID e", where ?'a = nat] by (auto simp: i_def unat_eq_0 Suc_le_eq unat_gt_0)
  moreover have "lastTID e + of_nat i = k"
    by (simp add: i_def)
  ultimately show False
    using used assms scanTID_fresh [of "tcbs e" 65536 "lastTID e"] by (auto simp: allocTIDLocked_def Let_def)
qed

lemma tcb_ok_new:
  "1 \<le> n \<Longrightarrow> n \<le> 8 \<Longrightarrow> bitmap t = fullBitmap n \<Longrightarrow> expected t = n \<Longrightarrow>
   resp t = \<lparr>Buffers = replicate n [], UserBytes = replicate 8 0, Count = 0\<rparr> \<Longrightarrow> tcb_ok t"
  by (simp add: tcb_ok_def bit_fullBitmap)

lemma fullBitmap_nonzero: "1 \<le> n \<Longrightarrow> n \<le> 8 \<Longrightarrow> fullBitmap n \<noteq> 0"
  using bit_fullBitmap [of n 0] by auto

lemma requester_ok_begin:
  assumes ok: "requester_ok e" and new: "SendRequest_begin req e = Inr (p, e')"
  shows "requester_ok e'"
proof -
  let ?n = "nat (rqNumBuffers req)"
  have n: "1 \<le> ?n" "?n \<le> 8" using new by (auto simp: SendRequest_begin_def split: if_splits)
  obtain cb t where e': "e' = e\<lparr>lastTID := t, tcbStore := tcbStore e @ [cb], tcbs := AList.update t (length (tcbStore e)) (tcbs e)\<rparr>"
    and cb: "tid cb = t" "bitmap cb = fullBitmap ?n" "\<not> finished cb" "expected cb = ?n"
      "resp cb = \<lparr>Buffers = replicate ?n [], UserBytes = replicate 8 0, Count = 0\<rparr>"
    using new by (force simp: SendRequest_begin_def allocTIDLocked_def Let_def split: if_splits)
  then have "tcb_ok cb" "bitmap cb \<noteq> 0" using n tcb_ok_new fullBitmap_nonzero by auto
  then show ?thesis
    using ok cb unfolding requester_ok_def e' by (auto simp: nth_append less_Suc_eq)
qed

section \<open>The responder keeps its tables\<close>

lemma same_requester_simps [simp]:
  "same_requester e e" "same_requester e (e\<lparr>rspcbs := m\<rparr>)" "same_requester e (updRsp r f e)"
  "same_requester e (snd (callHandler h d a l rcb hint e))"
  by (simp_all add: same_requester_def updRsp_def callHandler_def)

lemma pacing_keeps [simp]:
  "same_requester e (increaseResponderPacingLocked a n e)" "same_requester e (relaxResponderPacingLocked a e)"
  "rspcbs (increaseResponderPacingLocked a n e) = rspcbs e" "rspcbs (relaxResponderPacingLocked a e) = rspcbs e"
  "rspStore (increaseResponderPacingLocked a n e) = rspStore e" "rspStore (relaxResponderPacingLocked a e) = rspStore e"
  "repliers (increaseResponderPacingLocked a n e) = repliers e" "repliers (relaxResponderPacingLocked a e) = repliers e"
  by (simp_all add: increaseResponderPacingLocked_def relaxResponderPacingLocked_def ensureResponderPacerLocked_def
      same_requester_def Let_def split: option.split)

lemma same_handleTReq [simp]: "same_requester e (snd (handleTReq h d a l hint e))"
  using pacing_keeps(1) [of e a "OnesCount8 (Bitmap h)"] pacing_keeps(2) [of e a]
  by (auto simp: handleTReq_def Let_def callHandler_def same_requester_def)

lemma same_reply [simp]: "same_requester e (snd (reply k msg e))"
  by (auto simp: reply_def Let_def same_requester_def updRsp_def split: option.split)

lemma same_handleTRel [simp]: "same_requester e (snd (handleTRel h a e))"
  by (auto simp: handleTRel_def same_requester_def split: option.split)

lemma same_expireRspCB [simp]: "same_requester e (expireRspCB r e)"
  by (auto simp: expireRspCB_def same_requester_def Let_def)

lemma nth_update_field: "(\<And>c. g (f c) = g c) \<Longrightarrow> g (cs[r := f (cs ! r)] ! q) = g (cs ! q)"
  by (cases "r < length cs"; cases "q = r") (auto simp: list_update_beyond)

lemma reply_keeps_key [simp]:
  "rspSrc (cs[r := (cs ! r)\<lparr>cached := ps, gotResp := b\<rparr>] ! q) = rspSrc (cs ! q)"
  "rspTid (cs[r := (cs ! r)\<lparr>cached := ps, gotResp := b\<rparr>] ! q) = rspTid (cs ! q)"
  by (rule nth_update_field, simp)+

lemma responder_ok_pace:
  "responder_ok e \<Longrightarrow> 0 \<le> d \<Longrightarrow> d \<le> adaptivePacerMaxDelay \<Longrightarrow> responder_ok (e\<lparr>pacer := AList.update a d (pacer e)\<rparr>)"
  by (simp add: responder_ok_def)

lemma ensure_ok:
  assumes "responder_ok e" "ensureResponderPacerLocked a e = (d, e')"
  shows "responder_ok e'" "0 \<le> d" "d \<le> adaptivePacerMaxDelay"
  using assms responder_ok_pace [OF assms(1), of 0 a]
  by (auto simp: ensureResponderPacerLocked_def responder_ok_def split: option.splits)

lemma pacer_ok:
  assumes "responder_ok e"
  shows "responder_ok (increaseResponderPacingLocked a n e)" "responder_ok (relaxResponderPacingLocked a e)"
  using assms ensure_ok [OF assms, of a]
  by (auto simp: increaseResponderPacingLocked_def relaxResponderPacingLocked_def Let_def
      split: prod.split intro!: responder_ok_pace)

lemma responder_ok_drop: "responder_ok e \<Longrightarrow> responder_ok (e\<lparr>rspcbs := AList.delete k (rspcbs e)\<rparr>)"
  by (simp add: responder_ok_def)

lemma responder_ok_handleTRel: "responder_ok e \<Longrightarrow> responder_ok (snd (handleTRel h a e))"
  by (simp add: handleTRel_def responder_ok_drop split: option.split)

lemma responder_ok_expire: "responder_ok e \<Longrightarrow> responder_ok (expireRspCB r e)"
  by (simp add: expireRspCB_def responder_ok_drop Let_def)

lemma responder_ok_callHandler:
  assumes "responder_ok e"
    "\<And>r. rcb = Some r \<Longrightarrow> r < length (rspStore e) \<and> (rspSrc (rspStore e ! r), rspTid (rspStore e ! r)) = (a, TransID h)"
  shows "responder_ok (snd (callHandler h d a l rcb hint e))"
  using assms by (simp add: responder_ok_def callHandler_def newReplier_def)

lemma responder_ok_new:
  assumes "responder_ok e" "rspSrc cb = a" "rspTid cb = t" "length (cached cb) \<le> 8"
  shows "responder_ok (e\<lparr>rspStore := rspStore e @ [cb], rspcbs := AList.update (a, t) (length (rspStore e)) (rspcbs e)\<rparr>)"
  using assms unfolding responder_ok_def by (auto simp: nth_append less_Suc_eq)

lemma responder_ok_handleTReq:
  assumes ok: "responder_ok e"
  shows "responder_ok (snd (handleTReq h d a l hint e))"
proof -
  let ?e = "relaxResponderPacingLocked a e"
  let ?cb = "\<lparr>rspSrc = a, rspTid = TransID h, cached = [], releaseTO = Duration (GetTRelTimeout h), gotResp = False\<rparr>"
  have "responder_ok (snd (callHandler h d a l (Some (length (rspStore e))) hint
      (?e\<lparr>rspStore := rspStore ?e @ [?cb], rspcbs := AList.update (a, TransID h) (length (rspStore ?e)) (rspcbs ?e)\<rparr>)))"
    by (intro responder_ok_callHandler responder_ok_new pacer_ok ok) auto
  then show ?thesis
    using pacer_ok [OF ok, of a] responder_ok_callHandler [OF ok, of None] ok
    by (auto simp: handleTReq_def Let_def split: prod.split)
qed

lemma responder_ok_reply:
  assumes ok: "responder_ok e" and k: "k < length (repliers e)"
  shows "responder_ok (snd (reply k msg e))"
proof -
  let ?rp = "repliers e ! k"
  let ?e = "e\<lparr>repliers := (repliers e)[k := ?rp\<lparr>replied := True\<rparr>]\<rparr>"
  have mem: "?rp \<in> set (repliers e)" using k by simp
  have used: "responder_ok ?e"
    using ok mem set_update_subset_insert [of "repliers e" k "?rp\<lparr>replied := True\<rparr>"]
    by (auto simp: responder_ok_def)
  have "responder_ok (updRsp r (\<lambda>c. c\<lparr>cached := ps, gotResp := True\<rparr>) ?e)"
    if "length ps \<le> 8" for r ps
    using that used set_update_subset_insert [of "rspStore e" r "(rspStore e ! r)\<lparr>cached := ps, gotResp := True\<rparr>"]
    unfolding responder_ok_def by (auto simp: updRsp_def)
  with used ok show ?thesis
    by (simp add: reply_def Let_def buildResponsePackets_def split: option.split)
qed

section \<open>Runs\<close>

datatype 'h atp_op =
    OpBegin Request
  | OpTransmit nat u32 bytes
  | OpInbound bytes Address Address "'h option"
  | OpRetry nat
  | OpCancel nat
  | OpReply nat ResponseMessage
  | OpExpire nat
  | OpListen bool
  | OpSetLastTID u16

text \<open>A pointer that was never handed out cannot be used.\<close>

fun atp_step :: "'h atp_op \<Rightarrow> 'h Endpoint \<Rightarrow> 'h atp_effect list \<times> 'h Endpoint" where
  "atp_step (OpBegin req) e = ([], case SendRequest_begin req e of Inr (p, e') \<Rightarrow> e' | Inl _ \<Rightarrow> e)"
| "atp_step (OpTransmit p ub d) e = (if p < length (tcbStore e) then SendRequest_transmit p ub d e else ([], e))"
| "atp_step (OpInbound packet from local hint) e = HandleInbound packet from local hint e"
| "atp_step (OpRetry p) e = (if p < length (tcbStore e) then onRetry p e else ([], e))"
| "atp_step (OpCancel p) e = (if p < length (tcbStore e) then Cancel p e else ([], e))"
| "atp_step (OpReply k msg) e = (if k < length (repliers e) then reply k msg e else ([], e))"
| "atp_step (OpExpire r) e = ([], if r < length (rspStore e) then expireRspCB r e else e)"
| "atp_step (OpListen h) e = ([], Listen h e)"
| "atp_step (OpSetLastTID v) e = ([], SetLastTID v e)"

definition atp_perform :: "'h atp_op \<Rightarrow> 'h Endpoint \<Rightarrow> 'h Endpoint" where
  "atp_perform op e = snd (atp_step op e)"

fun atp_trace :: "'h atp_op list \<Rightarrow> 'h Endpoint \<Rightarrow> 'h atp_effect list" where
  "atp_trace [] e = []"
| "atp_trace (op # ops) e = fst (atp_step op e) @ atp_trace ops (atp_perform op e)"

lemma atp_inv_requester: "requester_ok e' \<Longrightarrow> same_responder e e' \<Longrightarrow> atp_inv e \<Longrightarrow> atp_inv e'"
  by (simp add: atp_inv_def same_responder_ok)

lemma atp_inv_responder: "responder_ok e' \<Longrightarrow> same_requester e e' \<Longrightarrow> atp_inv e \<Longrightarrow> atp_inv e'"
  by (simp add: atp_inv_def same_requester_ok)

lemma atp_inv_HandleInbound: "atp_inv e \<Longrightarrow> atp_inv (snd (HandleInbound packet from local hint e))"
  unfolding HandleInbound_def Let_def
  by (auto split: option.split simp: atp_inv_def
      intro: responder_ok_handleTReq requester_ok_handleTResp responder_ok_handleTRel
      simp: same_requester_ok [OF same_handleTReq] same_responder_ok [OF same_handleTResp] same_requester_ok [OF same_handleTRel])

lemma atp_inv_perform:
  assumes inv: "atp_inv e"
  shows "atp_inv (atp_perform op e)"
proof (cases op)
  case (OpBegin req)
  then show ?thesis
    using inv
    by (auto simp: atp_perform_def atp_inv_def split: sum.split
        intro: requester_ok_begin same_responder_ok [OF same_SendRequest_begin, THEN iffD2])
next
  case (OpTransmit p ub d)
  then show ?thesis
    using inv by (auto simp: atp_perform_def atp_inv_def requester_ok_transmit same_responder_ok [OF same_SendRequest_transmit])
next
  case (OpRetry p)
  then show ?thesis
    using inv by (auto simp: atp_perform_def atp_inv_def requester_ok_onRetry same_responder_ok [OF same_onRetry])
next
  case (OpCancel p)
  then show ?thesis
    using inv by (auto simp: atp_perform_def atp_inv_def Cancel_def requester_ok_cancelTCB same_responder_ok [OF same_cancelTCB])
next
  case (OpReply k msg)
  then show ?thesis
    using inv by (auto simp: atp_perform_def atp_inv_def responder_ok_reply same_requester_ok [OF same_reply])
next
  case (OpExpire r)
  then show ?thesis
    using inv by (auto simp: atp_perform_def atp_inv_def responder_ok_expire same_requester_ok [OF same_expireRspCB])
next
  case (OpInbound packet s l hint)
  then show ?thesis using atp_inv_HandleInbound [OF inv] by (simp add: atp_perform_def)
qed (use inv in \<open>simp_all add: atp_perform_def atp_inv_def requester_ok_def responder_ok_def Listen_def SetLastTID_def\<close>)

lemma atp_inv_new: "atp_inv (NewEndpoint a)"
  by (simp add: atp_inv_def requester_ok_def responder_ok_def NewEndpoint_def)

interpretation atp_runs: guarded_component "NewEndpoint a" atp_perform atp_inv for a
  by unfold_locales (auto intro: atp_inv_new atp_inv_perform)

definition atp_after :: "Address option \<Rightarrow> 'h atp_op list \<Rightarrow> 'h Endpoint" where
  "atp_after a ops = fold atp_perform ops (NewEndpoint a)"

lemma atp_after_inv: "atp_inv (atp_after a ops)"
  unfolding atp_after_def by (rule atp_runs.invar_run)

lemma scanTID_numeral:
  "scanTID (numeral n) m t = (let t = t + 1 in if map_of m t = None then t else scanTID (pred_numeral n) m t)"
  by (simp add: numeral_eq_Suc)

definition client_addr :: Address where "client_addr = \<lparr>Net = 1, Node = 7, Socket = 128\<rparr>"
definition server_addr :: Address where "server_addr = \<lparr>Net = 1, Node = 200, Socket = 6\<rparr>"

definition sample_req :: Request where
  "sample_req = \<lparr>rqSrc = client_addr, rqDst = server_addr, rqUserBytes = 9, rqData = [1, 2], rqNumBuffers = 2,
     rqXO = True, rqTRelTO = 0, rqRetryTimeout = 0, rqMaxRetries = 1\<rparr>"

text \<open>
  C20. Well-formed transaction tables: whatever requests are made, packets arrive and timers fire, a
  live identifier leads to a control block that carries it, is still waited for and has room for
  every packet it may accept, at most eight; so no received sequence number indexes outside a
  buffer, a cached response has at most eight packets, and the pacing delay of a peer stays between
  0 and 16 ms.
\<close>

theorem atp_tables_well_formed:
  "(\<forall>k p. map_of (tcbs (atp_after a ops)) k = Some p \<longrightarrow>
      p < length (tcbStore (atp_after a ops)) \<and>
      (let t = tcbStore (atp_after a ops) ! p in
       tid t = k \<and> \<not> finished t \<and> bitmap t \<noteq> 0 \<and> 1 \<le> expected t \<and> expected t \<le> 8 \<and>
       length (Buffers (resp t)) = expected t \<and> length (UserBytes (resp t)) = 8 \<and>
       (\<forall>i. bit (bitmap t) i \<longrightarrow> i < expected t))) \<and>
   (\<forall>k r. map_of (rspcbs (atp_after a ops)) k = Some r \<longrightarrow>
      r < length (rspStore (atp_after a ops)) \<and> length (cached (rspStore (atp_after a ops) ! r)) \<le> 8) \<and>
   (\<forall>b. 0 \<le> currentResponderPacingLocked b (atp_after a ops) \<and>
      currentResponderPacingLocked b (atp_after a ops) \<le> adaptivePacerMaxDelay)"
proof -
  let ?e = "atp_after a ops"
  have inv: "requester_ok ?e" "responder_ok ?e"
    using atp_after_inv by (auto simp: atp_inv_def)
  have "0 \<le> currentResponderPacingLocked b ?e \<and> currentResponderPacingLocked b ?e \<le> adaptivePacerMaxDelay" for b
    using inv(2) by (auto simp: responder_ok_def currentResponderPacingLocked_def split: option.split)
  moreover have "r < length (rspStore ?e) \<and> length (cached (rspStore ?e ! r)) \<le> 8" if "map_of (rspcbs ?e) k = Some r" for k r
    using inv(2) that nth_mem unfolding responder_ok_def by blast
  ultimately show ?thesis
    using requester_okD [OF inv(1)] by (auto simp: tcb_ok_def Let_def)
qed

theorem atp_tables_well_formed_witness:
  "map_of (tcbs (atp_after None [OpBegin sample_req] :: nat Endpoint)) 1 = Some 0 \<and>
   length (Buffers (resp (tcbStore (atp_after None [OpBegin sample_req] :: nat Endpoint) ! 0))) =
     expected (tcbStore (atp_after None [OpBegin sample_req] :: nat Endpoint) ! 0)"
proof -
  have "map_of (tcbs (atp_after None [OpBegin sample_req] :: nat Endpoint)) 1 = Some 0"
    by (simp add: atp_after_def atp_perform_def NewEndpoint_def SendRequest_begin_def sample_req_def allocTIDLocked_def scanTID_numeral)
  with atp_tables_well_formed [of None "[OpBegin sample_req] :: nat atp_op list"]
  show ?thesis by (auto simp: Let_def)
qed

section \<open>Exactly once\<close>

text \<open>A call of the handler for an exactly-once request, and the steps that release one.\<close>

fun handlesXO :: "Address \<times> u16 \<Rightarrow> 'h atp_effect \<Rightarrow> bool" where
  "handlesXO key (CallHandler req _) \<longleftrightarrow> inXO req \<and> (inSrc req, inTID req) = key"
| "handlesXO key _ \<longleftrightarrow> False"

fun releases :: "Address \<times> u16 \<Rightarrow> 'h atp_op \<Rightarrow> 'h Endpoint \<Rightarrow> bool" where
  "releases key (OpInbound packet from local hint) e \<longleftrightarrow>
     (case Unmarshal packet of Some h \<Rightarrow> FuncCode h = TREL \<and> (from, TransID h) = key | None \<Rightarrow> False)"
| "releases key (OpExpire r) e \<longleftrightarrow> map_of (rspcbs e) key = Some r"
| "releases key _ e \<longleftrightarrow> False"

fun unreleased :: "Address \<times> u16 \<Rightarrow> 'h atp_op list \<Rightarrow> 'h Endpoint \<Rightarrow> bool" where
  "unreleased key [] e \<longleftrightarrow> True"
| "unreleased key (op # ops) e \<longleftrightarrow> \<not> releases key op e \<and> unreleased key ops (atp_perform op e)"

abbreviation handled :: "Address \<times> u16 \<Rightarrow> 'h atp_effect list \<Rightarrow> nat" where
  "handled key effs \<equiv> length (filter (handlesXO key) effs)"

lemma handled_replayFrom [simp]: "filter (handlesXO key) (replayFrom s d bm hint delay i f ps) = []"
  by (induction s d bm hint delay i f ps rule: replayFrom.induct) auto

lemma handled_requester [simp]:
  "filter (handlesXO key) (fst (handleTResp h d a e)) = []" "filter (handlesXO key) (fst (cancelTCB p er e)) = []"
  "filter (handlesXO key) (fst (onRetry p e)) = []" "filter (handlesXO key) (fst (SendRequest_transmit p ub d e)) = []"
  by (auto simp: handleTResp_def cancelTCB_def onRetry_def SendRequest_transmit_def armRetryTimerLocked_def
      stopRetry_def sendTRel_def finish_def Let_def split: option.split)

lemma handled_reply [simp]: "filter (handlesXO key) (fst (reply k msg e)) = []"
  by (auto simp: reply_def Let_def replayCachedFiltered_def split: option.split)

lemma handled_TRel [simp]: "filter (handlesXO key) (fst (handleTRel h a e)) = []"
  by (auto simp: handleTRel_def split: option.split)

lemma rspcbs_requester [simp]:
  "rspcbs (snd (handleTResp h d a e)) = rspcbs e" "rspcbs (snd (cancelTCB p er e)) = rspcbs e"
  "rspcbs (snd (onRetry p e)) = rspcbs e" "rspcbs (snd (SendRequest_transmit p ub d e)) = rspcbs e"
  using same_handleTResp [of e h d a] same_cancelTCB [of e p er] same_onRetry [of e p] same_SendRequest_transmit [of e p ub d]
  by (simp_all add: same_responder_def)

lemma rspcbs_begin: "SendRequest_begin req e = Inr (p, e') \<Longrightarrow> rspcbs e' = rspcbs e"
  using same_SendRequest_begin by (fastforce simp: same_responder_def)

lemma rspcbs_reply [simp]: "rspcbs (snd (reply k msg e)) = rspcbs e"
  by (auto simp: reply_def Let_def updRsp_def split: option.split)

lemma handleTReq_held:
  assumes "map_of (rspcbs e) key = Some r"
  shows "handled key (fst (handleTReq h d a l hint e)) = 0"
    "map_of (rspcbs (snd (handleTReq h d a l hint e))) key = Some r"
  using assms by (auto simp: handleTReq_def Let_def callHandler_def replayCachedFiltered_def)

lemma handleTReq_new:
  "handled key (fst (handleTReq h d a l hint e)) = 0 \<or>
   handled key (fst (handleTReq h d a l hint e)) = 1 \<and> map_of (rspcbs (snd (handleTReq h d a l hint e))) key \<noteq> None"
  by (auto simp: handleTReq_def Let_def callHandler_def replayCachedFiltered_def)

lemma HandleInbound_held:
  assumes "map_of (rspcbs e) key = Some r" "\<not> releases key (OpInbound packet s l hint) e"
  shows "handled key (fst (HandleInbound packet s l hint e)) = 0"
    "map_of (rspcbs (snd (HandleInbound packet s l hint e))) key = Some r"
  using assms handleTReq_held [OF assms(1)]
  by (auto simp: HandleInbound_def Let_def handleTRel_def split: option.splits)

lemma step_held:
  assumes "map_of (rspcbs e) key = Some r" "\<not> releases key op e"
  shows "handled key (fst (atp_step op e)) = 0 \<and> map_of (rspcbs (atp_perform op e)) key = Some r"
  using assms HandleInbound_held [OF assms(1)]
  by (cases op) (auto simp: atp_perform_def Cancel_def Listen_def SetLastTID_def expireRspCB_def Let_def rspcbs_begin
      split: sum.split)

lemma HandleInbound_new:
  "handled key (fst (HandleInbound packet s l hint e)) = 0 \<or>
   handled key (fst (HandleInbound packet s l hint e)) = 1 \<and>
     map_of (rspcbs (snd (HandleInbound packet s l hint e))) key \<noteq> None"
proof (cases "Unmarshal packet")
  case (Some h)
  then show ?thesis
    using handleTReq_new [of key h "drop HeaderSize packet" s l hint e] by (simp add: HandleInbound_def Let_def)
qed (simp add: HandleInbound_def)

lemma step_new:
  "handled key (fst (atp_step op e)) = 0 \<or>
   handled key (fst (atp_step op e)) = 1 \<and> map_of (rspcbs (atp_perform op e)) key \<noteq> None"
  using HandleInbound_new [of key _ _ _ _ e]
  by (cases op) (simp_all add: atp_perform_def Cancel_def)

lemma unreleased_held: "map_of (rspcbs e) key = Some r \<Longrightarrow> unreleased key ops e \<Longrightarrow> handled key (atp_trace ops e) = 0"
  by (induction ops arbitrary: e) (auto dest: step_held)

text \<open>
  C19. Exactly once: along any run in which the transaction is not released (no release packet for it
  arrives and its release timer does not fire) the handler is called at most once for an
  exactly-once transaction of a client, however often the request is repeated and whenever the
  handler answers; and not at all when the transaction is already held.
\<close>

theorem atp_exactly_once:
  assumes "unreleased key ops e"
  shows "handled key (atp_trace ops e) \<le> (if map_of (rspcbs e) key = None then 1 else 0)"
  using assms
proof (induction ops arbitrary: e)
  case (Cons op ops)
  show ?case
  proof (cases "map_of (rspcbs e) key")
    case None
    have rest: "handled key (atp_trace ops (atp_perform op e)) \<le> (if map_of (rspcbs (atp_perform op e)) key = None then 1 else 0)"
      using Cons by simp
    then show ?thesis using step_new [of key op e] None by (auto split: if_splits)
  next
    case (Some r)
    then show ?thesis using unreleased_held [OF Some Cons.prems] by simp
  qed
qed simp

definition sample_treq :: "bool \<Rightarrow> bytes" where
  "sample_treq once = Marshal \<lparr>Control = (if once then TREQ OR XOBit else TREQ), Bitmap = 3, TransID = 5, UserData = 0\<rparr>"

theorem atp_exactly_once_witness:
  "handled (client_addr, 5) (atp_trace [OpInbound (sample_treq True) client_addr server_addr None, OpInbound (sample_treq True) client_addr server_addr None]
      (Listen True (NewEndpoint None) :: nat Endpoint)) \<le> 1"
proof -
  let ?ops = "[OpInbound (sample_treq True) client_addr server_addr None, OpInbound (sample_treq True) client_addr server_addr None] :: nat atp_op list"
  have "unreleased (client_addr, 5) ?ops (Listen True (NewEndpoint None))"
    by (simp add: sample_treq_def Unmarshal_image [of _ "[]", simplified] FuncCode_def)
  from atp_exactly_once [OF this] show ?thesis by (simp add: NewEndpoint_def Listen_def)
qed

section \<open>Reassembly of a response\<close>

text \<open>The packet with index \<open>i\<close> of a response, as it comes off the wire.\<close>

definition wirePacket :: "u16 \<Rightarrow> ResponseMessage \<Rightarrow> nat \<Rightarrow> bytes" where
  "wirePacket t msg i = pktHeader (responsePacket t msg i) @ pktData (responsePacket t msg i)"

definition responseHeader :: "u16 \<Rightarrow> ResponseMessage \<Rightarrow> nat \<Rightarrow> Header" where
  "responseHeader t msg i =
    \<lparr>Control = (if i = length (msgBuffers msg) - 1 then TRESP OR EOMBit else TRESP), Bitmap = word_of_nat i,
     TransID = t, UserData = (if i < length (msgUserBytes msg) then msgUserBytes msg ! i else 0)\<rparr>"

lemma wirePacket_eq: "wirePacket t msg i = headerImage (responseHeader t msg i) @ msgBuffers msg ! i"
  by (simp add: wirePacket_def responsePacket_def responseHeader_def)

lemma unat_small: "i < 8 \<Longrightarrow> unat (word_of_nat i :: u8) = i"
  by (simp add: unat_of_nat take_bit_eq_mod)

lemma responseHeader_simps [simp]:
  "FuncCode (responseHeader t msg i) = TRESP" "\<not> STS (responseHeader t msg i)"
  "EOM (responseHeader t msg i) \<longleftrightarrow> i = length (msgBuffers msg) - 1"
  "TransID (responseHeader t msg i) = t"
  "i < 8 \<Longrightarrow> unat (Bitmap (responseHeader t msg i)) = i"
  by (simp_all add: responseHeader_def FuncCode_def STS_def EOM_def unat_small)

lemma HandleInbound_response:
  "HandleInbound (wirePacket t msg i) s l hint e = handleTResp (responseHeader t msg i) (msgBuffers msg ! i) s e"
  by (simp add: HandleInbound_def wirePacket_eq Let_def)

text \<open>The control block after the packets with the indices \<open>got\<close> of a response.\<close>

definition collected :: "ResponseMessage \<Rightarrow> nat set \<Rightarrow> tcb \<Rightarrow> bool" where
  "collected msg got t \<longleftrightarrow>
     (\<forall>i<8. bit (bitmap t) i \<longleftrightarrow> i < expected t \<and> i \<notin> got \<and>
        \<not> (length (msgBuffers msg) - 1 \<in> got \<and> length (msgBuffers msg) - 1 < expected t \<and> length (msgBuffers msg) \<le> i)) \<and>
     (\<forall>i<expected t. Buffers (resp t) ! i = (if i \<in> got then msgBuffers msg ! i else [])) \<and>
     (\<forall>i<expected t. UserBytes (resp t) ! i = (if i \<in> got \<and> i < length (msgUserBytes msg) then msgUserBytes msg ! i else 0)) \<and>
     Count (resp t) = card (got \<inter> {..<expected t})"

lemma collected_absorb:
  assumes ok: "tcb_ok t" and c: "collected msg got t" and i: "i < expected t" "i < length (msgBuffers msg)"
    and k: "got \<subseteq> {..<length (msgBuffers msg)}"
  shows "collected msg (insert i got) (absorb (responseHeader tr msg i) (msgBuffers msg ! i) t)"
proof -
  have i8: "i < 8" and n8: "expected t \<le> 8" using ok i by (auto simp: tcb_ok_def)
  have bit_i: "bit (bitmap t) i \<longleftrightarrow> i \<notin> got"
    using c i i8 by (auto simp: collected_def)
  have "bit (bitmap (absorb (responseHeader tr msg i) (msgBuffers msg ! i) t)) j \<longleftrightarrow>
      j < expected t \<and> j \<notin> insert i got \<and>
      \<not> (length (msgBuffers msg) - 1 \<in> insert i got \<and> length (msgBuffers msg) - 1 < expected t \<and> length (msgBuffers msg) \<le> j)" if "j < 8" for j
    using that c i i8 k by (auto simp: bit_absorb collected_def)
  moreover have "card (insert i got \<inter> {..<expected t}) = (if i \<in> got then 0 else 1) + card (got \<inter> {..<expected t})"
    using i by (auto simp: insert_absorb Int_insert_left)
  ultimately show ?thesis
    using c i i8 n8 bit_i ok unfolding collected_def
    by (auto simp: absorb_resp nth_list_update tcb_ok_def responseHeader_def unat_small insert_absorb)
qed

definition completes :: "ResponseMessage \<Rightarrow> nat \<Rightarrow> nat set \<Rightarrow> bool" where
  "completes msg n got \<longleftrightarrow> {..<min (length (msgBuffers msg)) n} \<subseteq> got"

lemma collected_outside:
  "collected msg got t \<Longrightarrow> \<not> i < expected t \<Longrightarrow> collected msg (insert i got) t"
  by (auto simp: collected_def)

lemma collected_complete:
  assumes "tcb_ok t" "collected msg got t" "msgBuffers msg \<noteq> []"
  shows "bitmap t = 0 \<longleftrightarrow> completes msg (expected t) got"
proof -
  let ?k = "length (msgBuffers msg)"
  have n: "expected t \<le> 8" using assms by (simp add: tcb_ok_def)
  have "bitmap t = 0 \<longleftrightarrow> (\<forall>i<expected t. i \<in> got \<or> (?k - 1 \<in> got \<and> ?k - 1 < expected t \<and> ?k \<le> i))"
  proof -
    have "\<forall>i<8. bit (bitmap t) i \<longleftrightarrow> i < expected t \<and> i \<notin> got \<and> \<not> (?k - 1 \<in> got \<and> ?k - 1 < expected t \<and> ?k \<le> i)"
      using assms(2) unfolding collected_def by blast
    then show ?thesis using less_le_trans [OF _ n] unfolding zero_bits_iff by blast
  qed
  also have "\<dots> \<longleftrightarrow> completes msg (expected t) got"
  proof
    assume all: "completes msg (expected t) got"
    show "\<forall>i<expected t. i \<in> got \<or> (?k - 1 \<in> got \<and> ?k - 1 < expected t \<and> ?k \<le> i)"
    proof (intro allI impI)
      fix i assume i: "i < expected t"
      show "i \<in> got \<or> (?k - 1 \<in> got \<and> ?k - 1 < expected t \<and> ?k \<le> i)"
      proof (cases "i < ?k")
        case True then show ?thesis using all i by (auto simp: completes_def)
      next
        case False
        then have "?k - 1 < min ?k (expected t)" using i assms(3) by (cases "msgBuffers msg") auto
        then show ?thesis using all False by (auto simp: completes_def)
      qed
    qed
  qed (auto simp: completes_def)
  finally show ?thesis .
qed

lemma collected_result:
  assumes "tcb_ok t" "collected msg got t" "completes msg (expected t) got" "got \<subseteq> {..<length (msgBuffers msg)}"
  shows "Buffers (resp t) = take (expected t) (msgBuffers msg) @ replicate (expected t - length (msgBuffers msg)) []"
    "Count (resp t) = min (length (msgBuffers msg)) (expected t)"
proof -
  have "i \<in> got \<longleftrightarrow> i < length (msgBuffers msg)" if "i < expected t" for i
    using that assms(3,4) by (auto simp: completes_def)
  then have get: "Buffers (resp t) ! i = (if i < length (msgBuffers msg) then msgBuffers msg ! i else [])" if "i < expected t" for i
    using that assms(2) by (auto simp: collected_def)
  show "Buffers (resp t) = take (expected t) (msgBuffers msg) @ replicate (expected t - length (msgBuffers msg)) []"
    using assms(1) by (intro nth_equalityI) (auto simp: tcb_ok_def get nth_append min_def)
  have "got \<inter> {..<expected t} = {..<min (length (msgBuffers msg)) (expected t)}"
    using assms(3,4) by (auto simp: completes_def)
  then show "Count (resp t) = min (length (msgBuffers msg)) (expected t)"
    using assms(2) by (simp add: collected_def)
qed

text \<open>The effects of the packet that completes a transaction.\<close>

definition completion :: "nat \<Rightarrow> tcb \<Rightarrow> 'h atp_effect list" where
  "completion p t = stopRetry p t @ (if xo t then sendTRel (src t) (dst t) (tid t) else []) @ [CloseDone p]"

lemma handleTResp_live:
  assumes ok: "requester_ok e" and live: "map_of (tcbs e) t = Some p" and i: "i < 8"
    and s: "dst (tcbStore e ! p) = s"
  shows "handleTResp (responseHeader t msg i) d s e =
    (let cb = absorb (responseHeader t msg i) d (tcbStore e ! p) in
     if \<not> i < expected (tcbStore e ! p) then ([], e)
     else if bitmap cb = 0
     then (completion p (tcbStore e ! p),
           (updTcb p (\<lambda>c. absorb (responseHeader t msg i) d c\<lparr>finished := True, err := None\<rparr>) e)
             \<lparr>tcbs := AList.delete t (tcbs e)\<rparr>)
     else ([], updTcb p (absorb (responseHeader t msg i) d) e))"
  using requester_okD [OF ok live] live i s
  by (auto simp: handleTResp_def Let_def finish_def completion_def stopRetry_def)

definition responseOps :: "u16 \<Rightarrow> ResponseMessage \<Rightarrow> Address \<Rightarrow> Address \<Rightarrow> nat list \<Rightarrow> 'h atp_op list" where
  "responseOps t msg s l idxs = map (\<lambda>i. OpInbound (wirePacket t msg i) s l None) idxs"

lemma responseOps_Cons [simp]:
  "responseOps t msg s l (i # idxs) = OpInbound (wirePacket t msg i) s l None # responseOps t msg s l idxs"
  "responseOps t msg s l [] = []"
  by (simp_all add: responseOps_def)

lemma responseOps_gone:
  "map_of (tcbs e) t = None \<Longrightarrow>
   atp_trace (responseOps t msg s l idxs) e = [] \<and> fold atp_perform (responseOps t msg s l idxs) e = e"
proof (induction idxs)
  case (Cons i idxs)
  then have "handleTResp (responseHeader t msg i) d s e = ([], e)" for d by (simp add: handleTResp_def)
  with Cons show ?case by (simp add: atp_perform_def HandleInbound_response)
qed simp

lemma collect_responses:
  fixes l :: Address and e :: "'h Endpoint"
  assumes "requester_ok e" "map_of (tcbs e) t = Some p" "dst (tcbStore e ! p) = s"
    "collected msg got (tcbStore e ! p)" "got \<subseteq> {..<k}" "set idxs \<subseteq> {..<k}"
    and msg: "k = length (msgBuffers msg)" "0 < k" "k \<le> 8" and n: "expected (tcbStore e ! p) = n"
    and more: "\<not> completes msg n got"
  defines "ops \<equiv> responseOps t msg s l idxs"
  shows "if completes msg n (got \<union> set idxs)
    then atp_trace ops e = completion p (tcbStore e ! p) \<and> map_of (tcbs (fold atp_perform ops e)) t = None \<and>
      (\<exists>r. Wait p (fold atp_perform ops e) = Some (r, None) \<and>
        Buffers r = take n (msgBuffers msg) @ replicate (n - k) [] \<and> Count r = min k n)
    else atp_trace ops e = [] \<and> map_of (tcbs (fold atp_perform ops e)) t = Some p \<and> Wait p (fold atp_perform ops e) = None"
  using assms(1-6) n more unfolding ops_def
proof (induction idxs arbitrary: e got)
  case Nil
  then show ?case using requester_okD [OF Nil(1,2)] by (simp add: Wait_def)
next
  case (Cons i idxs)
  note live = requester_okD [OF Cons.prems(1,2)]
  have i: "i < k" "i < 8" using Cons.prems(6) msg by auto
  let ?h = "responseHeader t msg i" and ?d = "msgBuffers msg ! i" and ?c = "tcbStore e ! p"
  let ?cb = "absorb ?h ?d ?c" and ?op = "OpInbound (wirePacket t msg i) s l None :: 'h atp_op"
  have step: "atp_step ?op e = handleTResp ?h ?d s e" by (simp add: HandleInbound_response)
  note resp = handleTResp_live [OF Cons.prems(1,2) i(2) Cons.prems(3), of msg ?d]
  consider (outside) "\<not> i < n" | (last) "i < n" "bitmap ?cb = 0" | (more) "i < n" "bitmap ?cb \<noteq> 0" by blast
  then show ?case
  proof cases
    case outside
    then have same: "atp_step ?op e = ([], e)" using step resp Cons.prems(7) by simp
    then have perf: "atp_perform ?op e = e" by (simp only: atp_perform_def snd_conv)
    have "completes msg n (insert i G) = completes msg n G" for G
      using outside by (auto simp: completes_def)
    then show ?thesis
      using Cons.IH [OF Cons.prems(1-3) collected_outside [OF Cons.prems(4)], of i] Cons.prems outside same perf i
      by auto
  next
    case last
    have c: "collected msg (insert i got) ?cb" "tcb_ok ?cb"
      using collected_absorb [OF live(5) Cons.prems(4)] tcb_ok_absorb [OF live(5)] i last Cons.prems msg by auto
    have all: "completes msg n (insert i got)"
      using collected_complete [OF c(2,1)] last Cons.prems(7) msg by auto
    then have "completes msg n (got \<union> set (i # idxs))" by (auto simp: completes_def)
    moreover have eq: "atp_step ?op e = (completion p ?c,
        (updTcb p (\<lambda>c. absorb ?h ?d c\<lparr>finished := True, err := None\<rparr>) e)\<lparr>tcbs := AList.delete t (tcbs e)\<rparr>)"
      using step resp last Cons.prems(7) by (simp add: Let_def)
    moreover from eq have perf: "atp_perform ?op e =
        (updTcb p (\<lambda>c. absorb ?h ?d c\<lparr>finished := True, err := None\<rparr>) e)\<lparr>tcbs := AList.delete t (tcbs e)\<rparr>"
      by (simp only: atp_perform_def snd_conv)
    ultimately show ?thesis
      using responseOps_gone [of "atp_perform ?op e" t msg s l idxs] collected_result [OF c(2,1)] all Cons.prems(5,7) i msg live(1)
      by (auto simp: Wait_def)
  next
    case more
    let ?e = "updTcb p (absorb ?h ?d) e"
    have eq: "atp_step ?op e = ([], ?e)" using step resp more Cons.prems(7) by (simp add: Let_def)
    have c: "collected msg (insert i got) ?cb" "tcb_ok ?cb"
      using collected_absorb [OF live(5) Cons.prems(4)] tcb_ok_absorb [OF live(5)] i more Cons.prems msg by auto
    then have notall: "\<not> completes msg n (insert i got)"
      using collected_complete [OF c(2,1)] more Cons.prems(7) msg by auto
    have ok: "requester_ok ?e" using more by (intro requester_ok_updTcb [OF Cons.prems(1)]) (auto intro: tcb_ok_absorb)
    from eq have perf: "atp_perform ?op e = ?e" by (simp only: atp_perform_def snd_conv)
    have same: "completion p ?cb = completion p ?c" by (simp add: completion_def stopRetry_def)
    show ?thesis
      using Cons.IH [OF ok, of "insert i got"] Cons.prems c notall live(1) eq perf same i by auto
  qed
qed

lemma SendRequest_live:
  assumes ok: "requester_ok e0" and send: "SendRequest req e0 = Inr (p, effs, e)"
  shows "requester_ok e" "map_of (tcbs e) (tid (tcbStore e ! p)) = Some p" "dst (tcbStore e ! p) = rqDst req"
    "src (tcbStore e ! p) = rqSrc req" "xo (tcbStore e ! p) = rqXO req"
    "expected (tcbStore e ! p) = nat (rqNumBuffers req)" "1 \<le> rqNumBuffers req" "collected msg {} (tcbStore e ! p)"
    "timerSet (tcbStore e ! p)" "retriesLeft (tcbStore e ! p) = (if rqMaxRetries req = 0 then 8 else rqMaxRetries req)"
    "length (header (tcbStore e ! p)) = 8 + length (rqData req)"
proof -
  obtain e1 where new: "SendRequest_begin req e0 = Inr (p, e1)"
    and rest: "SendRequest_transmit p (rqUserBytes req) (rqData req) e1 = (effs, e)"
    using send by (auto simp: SendRequest_def)
  have n: "1 \<le> rqNumBuffers req" "rqNumBuffers req \<le> 8"
    using new by (auto simp: SendRequest_begin_def split: if_splits)
  then show "1 \<le> rqNumBuffers req" by simp
  have cell: "p < length (tcbStore e1)" "map_of (tcbs e1) (tid (tcbStore e1 ! p)) = Some p"
    "dst (tcbStore e1 ! p) = rqDst req" "src (tcbStore e1 ! p) = rqSrc req" "xo (tcbStore e1 ! p) = rqXO req"
    "expected (tcbStore e1 ! p) = nat (rqNumBuffers req)" "bitmap (tcbStore e1 ! p) = fullBitmap (nat (rqNumBuffers req))"
    "resp (tcbStore e1 ! p) = \<lparr>Buffers = replicate (nat (rqNumBuffers req)) [], UserBytes = replicate 8 0, Count = 0\<rparr>"
    "retriesLeft (tcbStore e1 ! p) = (if rqMaxRetries req = 0 then 8 else rqMaxRetries req)"
    using new by (auto simp: SendRequest_begin_def allocTIDLocked_def Let_def split: if_splits)
  have e: "e = updTcb p (\<lambda>t. t\<lparr>header := buildTReq t (rqUserBytes req) (rqData req), timerSet := True\<rparr>) e1"
    using rest cell(1) by (auto simp: SendRequest_transmit_def armRetryTimerLocked_def Let_def)
  show "requester_ok e" using requester_ok_transmit [OF requester_ok_begin [OF ok new]] rest by (metis snd_conv)
  show "map_of (tcbs e) (tid (tcbStore e ! p)) = Some p" "dst (tcbStore e ! p) = rqDst req"
    "src (tcbStore e ! p) = rqSrc req" "xo (tcbStore e ! p) = rqXO req" "timerSet (tcbStore e ! p)"
    "expected (tcbStore e ! p) = nat (rqNumBuffers req)"
    "retriesLeft (tcbStore e ! p) = (if rqMaxRetries req = 0 then 8 else rqMaxRetries req)"
    "length (header (tcbStore e ! p)) = 8 + length (rqData req)"
    using cell by (simp_all add: e buildTReq_def Let_def)
  have "collected msg {} t" if "bitmap t = fullBitmap m" "expected t = m" "m \<le> 8"
    "resp t = \<lparr>Buffers = replicate m [], UserBytes = replicate 8 0, Count = 0\<rparr>" for m t
    using that by (simp add: collected_def bit_fullBitmap)
  then show "collected msg {} (tcbStore e ! p)"
    using cell n by (simp add: e)
qed

text \<open>
  C18. A transaction delivers the response it got: whatever the endpoint did before, once a request for
  \<open>n\<close> packets is sent and packets of a response of \<open>k\<close> pieces arrive in any order, with losses and
  repetitions, the transaction completes exactly with the packet that leaves none of the first
  \<open>min k n\<close> missing. Then the waiting caller gets those pieces in order and their number, the
  identifier is free again, and an exactly-once transaction is released, once; until then nothing is
  sent and the caller waits.
\<close>

theorem atp_response_assembled:
  fixes e :: "'h Endpoint"
  assumes "SendRequest req (atp_after a hist) = Inr (p, effs, e)"
    and "k = length (msgBuffers msg)" "0 < k" "k \<le> 8" "set idxs \<subseteq> {..<k}"
    and "t = tid (tcbStore e ! p)" "n = nat (rqNumBuffers req)"
    and "ops = responseOps t msg (rqDst req) l idxs"
  shows "if {..<min k n} \<subseteq> set idxs
    then atp_trace ops e = [StopRetry p] @
        (if rqXO req then [Send (rqSrc req) (rqDst req) (Marshal \<lparr>Control = TREL, Bitmap = 0, TransID = t, UserData = 0\<rparr>) None] else []) @
        [CloseDone p] \<and>
      map_of (tcbs (fold atp_perform ops e)) t = None \<and>
      (\<exists>r. Wait p (fold atp_perform ops e) = Some (r, None) \<and>
        Buffers r = take n (msgBuffers msg) @ replicate (n - k) [] \<and> Count r = min k n)
    else atp_trace ops e = [] \<and> map_of (tcbs (fold atp_perform ops e)) t = Some p \<and> Wait p (fold atp_perform ops e) = None"
proof -
  have "requester_ok (atp_after a hist :: 'h Endpoint)" using atp_after_inv by (auto simp: atp_inv_def)
  note live = SendRequest_live [OF this assms(1)]
  have "\<not> completes msg n {}" using assms(2,3,7) live(7) by (auto simp: completes_def lessThan_empty_iff min_def split: if_splits)
  then show ?thesis
    using collect_responses [OF live(1,2,3,8) _ assms(5,2-4), of n l] assms live
    by (simp add: completes_def completion_def stopRetry_def sendTRel_def cong: if_cong)
qed

definition sample_msg :: ResponseMessage where
  "sample_msg = \<lparr>msgBuffers = [[10], [11, 12]], msgUserBytes = [7]\<rparr>"

definition sample_sent :: "nat Endpoint" where
  "sample_sent = snd (snd (projr (SendRequest sample_req (atp_after None []))))"

lemma sample_sent: "SendRequest sample_req (atp_after None []) = Inr (0, fst (snd (projr (SendRequest sample_req (atp_after None [] :: nat Endpoint)))), sample_sent)"
  by (simp add: sample_sent_def SendRequest_def SendRequest_begin_def sample_req_def atp_after_def NewEndpoint_def allocTIDLocked_def
      scanTID_numeral)

theorem atp_response_assembled_witness:
  "\<exists>r. Wait 0 (fold atp_perform (responseOps (tid (tcbStore sample_sent ! 0)) sample_msg server_addr client_addr [1, 1, 0]) sample_sent)
      = Some (r, None) \<and> Buffers r = [[10], [11, 12]] \<and> Count r = 2"
proof -
  have sub: "{..<min 2 2} \<subseteq> set [1, 1, 0 :: nat]" by auto
  have k: "2 = length (msgBuffers sample_msg)" and i: "set [1, 1, 0] \<subseteq> {..<2 :: nat}"
    and n: "2 = nat (rqNumBuffers sample_req)" and d: "rqDst sample_req = server_addr"
    and m: "msgBuffers sample_msg = [[10], [11, 12]]"
    by (simp_all add: sample_msg_def sample_req_def)
  show ?thesis
    using atp_response_assembled [OF sample_sent k _ _ i refl n refl, of client_addr, unfolded if_P [OF sub]] d m
    by (simp del: responseOps_Cons)
qed

section \<open>Retransmission\<close>

text \<open>A control block that waits with its request packet up to date.\<close>

definition armed :: "'h Endpoint \<Rightarrow> nat \<Rightarrow> tcb \<Rightarrow> bool" where
  "armed e p c \<longleftrightarrow> p < length (tcbStore e) \<and> tcbStore e ! p = c \<and> map_of (tcbs e) (tid c) = Some p \<and> \<not> finished c \<and>
     timerSet c \<and> 2 \<le> length (header c) \<and> header c ! 1 = bitmap c"

lemma refresh_same: "2 \<le> length (header c) \<Longrightarrow> header c ! 1 = bitmap c \<Longrightarrow> refreshBitmapInHeader c = c"
  by (metis (no_types, lifting) list_update_id One_nat_def refreshBitmapInHeader_def tcb.surjective tcb.update_convs(9))

lemma onRetry_again:
  assumes "armed e p c" "retriesLeft c \<noteq> 0"
  defines "c' \<equiv> c\<lparr>retriesLeft := (if retriesLeft c > 0 then retriesLeft c - 1 else retriesLeft c)\<rparr>"
  shows "fst (onRetry p e) = [ArmRetry p (retryTimeout c), Send (src c) (dst c) (header c) None]"
    "armed (snd (onRetry p e)) p c'"
proof -
  have live: "p < length (tcbStore e)" "tcbStore e ! p = c" "map_of (tcbs e) (tid c) = Some p" "timerSet c"
    "2 \<le> length (header c)" "header c ! 1 = bitmap c" "\<not> finished c"
    using assms(1) by (simp_all add: armed_def)
  have same: "refreshBitmapInHeader (c\<lparr>retriesLeft := r\<rparr>) = c\<lparr>retriesLeft := r\<rparr>" "refreshBitmapInHeader c = c" for r
    using live by (auto intro: refresh_same)
  have timer: "c\<lparr>retriesLeft := r, timerSet := True\<rparr> = c\<lparr>retriesLeft := r\<rparr>" "c\<lparr>timerSet := True\<rparr> = c" for r
    using live(4) by simp_all
  have "onRetry p e = ([ArmRetry p (retryTimeout c), Send (src c) (dst c) (header c) None], updTcb p (\<lambda>_. c') e)"
    using live assms(2) unfolding c'_def
    by (cases "retriesLeft c > 0") (simp_all add: onRetry_def Let_def armRetryTimerLocked_def updTcb_def same timer)
  with live show "fst (onRetry p e) = [ArmRetry p (retryTimeout c), Send (src c) (dst c) (header c) None]"
    "armed (snd (onRetry p e)) p c'"
    by (simp_all add: armed_def c'_def)
qed

lemma onRetry_last:
  assumes "armed e p c" "retriesLeft c = 0"
  shows "fst (onRetry p e) = [StopRetry p, CloseDone p]" "map_of (tcbs (snd (onRetry p e))) (tid c) = None"
    "Wait p (snd (onRetry p e)) = Some (resp c, Some ErrTimeout)"
  using assms by (auto simp: armed_def onRetry_def cancelTCB_def Let_def finish_def stopRetry_def Wait_def)

lemma SendRequest_armed:
  assumes ok: "requester_ok e0" and send: "SendRequest req e0 = Inr (p, effs, e)"
  shows "armed e p (tcbStore e ! p)"
    "effs = [Send (rqSrc req) (rqDst req) (header (tcbStore e ! p)) None, ArmRetry p (retryTimeout (tcbStore e ! p))]"
proof -
  note live = SendRequest_live [OF ok send]
  obtain e1 where new: "SendRequest_begin req e0 = Inr (p, e1)"
    and rest: "SendRequest_transmit p (rqUserBytes req) (rqData req) e1 = (effs, e)"
    using send by (auto simp: SendRequest_def)
  have p: "p < length (tcbStore e1)"
    using new by (auto simp: SendRequest_begin_def allocTIDLocked_def Let_def split: if_splits)
  have e: "e = updTcb p (\<lambda>t. t\<lparr>header := buildTReq t (rqUserBytes req) (rqData req), timerSet := True\<rparr>) e1"
    using rest p by (auto simp: SendRequest_transmit_def armRetryTimerLocked_def Let_def)
  have "header (tcbStore e ! p) ! 1 = bitmap (tcbStore e ! p)"
    using p by (simp add: e buildTReq_def Let_def headerImage_def)
  then show "armed e p (tcbStore e ! p)"
    using requester_okD [OF live(1,2)] live by (simp add: armed_def)
  show "effs = [Send (rqSrc req) (rqDst req) (header (tcbStore e ! p)) None, ArmRetry p (retryTimeout (tcbStore e ! p))]"
    using rest p live(3,4) by (auto simp: e SendRequest_transmit_def armRetryTimerLocked_def Let_def)
qed

definition retryStep :: "nat \<Rightarrow> tcb \<Rightarrow> 'h atp_effect list" where
  "retryStep p c = [ArmRetry p (retryTimeout c), Send (src c) (dst c) (header c) None]"

lemma retry_run:
  "armed e p c \<Longrightarrow> retriesLeft c = int m \<Longrightarrow> j \<le> m \<Longrightarrow>
   atp_trace (replicate j (OpRetry p)) e = concat (replicate j (retryStep p c)) \<and>
   armed (fold atp_perform (replicate j (OpRetry p)) e) p (c\<lparr>retriesLeft := int (m - j)\<rparr>)"
proof (induction j arbitrary: e c m)
  case 0
  then show ?case by (metis (mono_tags) atp_trace.simps(1) concat.simps(1) diff_zero fold_simps(1) replicate_0 tcb.surjective tcb.update_convs(11))
next
  case (Suc j)
  then obtain m' where m: "m = Suc m'" "j \<le> m'" by (cases m) auto
  have live: "p < length (tcbStore e)" using Suc.prems(1) by (simp add: armed_def)
  then have perf: "atp_perform (OpRetry p) e = snd (onRetry p e)" by (simp add: atp_perform_def)
  from onRetry_again [OF Suc.prems(1)] Suc.prems m
  have step: "fst (onRetry p e) = retryStep p c" "armed (snd (onRetry p e)) p (c\<lparr>retriesLeft := int m'\<rparr>)"
    by (auto simp: retryStep_def)
  show ?case
    using Suc.IH [OF step(2), of m'] m live step(1) perf by (simp add: retryStep_def)
qed

text \<open>
  C21. A request that is never answered gives up: it is sent once and retransmitted, unchanged, at each
  of the next \<open>m\<close> expiries of its timer, where \<open>m\<close> is the retry limit (8 when none is given); until
  then the caller waits, and at the next expiry it gets the timeout error, the timer is stopped and
  the identifier is free again.
\<close>

theorem atp_gives_up:
  fixes e :: "'h Endpoint"
  assumes send: "SendRequest req (atp_after a hist) = Inr (p, effs, e)" and m: "0 \<le> rqMaxRetries req"
    "m = (if rqMaxRetries req = 0 then 8 else nat (rqMaxRetries req))"
    and pkt: "pkt = header (tcbStore e ! p)" and T: "T = retryTimeout (tcbStore e ! p)"
  defines "after j \<equiv> fold atp_perform (replicate j (OpRetry p)) e"
  shows "effs = [Send (rqSrc req) (rqDst req) pkt None, ArmRetry p T] \<and>
    atp_trace (replicate (Suc m) (OpRetry p)) e =
      concat (replicate m [ArmRetry p T, Send (rqSrc req) (rqDst req) pkt None]) @ [StopRetry p, CloseDone p] \<and>
    (\<forall>j\<le>m. Wait p (after j) = None) \<and>
    (\<exists>r. Wait p (after (Suc m)) = Some (r, Some ErrTimeout)) \<and>
    map_of (tcbs (after (Suc m))) (tid (tcbStore e ! p)) = None"
proof -
  let ?c = "tcbStore e ! p"
  have ok: "requester_ok (atp_after a hist :: 'h Endpoint)" using atp_after_inv by (auto simp: atp_inv_def)
  note live = SendRequest_live [OF ok send] and start = SendRequest_armed [OF ok send]
  have left: "retriesLeft ?c = int m" using live(10) m by auto
  have run: "atp_trace (replicate j (OpRetry p)) e = concat (replicate j (retryStep p ?c))"
    "armed (after j) p (?c\<lparr>retriesLeft := int (m - j)\<rparr>)" if "j \<le> m" for j
    using retry_run [OF start(1) left that] by (auto simp: after_def)
  have trace: "atp_trace (ops @ [op]) s = atp_trace ops s @ fst (atp_step op (fold atp_perform ops s))" for ops op and s :: "'h Endpoint"
    by (induction ops arbitrary: s) auto
  have last: "fst (onRetry p (after m)) = [StopRetry p, CloseDone p]"
    "map_of (tcbs (snd (onRetry p (after m)))) (tid ?c) = None" "\<exists>r. Wait p (snd (onRetry p (after m))) = Some (r, Some ErrTimeout)"
    using onRetry_last [OF run(2) [of m]] by auto
  have p: "p < length (tcbStore (after m))" using run(2) [of m] by (simp add: armed_def)
  have suc: "replicate (Suc m) (OpRetry p) = replicate m (OpRetry p) @ [OpRetry p]" by (simp flip: replicate_append_same)
  have "after (Suc m) = snd (onRetry p (after m))"
    using p by (simp add: after_def suc atp_perform_def del: replicate.simps)
  moreover have "atp_trace (replicate (Suc m) (OpRetry p)) e = concat (replicate m (retryStep p ?c)) @ [StopRetry p, CloseDone p]"
    using p last(1) run(1) [of m] unfolding suc trace by (simp add: after_def)
  moreover have "Wait p (after j) = None" if "j \<le> m" for j
    using run(2) [OF that] by (auto simp: armed_def Wait_def Let_def)
  ultimately show ?thesis
    using last start(2) live(3,4) pkt T by (simp add: retryStep_def)
qed

theorem atp_gives_up_witness:
  "\<exists>r. Wait 0 (fold atp_perform [OpRetry 0, OpRetry 0] sample_sent) = Some (r, Some ErrTimeout)"
proof -
  have "0 \<le> rqMaxRetries sample_req" "1 = (if rqMaxRetries sample_req = 0 then 8 else nat (rqMaxRetries sample_req))"
    by (simp_all add: sample_req_def)
  from atp_gives_up [OF sample_sent this refl refl] show ?thesis by simp
qed

section \<open>Replays and stale handles\<close>

text \<open>A replay sends exactly the packets whose bit is set, in order.\<close>

fun isSend :: "'h atp_effect \<Rightarrow> bool" where
  "isSend (Send _ _ _ _) = True"
| "isSend _ = False"

lemma replayFrom_sends:
  "filter isSend (replayFrom s d bm hint delay i f ps) =
    map (\<lambda>j. Send s d (pktHeader (ps ! j) @ pktData (ps ! j)) hint) (filter (\<lambda>j. bit bm (i + j)) [0..<length ps])"
proof (induction s d bm hint delay i f ps rule: replayFrom.induct)
  case (2 s d bm hint delay i f p ps)
  have "[0..<length (p # ps)] = 0 # map Suc [0..<length ps]"
    by (simp add: map_Suc_upt upt_conv_Cons del: upt_Suc)
  then show ?case
    using 2 by (auto simp: and_bit_zero_iff filter_map o_def)
qed simp

lemma duplicate_replayed:
  assumes "map_of (rspcbs e) (s, TransID h) = Some r" "gotResp (rspStore e ! r)" "FuncCode h = TREQ" "XO h" "admissible e s"
    "cached (rspStore e ! r) = buildResponsePackets (TransID h) msg"
  shows "filter isSend (fst (HandleInbound (Marshal h @ d) s l hint e)) =
      map (\<lambda>j. Send l s (wirePacket (TransID h) msg j) hint) (filter (bit (Bitmap h)) [0..<length (msgBuffers msg)])"
proof -
  have "filter isSend (fst (HandleInbound (Marshal h @ d) s l hint e)) =
      map (\<lambda>j. Send l s (pktHeader (buildResponsePackets (TransID h) msg ! j) @ pktData (buildResponsePackets (TransID h) msg ! j)) hint)
        (filter (bit (Bitmap h)) [0..<length (buildResponsePackets (TransID h) msg)])"
    using assms by (simp add: HandleInbound_def Let_def handleTReq_def replayCachedFiltered_def replayFrom_sends)
  then show ?thesis by (simp add: buildResponsePackets_def wirePacket_def)
qed

text \<open>
  A handle that outlives its transaction is dangerous: when the identifier has been given to another
  transaction meanwhile, cancelling the old handle drops the new control block, and its caller is
  neither answered nor told.
\<close>

lemma Cancel_stale_handle:
  assumes "finished (tcbStore e ! p)" "map_of (tcbs e) (tid (tcbStore e ! p)) = Some q" "\<not> finished (tcbStore e ! q)"
  shows "map_of (tcbs (snd (Cancel p e))) (tid (tcbStore e ! p)) = None \<and> Wait q (snd (Cancel p e)) = None"
  using assms by (simp add: Cancel_def cancelTCB_def Let_def finish_def Wait_def)

end
