(* ===== verification/Asp.thy ===== *)
theory Asp
  imports Atp Router
begin

text \<open>
  The AppleTalk Session Protocol: the packets of \<^verbatim>\<open>protocol/asp/asp.go\<close>, the session manager of
  \<^verbatim>\<open>service/asp/session.go\<close> and the service of \<^verbatim>\<open>service/asp/asp.go\<close>, on top of the transaction
  engine of theory \<open>Atp\<close>.

  The service owns its ATP endpoint, so the model runs the operations of the endpoint inside the
  service and maps what the endpoint sends to calls on the router, as \<open>sendBridge\<close> does. Sessions
  are Go pointers: the table, the maintenance goroutine and the goroutines that finish a write
  share them, so they live in a store that only grows. The AFP server behind the interface
  \<open>afp.CommandHandler\<close> is a parameter: a state and the functions of the interface.

  A handler is one step, except that \<open>handleASPWrite\<close> is two, cut before it records the write in
  the session, and the goroutine it starts is a third: sessions may be closed, by the peer or by a
  timeout, between any of them. A tick of the maintenance goroutine of any session may run at any
  time, since a \<open>select\<close> with several ready channels takes any of them.
\<close>

section \<open>Packets\<close>

abbreviation (input) SPFuncCloseSess :: u8 where "SPFuncCloseSess \<equiv> 1"
abbreviation (input) SPFuncCommand :: u8 where "SPFuncCommand \<equiv> 2"
abbreviation (input) SPFuncGetStatus :: u8 where "SPFuncGetStatus \<equiv> 3"
abbreviation (input) SPFuncOpenSess :: u8 where "SPFuncOpenSess \<equiv> 4"
abbreviation (input) SPFuncTickle :: u8 where "SPFuncTickle \<equiv> 5"
abbreviation (input) SPFuncWrite :: u8 where "SPFuncWrite \<equiv> 6"
abbreviation (input) SPFuncWriteContinue :: u8 where "SPFuncWriteContinue \<equiv> 7"
abbreviation (input) SPFuncAttention :: u8 where "SPFuncAttention \<equiv> 8"

abbreviation (input) ASPVersion :: u16 where "ASPVersion \<equiv> 0x0100"

text \<open>Untyped constants of Go: they take the width of their use.\<close>

abbreviation (input) SPErrorNoError :: "'a::len word" where "SPErrorNoError \<equiv> 0"
abbreviation (input) SPErrorBadVersNum :: "'a::len word" where "SPErrorBadVersNum \<equiv> - 1066"
abbreviation (input) SPErrorParamErr :: "'a::len word" where "SPErrorParamErr \<equiv> - 1070"
abbreviation (input) SPErrorSizeErr :: "'a::len word" where "SPErrorSizeErr \<equiv> - 1073"
abbreviation (input) SPErrorTooManyClients :: "'a::len word" where "SPErrorTooManyClients \<equiv> - 1074"

abbreviation (input) AspAttnServerGoingDown :: u16 where "AspAttnServerGoingDown \<equiv> 0x8000"

abbreviation (input) ATPMaxData :: nat where "ATPMaxData \<equiv> 578"
abbreviation (input) ATPMaxPackets :: nat where "ATPMaxPackets \<equiv> 8"
abbreviation (input) QuantumSize :: nat where "QuantumSize \<equiv> 4624"

text \<open>The three fields every user-data word is made of.\<close>

definition userFunction :: "u32 \<Rightarrow> u8" where
  "userFunction ub = ucast (drop_bit 24 ub AND 0xFF)"

definition userSession :: "u32 \<Rightarrow> u8" where
  "userSession ub = ucast (drop_bit 16 ub AND 0xFF)"

definition userLow :: "u32 \<Rightarrow> u16" where
  "userLow ub = ucast (ub AND 0xFFFF)"

record OpenSessPacket =
  WSSSocket :: u8
  VersionNum :: u16

definition ParseOpenSessPacket :: "u32 \<Rightarrow> OpenSessPacket" where
  "ParseOpenSessPacket ub = \<lparr>WSSSocket = userSession ub, VersionNum = userLow ub\<rparr>"

record OpenSessReplyPacket =
  SSSSocket :: u8
  orSessionID :: u8
  ErrorCode :: u16

definition openReplyUserData :: "OpenSessReplyPacket \<Rightarrow> u32" where
  "openReplyUserData p =
    push_bit 24 (ucast (SSSSocket p)) OR push_bit 16 (ucast (orSessionID p)) OR ucast (ErrorCode p)"

definition ParseCloseSessPacket :: "u32 \<Rightarrow> u8" where
  "ParseCloseSessPacket ub = userSession ub"

definition CloseSessReplyUserData :: u32 where
  "CloseSessReplyUserData = 0"

record CommandPacket =
  cpSessionID :: u8
  cpSeqNum :: u16
  cpCmdBlock :: bytes

definition ParseCommandPacket :: "u32 \<Rightarrow> bytes \<Rightarrow> CommandPacket" where
  "ParseCommandPacket ub payload = \<lparr>cpSessionID = userSession ub, cpSeqNum = userLow ub, cpCmdBlock = payload\<rparr>"

definition ParseWritePacket :: "u32 \<Rightarrow> bytes \<Rightarrow> CommandPacket" where
  "ParseWritePacket ub payload = \<lparr>cpSessionID = userSession ub, cpSeqNum = userLow ub, cpCmdBlock = payload\<rparr>"

record WriteContinuePacket =
  wcSessionID :: u8
  wcSeqNum :: u16
  wcBufferSize :: u16

definition continueUserData :: "WriteContinuePacket \<Rightarrow> u32" where
  "continueUserData p =
    push_bit 24 (ucast SPFuncWriteContinue) OR push_bit 16 (ucast (wcSessionID p)) OR ucast (wcSeqNum p)"

definition continueMarshalWire :: "bytes \<Rightarrow> WriteContinuePacket \<Rightarrow> wire_error + nat \<times> bytes" where
  "continueMarshalWire b p = PutU16 b (wcBufferSize p)"

definition continueMarshalData :: "WriteContinuePacket \<Rightarrow> bytes" where
  "continueMarshalData p =
    (let b = replicate 2 0 in case continueMarshalWire b p of Inr (_, b') \<Rightarrow> b' | Inl _ \<Rightarrow> b)"

definition continueUnmarshalWire :: "bytes \<Rightarrow> WriteContinuePacket \<Rightarrow> wire_error + WriteContinuePacket \<times> nat" where
  "continueUnmarshalWire b p = bind_err (GetU16 b) (\<lambda>(v, n). Inr (p\<lparr>wcBufferSize := v\<rparr>, n))"

definition tickleUserData :: "u8 \<Rightarrow> u32" where
  "tickleUserData sess = push_bit 24 (ucast SPFuncTickle) OR push_bit 16 (ucast sess)"

definition attentionUserData :: "u8 \<Rightarrow> u16 \<Rightarrow> u32" where
  "attentionUserData sess code =
    push_bit 24 (ucast SPFuncAttention) OR push_bit 16 (ucast sess) OR ucast code"

section \<open>Sessions\<close>

datatype sessionState = stateOpen | stateClosing | stateClosed

datatype writePhase = writeIdle | writeAwaitingData

record seqFilter =
  lastSeq :: u16
  filterTID :: u16
  inited :: bool

definition accept :: "u16 \<Rightarrow> u16 \<Rightarrow> seqFilter \<Rightarrow> bool \<times> seqFilter" where
  "accept sq t f =
    (if inited f \<and> sq = lastSeq f \<and> t \<noteq> filterTID f then (False, f)
     else (True, f\<lparr>lastSeq := sq, filterTID := t, inited := True\<rparr>))"

text \<open>\<open>wsReply\<close> and \<open>wsPending\<close> are a reply function and a transaction handle of the endpoint.\<close>

record writeState =
  wsPhase :: writePhase
  wsSeqNum :: u16
  wsCmdBlock :: bytes
  wsWantBytes :: u32
  wsReply :: nat
  wsPending :: nat

record Session =
  sessID :: u8
  sstate :: sessionState
  WSNet :: u16
  WSNode :: u8
  WSSkt :: u8
  SrvNet :: u16
  SrvNode :: u8
  seqf :: seqFilter
  swrite :: "writeState option"
  lastActivity :: int
  stopClosed :: bool

definition touchActivity :: "int \<Rightarrow> Session \<Rightarrow> Session" where
  "touchActivity now x = x\<lparr>lastActivity := now\<rparr>"

definition isOpen :: "Session \<Rightarrow> bool" where
  "isOpen x \<longleftrightarrow> sstate x = stateOpen"

definition markClosing :: "Session \<Rightarrow> bool \<times> Session" where
  "markClosing x = (if sstate x = stateOpen then (True, x\<lparr>sstate := stateClosing\<rparr>) else (False, x))"

definition markClosed :: "Session \<Rightarrow> Session" where
  "markClosed x = x\<lparr>sstate := stateClosed\<rparr>"

definition beginWrite :: "writeState \<Rightarrow> Session \<Rightarrow> bool \<times> Session" where
  "beginWrite ws x =
    (if (case swrite x of Some w \<Rightarrow> wsPhase w \<noteq> writeIdle | None \<Rightarrow> False) then (False, x)
     else (True, x\<lparr>swrite := Some (ws\<lparr>wsPhase := writeAwaitingData\<rparr>)\<rparr>))"

definition endWrite :: "Session \<Rightarrow> writeState option \<times> Session" where
  "endWrite x = (swrite x, x\<lparr>swrite := None\<rparr>)"

definition CheckDuplicate :: "u16 \<Rightarrow> u16 \<Rightarrow> Session \<Rightarrow> bool \<times> Session" where
  "CheckDuplicate seqNum t x = (let (ok, f) = accept seqNum t (seqf x) in (ok, x\<lparr>seqf := f\<rparr>))"

section \<open>The service\<close>

abbreviation (input) ServerSocket :: u8 where "ServerSocket \<equiv> 252"
abbreviation (input) DDPTypeATP :: u8 where "DDPTypeATP \<equiv> 3"
abbreviation (input) TickleInterval :: int where "TickleInterval \<equiv> 30000000000"
abbreviation (input) SessionMaintenanceTimeout :: int where "SessionMaintenanceTimeout \<equiv> 120000000000"
abbreviation (input) AFPServer :: bytes where "AFPServer \<equiv> [0x41, 0x46, 0x50, 0x53, 0x65, 0x72, 0x76, 0x65, 0x72]"

text \<open>The hint that travels through the endpoint: the datagram of the request and its port.\<close>

type_synonym requestContext = "Datagram \<times> port"

text \<open>The interface of the AFP server, over its state: \<open>HandleCommand\<close> and \<open>GetStatus\<close>.\<close>

record 'a CommandHandler =
  HandleCommand :: "bytes \<Rightarrow> 'a \<Rightarrow> bytes \<times> u32 \<times> 'a"
  GetStatus :: "'a \<Rightarrow> bytes"

text \<open>
  A write on its way: the session, the command block, the bytes asked for, the transaction handle,
  the reply function, the bitmap of the request, and its sequence number.
\<close>

record writer =
  wrSess :: nat
  wrCmdBlock :: bytes
  wrWantBytes :: u32
  wrPending :: nat
  wrReply :: nat
  wrBitmap :: u8
  wrSeqNum :: u16

text \<open>
  \<open>starting\<close> are the writes between the request for data and \<open>beginWrite\<close>, \<open>completing\<close> the
  goroutines of \<open>completeWrite\<close>; \<open>commandHandler\<close> is the state of the AFP server, if one is set.
  \<open>panicked\<close> records that a closed channel was closed again, which ends the program.
\<close>

record 'a Service =
  serverName :: bytes
  zoneName :: bytes
  commandHandler :: "'a option"
  maxCmdSize :: nat
  quantumSize :: nat
  registeredZones :: "bytes list"
  endpoint :: "requestContext Endpoint option"
  sessions :: "(u8, nat) gomap"
  sessStore :: "Session list"
  managerStopped :: bool
  lifeDone :: bool
  hookOpen :: bool
  hookClose :: bool
  hookActivity :: bool
  starting :: "writer list"
  completing :: "writer list"
  panicked :: bool

datatype asp_effect =
    RouterReply Datagram port bytes
  | RouterRoute Datagram
  | Clock "requestContext atp_effect"
  | RegisterName bytes bytes bytes u8
  | UnregisterName bytes bytes bytes
  | CallHandleCommand bytes
  | StartMaintenance nat
  | OnSessionOpen nat
  | OnSessionClose nat
  | OnSessionActivity nat

definition New :: "bytes \<Rightarrow> 'a option \<Rightarrow> bytes \<Rightarrow> 'a Service" where
  "New name handler zone = \<lparr>serverName = name, zoneName = zone, commandHandler = handler,
     maxCmdSize = 0, quantumSize = 0, registeredZones = [], endpoint = None, sessions = [], sessStore = [],
     managerStopped = False, lifeDone = False, hookOpen = False, hookClose = False, hookActivity = False,
     starting = [], completing = [], panicked = False\<rparr>"

definition SetSessionLifecycleHooks :: "bool \<Rightarrow> bool \<Rightarrow> bool \<Rightarrow> 'a Service \<Rightarrow> 'a Service" where
  "SetSessionLifecycleHooks onOpen onClose onActivity s =
    s\<lparr>hookOpen := onOpen, hookClose := onClose, hookActivity := onActivity\<rparr>"

definition SetCommandHandler :: "'a option \<Rightarrow> 'a Service \<Rightarrow> 'a Service" where
  "SetCommandHandler handler s = s\<lparr>commandHandler := handler\<rparr>"

definition MaxReadSize :: "'a Service \<Rightarrow> nat" where
  "MaxReadSize s = quantumSize s"

definition effectiveQuantumSize :: "'a Service \<Rightarrow> nat" where
  "effectiveQuantumSize s = (if quantumSize s > 0 then quantumSize s else QuantumSize)"

definition effectiveMaxCmdSize :: "'a Service \<Rightarrow> nat" where
  "effectiveMaxCmdSize s = (if maxCmdSize s > 0 then maxCmdSize s else ATPMaxData)"

definition SPGetParms :: "u16 \<times> u16" where
  "SPGetParms = (word_of_nat ATPMaxData, word_of_nat QuantumSize)"

definition sendBridge :: "Address \<Rightarrow> Address \<Rightarrow> bytes \<Rightarrow> requestContext option \<Rightarrow> asp_effect" where
  "sendBridge s d payload hint =
    (case hint of
       Some (dg, p) \<Rightarrow> RouterReply dg p payload
     | None \<Rightarrow> RouterRoute
         \<lparr>HopCount = 0, DestinationNetwork = Net d, SourceNetwork = Net s, DestinationNode = Node d,
          SourceNode = Node s, DestinationSocket = Socket d, SourceSocket = Socket s,
          DDPType = DDPTypeATP, Data = payload\<rparr>)"

text \<open>What the endpoint does, seen from outside; a call of the handler is run by \<open>Inbound\<close> itself.\<close>

fun bridge :: "requestContext atp_effect \<Rightarrow> asp_effect" where
  "bridge (Send s d payload hint) = sendBridge s d payload hint"
| "bridge x = Clock x"

text \<open>Calls on the endpoint. The handlers run only once there is one.\<close>

definition replyTo :: "nat \<Rightarrow> ResponseMessage \<Rightarrow> 'a Service \<Rightarrow> asp_effect list \<times> 'a Service" where
  "replyTo k msg s =
    (let (effs, e) = reply k msg (the (endpoint s)) in (map bridge effs, s\<lparr>endpoint := Some e\<rparr>))"

definition requestFrom :: "Request \<Rightarrow> 'a Service \<Rightarrow> nat option \<times> asp_effect list \<times> 'a Service" where
  "requestFrom req s =
    (case SendRequest req (the (endpoint s)) of
       Inl _ \<Rightarrow> (None, [], s)
     | Inr (p, effs, e) \<Rightarrow> (Some p, map bridge effs, s\<lparr>endpoint := Some e\<rparr>))"

definition cancelPending :: "nat \<Rightarrow> 'a Service \<Rightarrow> asp_effect list \<times> 'a Service" where
  "cancelPending p s =
    (let (effs, e) = Cancel p (the (endpoint s)) in (map bridge effs, s\<lparr>endpoint := Some e\<rparr>))"

text \<open>A message with one empty buffer and one word of user data.\<close>

definition errorMessage :: "u32 \<Rightarrow> ResponseMessage" where
  "errorMessage ub = \<lparr>msgBuffers = [[]], msgUserBytes = [ub]\<rparr>"

definition emptyMessage :: ResponseMessage where
  "emptyMessage = \<lparr>msgBuffers = [[]], msgUserBytes = []\<rparr>"

section \<open>The session manager\<close>

definition Get :: "u8 \<Rightarrow> 'a Service \<Rightarrow> nat option" where
  "Get i s = map_of (sessions s) i"

definition SessionIDs :: "'a Service \<Rightarrow> u8 list" where
  "SessionIDs s = map fst (sessions s)"

definition updSess :: "nat \<Rightarrow> (Session \<Rightarrow> Session) \<Rightarrow> 'a Service \<Rightarrow> 'a Service" where
  "updSess p f s = s\<lparr>sessStore := (sessStore s)[p := f (sessStore s ! p)]\<rparr>"

text \<open>The first free identifier from 1 to 255, 0 when there is none.\<close>

definition freeSessionID :: "(u8, nat) gomap \<Rightarrow> u8" where
  "freeSessionID m = (case find (\<lambda>i. map_of m i = None) (map word_of_nat [1..<256]) of Some i \<Rightarrow> i | None \<Rightarrow> 0)"

definition Open :: "int \<Rightarrow> u16 \<Rightarrow> u8 \<Rightarrow> u8 \<Rightarrow> u16 \<Rightarrow> u8 \<Rightarrow> 'a Service \<Rightarrow> nat option \<times> asp_effect list \<times> 'a Service" where
  "Open now wsNet wsNode wssSocket srvNet srvNode s =
    (let i = freeSessionID (sessions s) in
     if i = 0 then (None, [], s)
     else
       let p = length (sessStore s);
           x = \<lparr>sessID = i, sstate = stateOpen, WSNet = wsNet, WSNode = wsNode, WSSkt = wssSocket,
                SrvNet = srvNet, SrvNode = srvNode, seqf = \<lparr>lastSeq = 0, filterTID = 0, inited = False\<rparr>,
                swrite = None, lastActivity = 0, stopClosed = False\<rparr> in
       (Some p, [StartMaintenance p],
        s\<lparr>sessStore := sessStore s @ [touchActivity now x], sessions := AList.update i p (sessions s)\<rparr>))"

text \<open>\<open>close(sess.stop)\<close>.\<close>

definition closeStop :: "nat \<Rightarrow> 'a Service \<Rightarrow> 'a Service" where
  "closeStop p s =
    (if stopClosed (sessStore s ! p) then s\<lparr>panicked := True\<rparr> else updSess p (\<lambda>x. x\<lparr>stopClosed := True\<rparr>) s)"

definition Close :: "u8 \<Rightarrow> 'a Service \<Rightarrow> asp_effect list \<times> 'a Service" where
  "Close i s =
    (case map_of (sessions s) i of
       None \<Rightarrow> ([], s)
     | Some p \<Rightarrow>
         let s = s\<lparr>sessions := AList.delete i (sessions s)\<rparr> in
         if \<not> fst (markClosing (sessStore s ! p)) then ([], s)
         else
           let s = closeStop p (updSess p (\<lambda>x. snd (markClosing x)) s);
               prev = fst (endWrite (sessStore s ! p));
               s = updSess p (\<lambda>x. snd (endWrite x)) s;
               (out, s) = (case prev of Some w \<Rightarrow> cancelPending (wsPending w) s | None \<Rightarrow> ([], s));
               s = updSess p markClosed s in
           (out @ (if hookClose s then [OnSessionClose p] else []), s))"

text \<open>\<open>SessionManager.Stop\<close>.\<close>

definition stopAll :: "'a Service \<Rightarrow> 'a Service" where
  "stopAll s =
    (let s = (if managerStopped s then s\<lparr>panicked := True\<rparr> else s\<lparr>managerStopped := True\<rparr>) in
     fold (\<lambda>(i, p) s. (closeStop p s)\<lparr>sessions := AList.delete i (sessions s)\<rparr>) (sessions s) s)"

section \<open>Replies\<close>

text \<open>The loop over the bits of the bitmap; a byte is 0 after eight shifts.\<close>

function countBits :: "u8 \<Rightarrow> nat" where
  "countBits b = (if b = 0 then 0 else unat (b AND 1) + countBits (drop_bit 1 b))"
  by auto

termination countBits
proof (relation "measure unat")
  fix b :: u8
  assume "b \<noteq> 0"
  moreover have "unat (drop_bit 1 b) = unat b div 2"
    by (simp only: unat_drop_bit_eq) (simp add: drop_bit_eq_div)
  ultimately show "(drop_bit 1 b, b) \<in> measure unat"
    by (simp add: unat_gt_0)
qed simp

definition bitmapMaxBytes :: "u8 \<Rightarrow> nat" where
  "bitmapMaxBytes b = countBits b * ATPMaxData"

definition chunkResponse :: "'a Service \<Rightarrow> bytes \<Rightarrow> u8 \<Rightarrow> bytes list" where
  "chunkResponse s data b =
    (let effective = quantumSize s;
         ws = bitmapMaxBytes b;
         effective = (if ws > 0 \<and> ws < effective then ws else effective);
         data = (if length data > effective then take effective data else data) in
     if length data = 0 then [[]]
     else
       let n = (length data + ATPMaxData - 1) div ATPMaxData in
       map (\<lambda>i. let start = i * ATPMaxData; fin = min (start + ATPMaxData) (length data) in
              take (fin - start) (drop start data)) [0..<n])"

text \<open>A command through the AFP server, when there is one, and the cut to the quantum.\<close>

definition runCommand :: "'a CommandHandler \<Rightarrow> bytes \<Rightarrow> 'a Service \<Rightarrow> bytes \<times> u32 \<times> asp_effect list \<times> 'a Service" where
  "runCommand H block s =
    (case commandHandler s of
       None \<Rightarrow> ([], 0, [], s)
     | Some a \<Rightarrow>
         let (data, code, a') = HandleCommand H block a in
         (data, code, [CallHandleCommand block], s\<lparr>commandHandler := Some a'\<rparr>))"

definition commandReply :: "'a CommandHandler \<Rightarrow> bytes \<Rightarrow> u8 \<Rightarrow> nat \<Rightarrow> 'a Service \<Rightarrow> asp_effect list \<times> 'a Service" where
  "commandReply H block bm k s =
    (let (data, code, called, s) = runCommand H block s;
         data = (if length data > effectiveQuantumSize s then take (effectiveQuantumSize s) data else data);
         (out, s) = replyTo k \<lparr>msgBuffers = chunkResponse s data bm, msgUserBytes = [code]\<rparr> s in
     (called @ out, s))"

section \<open>Handlers\<close>

definition noteActivity :: "int \<Rightarrow> nat \<Rightarrow> 'a Service \<Rightarrow> asp_effect list \<times> 'a Service" where
  "noteActivity now p s =
    (if hookActivity s then [OnSessionActivity p] else [], updSess p (touchActivity now) s)"

definition sessionedReplier :: "int \<Rightarrow> u8 \<Rightarrow> u16 \<Rightarrow> nat \<Rightarrow> u16 \<Rightarrow> nat \<Rightarrow> 'a Service \<Rightarrow>
    nat option \<times> asp_effect list \<times> 'a Service" where
  "sessionedReplier now sessionID seqNum cmdBlockLen t k s =
    (if cmdBlockLen > effectiveMaxCmdSize s then (None, replyTo k (errorMessage SPErrorSizeErr) s)
     else case Get sessionID s of
       None \<Rightarrow> (None, replyTo k (errorMessage SPErrorParamErr) s)
     | Some p \<Rightarrow>
         if \<not> isOpen (sessStore s ! p) then (None, replyTo k (errorMessage SPErrorParamErr) s)
         else
           let (act, s) = noteActivity now p s;
               ok = fst (CheckDuplicate seqNum t (sessStore s ! p));
               s = updSess p (\<lambda>x. snd (CheckDuplicate seqNum t x)) s in
           if \<not> ok then let (out, s) = replyTo k emptyMessage s in (None, act @ out, s)
           else (Some p, act, s))"

definition handleGetStatus :: "'a CommandHandler \<Rightarrow> IncomingRequest \<Rightarrow> nat \<Rightarrow> 'a Service \<Rightarrow> asp_effect list \<times> 'a Service" where
  "handleGetStatus H req k s =
    (let status = (case commandHandler s of Some a \<Rightarrow> GetStatus H a | None \<Rightarrow> []) in
     if length status > effectiveQuantumSize s then replyTo k (errorMessage SPErrorSizeErr) s
     else replyTo k \<lparr>msgBuffers = chunkResponse s status (inBitmap req), msgUserBytes = []\<rparr> s)"

definition handleOpenSession :: "int \<Rightarrow> IncomingRequest \<Rightarrow> nat \<Rightarrow> 'a Service \<Rightarrow> asp_effect list \<times> 'a Service" where
  "handleOpenSession now req k s =
    (let pkt = ParseOpenSessPacket (inUserBytes req) in
     if VersionNum pkt \<noteq> ASPVersion then
       replyTo k (errorMessage (openReplyUserData
         \<lparr>SSSSocket = ServerSocket, orSessionID = 0, ErrorCode = SPErrorBadVersNum\<rparr>)) s
     else case Open now (Net (inSrc req)) (Node (inSrc req)) (WSSSocket pkt) (Net (inLocal req)) (Node (inLocal req)) s of
       (None, _, s) \<Rightarrow>
         replyTo k (errorMessage (openReplyUserData
           \<lparr>SSSSocket = ServerSocket, orSessionID = 0, ErrorCode = SPErrorTooManyClients\<rparr>)) s
     | (Some p, start, s) \<Rightarrow>
         let hook = (if hookOpen s then [OnSessionOpen p] else []);
             (out, s) = replyTo k (errorMessage (openReplyUserData
               \<lparr>SSSSocket = ServerSocket, orSessionID = sessID (sessStore s ! p), ErrorCode = SPErrorNoError\<rparr>)) s in
         (start @ hook @ out, s))"

definition handleCloseSession :: "IncomingRequest \<Rightarrow> nat \<Rightarrow> 'a Service \<Rightarrow> asp_effect list \<times> 'a Service" where
  "handleCloseSession req k s =
    (let i = ParseCloseSessPacket (inUserBytes req) in
     case Get i s of
       None \<Rightarrow> replyTo k (errorMessage SPErrorParamErr) s
     | Some p \<Rightarrow>
         if \<not> isOpen (sessStore s ! p) then replyTo k (errorMessage SPErrorParamErr) s
         else
           let (closed, s) = Close i s;
               (out, s) = replyTo k (errorMessage CloseSessReplyUserData) s in
           (closed @ out, s))"

definition handleTickle :: "int \<Rightarrow> IncomingRequest \<Rightarrow> nat \<Rightarrow> 'a Service \<Rightarrow> asp_effect list \<times> 'a Service" where
  "handleTickle now req k s =
    (let (act, s) =
           (case Get (userSession (inUserBytes req)) s of
              Some p \<Rightarrow> if isOpen (sessStore s ! p) then noteActivity now p s else ([], s)
            | None \<Rightarrow> ([], s));
         (out, s) = replyTo k emptyMessage s in
     (act @ out, s))"

definition handleCommand :: "'a CommandHandler \<Rightarrow> int \<Rightarrow> IncomingRequest \<Rightarrow> nat \<Rightarrow> 'a Service \<Rightarrow>
    asp_effect list \<times> 'a Service" where
  "handleCommand H now req k s =
    (let pkt = ParseCommandPacket (inUserBytes req) (inData req) in
     case sessionedReplier now (cpSessionID pkt) (cpSeqNum pkt) (length (cpCmdBlock pkt)) (inTID req) k s of
       (None, out, s) \<Rightarrow> (out, s)
     | (Some p, act, s) \<Rightarrow>
         let (out, s) = commandReply H (cpCmdBlock pkt) (inBitmap req) k s in (act @ out, s))"

text \<open>The bytes a write asks for: the field of the command block, checked and clamped; \<open>None\<close> is the refusal.\<close>

definition wantedBytes :: "bytes \<Rightarrow> nat \<Rightarrow> u32 option" where
  "wantedBytes block quantum =
    (let raw = (if length block \<ge> 12 then be32 (block ! 8) (block ! 9) (block ! 10) (block ! 11) else 0) in
     if sint raw < 0 then None
     else if raw > word_of_nat quantum then Some (word_of_nat quantum) else Some raw)"

definition neededPackets :: "u32 \<Rightarrow> nat" where
  "neededPackets want =
    (let n = unat ((want + word_of_nat ATPMaxData - 1) div word_of_nat ATPMaxData);
         n = (if n = 0 then 1 else n) in
     if n > ATPMaxPackets then ATPMaxPackets else n)"

text \<open>\<open>handleASPWrite\<close> up to the request for data.\<close>

definition handleASPWrite :: "int \<Rightarrow> IncomingRequest \<Rightarrow> nat \<Rightarrow> 'a Service \<Rightarrow> asp_effect list \<times> 'a Service" where
  "handleASPWrite now req k s =
    (let pkt = ParseWritePacket (inUserBytes req) (inData req) in
     case sessionedReplier now (cpSessionID pkt) (cpSeqNum pkt) (length (cpCmdBlock pkt)) (inTID req) k s of
       (None, out, s) \<Rightarrow> (out, s)
     | (Some p, act, s) \<Rightarrow>
         (case wantedBytes (cpCmdBlock pkt) (quantumSize s) of
            None \<Rightarrow> let (out, s) = replyTo k (errorMessage SPErrorParamErr) s in (act @ out, s)
          | Some want \<Rightarrow>
              let wc = \<lparr>wcSessionID = cpSessionID pkt, wcSeqNum = cpSeqNum pkt, wcBufferSize = ucast want\<rparr>;
                  x = sessStore s ! p in
              case requestFrom
                  \<lparr>rqSrc = \<lparr>Net = Net (inLocal req), Node = Node (inLocal req), Socket = ServerSocket\<rparr>,
                   rqDst = \<lparr>Net = WSNet x, Node = WSNode x, Socket = WSSkt x\<rparr>,
                   rqUserBytes = continueUserData wc, rqData = continueMarshalData wc,
                   rqNumBuffers = int (neededPackets want), rqXO = True, rqTRelTO = 0,
                   rqRetryTimeout = 2 * 10^9, rqMaxRetries = 8\<rparr> s of
                (None, _, s) \<Rightarrow> let (out, s) = replyTo k (errorMessage SPErrorParamErr) s in (act @ out, s)
              | (Some q, asked, s) \<Rightarrow>
                  (act @ asked, s\<lparr>starting := starting s @
                     [\<lparr>wrSess = p, wrCmdBlock = cpCmdBlock pkt, wrWantBytes = want, wrPending = q, wrReply = k,
                       wrBitmap = inBitmap req, wrSeqNum = cpSeqNum pkt\<rparr>]\<rparr>)))"

text \<open>The rest of it: the write is recorded in the session, or refused when one is in flight.\<close>

definition startWrite :: "nat \<Rightarrow> 'a Service \<Rightarrow> asp_effect list \<times> 'a Service" where
  "startWrite j s =
    (let w = starting s ! j;
         s = s\<lparr>starting := take j (starting s) @ drop (Suc j) (starting s)\<rparr>;
         ws = \<lparr>wsPhase = writeIdle, wsSeqNum = wrSeqNum w, wsCmdBlock = wrCmdBlock w, wsWantBytes = wrWantBytes w,
               wsReply = wrReply w, wsPending = wrPending w\<rparr>;
         ok = fst (beginWrite ws (sessStore s ! wrSess w));
         s = updSess (wrSess w) (\<lambda>x. snd (beginWrite ws x)) s in
     if \<not> ok then
       let (can, s) = cancelPending (wrPending w) s;
           (out, s) = replyTo (wrReply w) (errorMessage SPErrorParamErr) s in
       (can @ out, s)
     else ([], s\<lparr>completing := completing s @ [w]\<rparr>))"

text \<open>
  The goroutine of \<open>completeWrite\<close>, once \<open>Wait\<close> has returned: with the response of the
  transaction, with its error, or because the service was stopped (\<open>viaStop\<close>).
\<close>

definition completeWrite :: "'a CommandHandler \<Rightarrow> bool \<Rightarrow> nat \<Rightarrow> 'a Service \<Rightarrow> asp_effect list \<times> 'a Service" where
  "completeWrite H viaStop j s =
    (let w = completing s ! j;
         waited = (if viaStop then (if lifeDone s then Some None else None)
                   else map_option (\<lambda>(r, er). if er = None then Some r else None) (Wait (wrPending w) (the (endpoint s)))) in
     case waited of
       None \<Rightarrow> ([], s)
     | Some res \<Rightarrow>
         let s = s\<lparr>completing := take j (completing s) @ drop (Suc j) (completing s)\<rparr>;
             s = updSess (wrSess w) (\<lambda>x. snd (endWrite x)) s in
         case res of
           None \<Rightarrow> replyTo (wrReply w) (errorMessage SPErrorParamErr) s
         | Some r \<Rightarrow>
             let data = concat (Buffers r);
                 data = (if word_of_nat (length data) > wrWantBytes w then take (unat (wrWantBytes w)) data else data) in
             commandReply H (wrCmdBlock w @ data) (wrBitmap w) (wrReply w) s)"

definition handleATPRequest :: "'a CommandHandler \<Rightarrow> int \<Rightarrow> IncomingRequest \<Rightarrow> nat \<Rightarrow> 'a Service \<Rightarrow>
    asp_effect list \<times> 'a Service" where
  "handleATPRequest H now req k s =
    (let cmd = userFunction (inUserBytes req) in
     if cmd = SPFuncGetStatus then handleGetStatus H req k s
     else if cmd = SPFuncOpenSess then handleOpenSession now req k s
     else if cmd = SPFuncCommand then handleCommand H now req k s
     else if cmd = SPFuncWrite then handleASPWrite now req k s
     else if cmd = SPFuncTickle then handleTickle now req k s
     else if cmd = SPFuncCloseSess then handleCloseSession req k s
     else replyTo k emptyMessage s)"

text \<open>The effects of \<open>HandleInbound\<close> in order; the handler runs where the endpoint calls it.\<close>

fun runInbound :: "'a CommandHandler \<Rightarrow> int \<Rightarrow> requestContext atp_effect list \<Rightarrow> 'a Service \<Rightarrow> asp_effect list \<times> 'a Service" where
  "runInbound H now [] s = ([], s)"
| "runInbound H now (x # xs) s =
    (let (out, s) = (case x of CallHandler req k \<Rightarrow> handleATPRequest H now req k s | _ \<Rightarrow> ([bridge x], s));
         (more, s) = runInbound H now xs s in
     (out @ more, s))"

definition aspInbound :: "'a CommandHandler \<Rightarrow> int \<Rightarrow> Datagram \<Rightarrow> port \<Rightarrow> 'a Service \<Rightarrow> asp_effect list \<times> 'a Service" where
  "aspInbound H now d p s =
    (if DDPType d \<noteq> DDPTypeATP then ([], s)
     else case endpoint s of
       None \<Rightarrow> ([], s)
     | Some e \<Rightarrow>
         let (effs, e) = HandleInbound (Data d)
               \<lparr>Net = SourceNetwork d, Node = SourceNode d, Socket = SourceSocket d\<rparr>
               \<lparr>Net = DestinationNetwork d, Node = DestinationNode d, Socket = DestinationSocket d\<rparr> (Some (d, p)) e in
         runInbound H now effs (s\<lparr>endpoint := Some e\<rparr>))"

section \<open>What the server sends by itself\<close>

definition toWorkstation :: "Session \<Rightarrow> u32 \<Rightarrow> duration \<Rightarrow> int \<Rightarrow> Request" where
  "toWorkstation x ub timeout retries =
    \<lparr>rqSrc = \<lparr>Net = SrvNet x, Node = SrvNode x, Socket = ServerSocket\<rparr>,
     rqDst = \<lparr>Net = WSNet x, Node = WSNode x, Socket = WSSkt x\<rparr>,
     rqUserBytes = ub, rqData = [], rqNumBuffers = 1, rqXO = False, rqTRelTO = 0,
     rqRetryTimeout = timeout, rqMaxRetries = retries\<rparr>"

definition sendTickle :: "nat \<Rightarrow> 'a Service \<Rightarrow> asp_effect list \<times> 'a Service" where
  "sendTickle p s =
    (if endpoint s = None then ([], s)
     else let x = sessStore s ! p in
       snd (requestFrom (toWorkstation x (tickleUserData (sessID x)) (5 * 10^9) 1) s))"

datatype attention_error = ZeroCode | UnknownSession u8 | NotStarted | RequestFailed

definition SendAttention :: "u8 \<Rightarrow> u16 \<Rightarrow> 'a Service \<Rightarrow> attention_error option \<times> asp_effect list \<times> 'a Service" where
  "SendAttention i code s =
    (if code = 0 then (Some ZeroCode, [], s)
     else case Get i s of
       None \<Rightarrow> (Some (UnknownSession i), [], s)
     | Some p \<Rightarrow>
         if endpoint s = None then (Some NotStarted, [], s)
         else case requestFrom (toWorkstation (sessStore s ! p) (attentionUserData i code) (2 * 10^9) 3) s of
             (None, out, s) \<Rightarrow> (Some RequestFailed, out, s)
           | (Some _, out, s) \<Rightarrow> (None, out, s))"

text \<open>One tick of the maintenance goroutine of a session.\<close>

definition maintenance :: "int \<Rightarrow> nat \<Rightarrow> 'a Service \<Rightarrow> asp_effect list \<times> 'a Service" where
  "maintenance now p s =
    (let x = sessStore s ! p in
     if now - lastActivity x > SessionMaintenanceTimeout then Close (sessID x) s
     else sendTickle p s)"

section \<open>Start and stop\<close>

definition registerInZone :: "bytes \<Rightarrow> 'a Service \<Rightarrow> asp_effect list \<times> 'a Service" where
  "registerInZone zone s =
    ([RegisterName (serverName s) AFPServer zone ServerSocket],
     s\<lparr>registeredZones := registeredZones s @ [zone]\<rparr>)"

fun registerAll :: "bytes list \<Rightarrow> 'a Service \<Rightarrow> asp_effect list \<times> 'a Service" where
  "registerAll [] s = ([], s)"
| "registerAll (z # zs) s =
    (let (out, s) = registerInZone z s; (more, s) = registerAll zs s in (out @ more, s))"

text \<open>\<open>zones\<close> is what the router answers to \<open>Zones()\<close>; the first result is false for the error.\<close>

definition aspStart :: "'a CommandHandler \<Rightarrow> bytes list \<Rightarrow> 'a Service \<Rightarrow> bool \<times> asp_effect list \<times> 'a Service" where
  "aspStart H zones s =
    (let s = s\<lparr>lifeDone := False, maxCmdSize := unat (fst SPGetParms), quantumSize := unat (snd SPGetParms)\<rparr> in
     if (case commandHandler s of Some a \<Rightarrow> length (GetStatus H a) > quantumSize s | None \<Rightarrow> False) then (False, [], s)
     else
       let s = s\<lparr>endpoint := Some (Listen True (NewEndpoint None))\<rparr> in
       (True, registerAll (if zoneName s \<noteq> [] then [zoneName s] else if zones = [] then [[]] else zones) s))"

fun attendAll :: "u8 list \<Rightarrow> 'a Service \<Rightarrow> asp_effect list \<times> 'a Service" where
  "attendAll [] s = ([], s)"
| "attendAll (i # is) s =
    (let (_, out, s) = SendAttention i AspAttnServerGoingDown s; (more, s) = attendAll is s in (out @ more, s))"

definition aspStop :: "'a Service \<Rightarrow> asp_effect list \<times> 'a Service" where
  "aspStop s =
    (let (out, s) = attendAll (SessionIDs s) s;
         un = map (UnregisterName (serverName s) AFPServer) (registeredZones s) in
     (out @ un, stopAll (s\<lparr>lifeDone := True\<rparr>)))"

section \<open>Runs\<close>

text \<open>
  Everything that can happen to a service once it is started: datagrams from the router, steps of
  the goroutines, timers of the endpoint, calls of its owner, and a close of any identifier, which
  covers a maintenance goroutine that has read the clock and closes later.
\<close>

datatype asp_op =
    OpDatagram int Datagram port
  | OpStartWrite nat
  | OpCompleteWrite bool nat
  | OpMaintenance int nat
  | OpClose u8
  | OpAttention u8 u16
  | OpTimer "requestContext atp_op"

text \<open>The callbacks of the endpoint's own timers; a pointer that was never handed out is not used.\<close>

fun timerOp :: "requestContext atp_op \<Rightarrow> bool" where
  "timerOp (OpRetry p) = True"
| "timerOp (OpExpire r) = True"
| "timerOp _ = False"

fun asp_step :: "'a CommandHandler \<Rightarrow> asp_op \<Rightarrow> 'a Service \<Rightarrow> asp_effect list \<times> 'a Service" where
  "asp_step H (OpDatagram now d p) s = aspInbound H now d p s"
| "asp_step H (OpStartWrite j) s = (if j < length (starting s) then startWrite j s else ([], s))"
| "asp_step H (OpCompleteWrite v j) s = (if j < length (completing s) then completeWrite H v j s else ([], s))"
| "asp_step H (OpMaintenance now p) s = (if p < length (sessStore s) then maintenance now p s else ([], s))"
| "asp_step H (OpClose i) s = Close i s"
| "asp_step H (OpAttention i code) s = snd (SendAttention i code s)"
| "asp_step H (OpTimer t) s =
    (case endpoint s of
       Some e \<Rightarrow> if timerOp t then let (effs, e) = atp_step t e in (map bridge effs, s\<lparr>endpoint := Some e\<rparr>) else ([], s)
     | None \<Rightarrow> ([], s))"

definition asp_perform :: "'a CommandHandler \<Rightarrow> asp_op \<Rightarrow> 'a Service \<Rightarrow> 'a Service" where
  "asp_perform H op s = snd (asp_step H op s)"

section \<open>The endpoint inside the service\<close>

definition grows :: "'h Endpoint \<Rightarrow> 'h Endpoint \<Rightarrow> bool" where
  "grows e e' \<longleftrightarrow> length (tcbStore e) \<le> length (tcbStore e') \<and> length (repliers e) \<le> length (repliers e') \<and>
     listening e' = listening e \<and> admissibleSrc e' = admissibleSrc e"

lemma grows_refl [simp]: "grows e e"
  by (simp add: grows_def)

lemma grows_trans [trans]: "grows a b \<Longrightarrow> grows b c \<Longrightarrow> grows a c"
  by (auto simp: grows_def)

lemma grows_requester:
  "grows e (snd (cancelTCB p er e))" "grows e (snd (onRetry p e))" "grows e (snd (SendRequest_transmit p ub d e))"
  "grows e (snd (handleTResp h d a e))"
  using same_cancelTCB [of e p er] same_onRetry [of e p] same_SendRequest_transmit [of e p ub d] same_handleTResp [of e h d a]
  by (auto simp: grows_def same_responder_def cancelTCB_def onRetry_def SendRequest_transmit_def handleTResp_def
      armRetryTimerLocked_def finish_def updTcb_def Let_def split: option.split)

lemma grows_begin: "SendRequest_begin req e = Inr (p, e') \<Longrightarrow> grows e e' \<and> p < length (tcbStore e')"
  by (auto simp: grows_def SendRequest_begin_def allocTIDLocked_def Let_def split: if_splits)

lemma grows_reply: "grows e (snd (reply k msg e))"
  by (auto simp: grows_def reply_def Let_def updRsp_def split: option.split)

lemma grows_TReq: "grows e (snd (handleTReq h d a l hint e))"
  by (auto simp: grows_def handleTReq_def callHandler_def Let_def relaxResponderPacingLocked_def
      increaseResponderPacingLocked_def ensureResponderPacerLocked_def split: option.split)

lemma grows_TRel: "grows e (snd (handleTRel h a e))"
  by (auto simp: grows_def handleTRel_def split: option.split)

lemma grows_HandleInbound: "grows e (snd (HandleInbound packet a l hint e))"
  by (auto simp: HandleInbound_def Let_def grows_requester grows_TReq grows_TRel split: option.split)

lemma atp_inv_reply: "atp_inv e \<Longrightarrow> k < length (repliers e) \<Longrightarrow> atp_inv (snd (reply k msg e))"
  using atp_inv_perform [of e "OpReply k msg"] by (simp add: atp_perform_def)

lemma atp_inv_Cancel: "atp_inv e \<Longrightarrow> p < length (tcbStore e) \<Longrightarrow> atp_inv (snd (Cancel p e))"
  using atp_inv_perform [of e "OpCancel p"] by (simp add: atp_perform_def)

lemma atp_inv_SendRequest:
  assumes inv: "atp_inv e" and send: "SendRequest req e = Inr (p, effs, e')"
  shows "atp_inv e' \<and> grows e e' \<and> p < length (tcbStore e')"
proof -
  obtain e1 where new: "SendRequest_begin req e = Inr (p, e1)"
    and rest: "SendRequest_transmit p (rqUserBytes req) (rqData req) e1 = (effs, e')"
    using send by (auto simp: SendRequest_def)
  have inv1: "atp_inv e1" using atp_inv_perform [OF inv, of "OpBegin req"] new by (simp add: atp_perform_def)
  have p: "grows e e1" "p < length (tcbStore e1)" using grows_begin [OF new] by auto
  have "grows e1 e'" using grows_requester(3) [of e1 p "rqUserBytes req" "rqData req"] rest by simp
  moreover have "atp_inv e'"
    using atp_inv_perform [OF inv1, of "OpTransmit p (rqUserBytes req) (rqData req)"] p rest by (simp add: atp_perform_def)
  ultimately show ?thesis using p by (auto simp: grows_def)
qed

lemma CallHandler_replyable:
  assumes "CallHandler req k \<in> set (fst (HandleInbound packet a l hint e))"
  shows "k < length (repliers (snd (HandleInbound packet a l hint e)))"
proof -
  have no: "CallHandler req k \<notin> set (replayFrom s d bm hint delay i f ps)" for s d bm delay i f ps
    by (induction s d bm hint delay i f ps rule: replayFrom.induct) auto
  show ?thesis
    using assms no
    by (auto simp: HandleInbound_def Let_def handleTReq_def callHandler_def handleTResp_def handleTRel_def
        armRetryTimerLocked_def stopRetry_def sendTRel_def finish_def replayCachedFiltered_def split: option.splits if_splits)
qed

section \<open>Invariant\<close>

text \<open>The table of sessions: identifiers are those of the sessions they lead to, which are open.\<close>

definition table_ok :: "'a Service \<Rightarrow> bool" where
  "table_ok s \<longleftrightarrow> wf_gomap (sessions s) \<and>
     (\<forall>i p. map_of (sessions s) i = Some p \<longrightarrow>
        i \<noteq> 0 \<and> p < length (sessStore s) \<and> sessID (sessStore s ! p) = i \<and> isOpen (sessStore s ! p)) \<and>
     (\<forall>p < length (sessStore s). isOpen (sessStore s ! p) \<longrightarrow> map_of (sessions s) (sessID (sessStore s ! p)) = Some p)"

text \<open>Every session is open with its channel open, or closed with its channel closed.\<close>

definition channels_ok :: "'a Service \<Rightarrow> bool" where
  "channels_ok s \<longleftrightarrow> \<not> panicked s \<and>
     (\<forall>x \<in> set (sessStore s). sstate x = (if stopClosed x then stateClosed else stateOpen))"

text \<open>The recorded write of an open session is the one goroutine that completes a write for it.\<close>

definition inflight :: "'a Service \<Rightarrow> nat \<Rightarrow> writer list" where
  "inflight s p = filter (\<lambda>w. wrSess w = p) (completing s)"

definition writes_ok :: "'a Service \<Rightarrow> bool" where
  "writes_ok s \<longleftrightarrow>
     (\<forall>w \<in> set (starting s) \<union> set (completing s). wrSess w < length (sessStore s)) \<and>
     (\<forall>p < length (sessStore s).
        (\<forall>ws. swrite (sessStore s ! p) = Some ws \<longrightarrow> wsPhase ws = writeAwaitingData) \<and>
        (isOpen (sessStore s ! p) \<longrightarrow>
          map wrPending (inflight s p) =
            (case swrite (sessStore s ! p) of Some ws \<Rightarrow> [wsPending ws] | None \<Rightarrow> [])))"

text \<open>Handles and reply functions that the service holds belong to its endpoint.\<close>

definition handles_ok :: "'a Service \<Rightarrow> bool" where
  "handles_ok s \<longleftrightarrow> endpoint s \<noteq> None \<and> atp_inv (the (endpoint s)) \<and>
     listening (the (endpoint s)) \<and> admissibleSrc (the (endpoint s)) = None \<and>
     quantumSize s = QuantumSize \<and> maxCmdSize s = ATPMaxData \<and>
     (\<forall>w \<in> set (starting s) \<union> set (completing s).
        wrPending w < length (tcbStore (the (endpoint s))) \<and> wrReply w < length (repliers (the (endpoint s)))) \<and>
     (\<forall>x \<in> set (sessStore s). \<forall>ws. swrite x = Some ws \<longrightarrow> wsPending ws < length (tcbStore (the (endpoint s))))"

definition asp_inv :: "'a Service \<Rightarrow> bool" where
  "asp_inv s \<longleftrightarrow> table_ok s \<and> channels_ok s \<and> writes_ok s \<and> handles_ok s"

text \<open>A step that touches only the endpoint and the AFP server.\<close>

definition calm :: "'a Service \<Rightarrow> 'a Service \<Rightarrow> bool" where
  "calm s s' \<longleftrightarrow> sessions s' = sessions s \<and> sessStore s' = sessStore s \<and> starting s' = starting s \<and>
     completing s' = completing s \<and> panicked s' = panicked s \<and> hookClose s' = hookClose s \<and>
     quantumSize s' = quantumSize s \<and> maxCmdSize s' = maxCmdSize s \<and>
     endpoint s' \<noteq> None \<and> atp_inv (the (endpoint s')) \<and> grows (the (endpoint s)) (the (endpoint s'))"

lemma asp_inv_calm:
  assumes inv: "asp_inv s" and calm: "calm s s'"
  shows "asp_inv s'"
proof -
  have same: "sessions s' = sessions s" "sessStore s' = sessStore s" "starting s' = starting s"
    "completing s' = completing s" "panicked s' = panicked s" "quantumSize s' = quantumSize s" "maxCmdSize s' = maxCmdSize s"
    and grow: "grows (the (endpoint s)) (the (endpoint s'))"
    and ep: "endpoint s' \<noteq> None" "atp_inv (the (endpoint s'))"
    using calm by (simp_all add: calm_def)
  have "table_ok s'" "channels_ok s'" "writes_ok s'"
    using inv by (simp_all add: asp_inv_def table_ok_def channels_ok_def writes_ok_def inflight_def same)
  moreover have "handles_ok s'"
    using inv ep grow unfolding asp_inv_def handles_ok_def same grows_def by (fastforce intro: order_less_le_trans)
  ultimately show ?thesis by (simp add: asp_inv_def)
qed

lemma calm_refl: "asp_inv s \<Longrightarrow> calm s s"
  by (simp add: calm_def asp_inv_def handles_ok_def)

lemma calm_trans [trans]: "calm a b \<Longrightarrow> calm b c \<Longrightarrow> calm a c"
  by (auto simp: calm_def intro: grows_trans)

abbreviation replyable :: "'a Service \<Rightarrow> nat \<Rightarrow> bool" where
  "replyable s k \<equiv> k < length (repliers (the (endpoint s)))"

lemma replyable_calm: "replyable s k \<Longrightarrow> calm s s' \<Longrightarrow> replyable s' k"
  by (auto simp: calm_def grows_def)

lemma asp_inv_endpoint: "asp_inv s \<Longrightarrow> endpoint s \<noteq> None \<and> atp_inv (the (endpoint s))"
  by (simp add: asp_inv_def handles_ok_def)

lemma calm_replyTo: "asp_inv s \<Longrightarrow> replyable s k \<Longrightarrow> calm s (snd (replyTo k msg s))"
  using atp_inv_reply [of "the (endpoint s)" k msg] grows_reply [of "the (endpoint s)" k msg]
  by (auto simp: replyTo_def calm_def asp_inv_def handles_ok_def split: prod.split)

lemma calm_cancelPending: "asp_inv s \<Longrightarrow> p < length (tcbStore (the (endpoint s))) \<Longrightarrow> calm s (snd (cancelPending p s))"
  using atp_inv_Cancel [of "the (endpoint s)" p] grows_requester(1) [of "the (endpoint s)" p ErrCancelled]
  by (auto simp: cancelPending_def Cancel_def calm_def asp_inv_def handles_ok_def split: prod.split)

lemma calm_requestFrom:
  assumes "asp_inv s" "requestFrom req s = (r, out, s')"
  shows "calm s s' \<and> (\<forall>q. r = Some q \<longrightarrow> q < length (tcbStore (the (endpoint s'))))"
  using assms atp_inv_SendRequest [of "the (endpoint s)" req] calm_refl [of s] asp_inv_endpoint [of s]
  by (auto simp: requestFrom_def calm_def split: sum.splits)

lemma calm_commandReply:
  assumes "asp_inv s" "replyable s k"
  shows "calm s (snd (commandReply H block bm k s))"
proof -
  obtain data code called s1 where run: "runCommand H block s = (data, code, called, s1)"
    by (metis prod_cases4)
  then have "calm s s1"
    using calm_refl [OF assms(1)] by (auto simp: runCommand_def calm_def split: option.splits prod.splits)
  then have "calm s (snd (replyTo k msg s1))" for msg
    using calm_replyTo asp_inv_calm [OF assms(1)] replyable_calm [OF assms(2)] calm_trans by blast
  then show ?thesis
    by (simp add: commandReply_def run Let_def case_prod_beta)
qed

section \<open>Every step keeps the invariant\<close>

lemma updSess_fields [simp]:
  "sessions (updSess p f s) = sessions s" "starting (updSess p f s) = starting s" "completing (updSess p f s) = completing s"
  "panicked (updSess p f s) = panicked s" "endpoint (updSess p f s) = endpoint s" "hookClose (updSess p f s) = hookClose s"
  "length (sessStore (updSess p f s)) = length (sessStore s)" "quantumSize (updSess p f s) = quantumSize s"
  "maxCmdSize (updSess p f s) = maxCmdSize s"
  "commandHandler (updSess p f s) = commandHandler s" "lifeDone (updSess p f s) = lifeDone s"
  by (simp_all add: updSess_def)

lemma updSess_nth [simp]:
  "q < length (sessStore s) \<Longrightarrow> sessStore (updSess p f s) ! q = (if q = p then f (sessStore s ! p) else sessStore s ! q)"
  by (simp add: updSess_def nth_list_update)

lemma inflight_updSess [simp]: "inflight (updSess p f s) = inflight s"
  by (simp add: inflight_def fun_eq_iff)

text \<open>An update of a session that leaves its identity, its state and its write alone.\<close>

lemma asp_inv_updSess:
  assumes inv: "asp_inv s" and keep: "\<And>x. sessID (f x) = sessID x" "\<And>x. sstate (f x) = sstate x"
    "\<And>x. stopClosed (f x) = stopClosed x" "\<And>x. swrite (f x) = swrite x"
  shows "asp_inv (updSess p f s)"
proof (cases "p < length (sessStore s)")
  case True
  have set: "set (sessStore (updSess p f s)) \<subseteq> insert (f (sessStore s ! p)) (set (sessStore s))"
    by (auto simp: updSess_def dest: set_update_subset_insert [THEN subsetD])
  have "table_ok (updSess p f s)" "writes_ok (updSess p f s)"
    using inv by (auto simp: asp_inv_def table_ok_def writes_ok_def keep isOpen_def)
  moreover have "sstate (sessStore s ! p) = (if stopClosed (sessStore s ! p) then stateClosed else stateOpen)"
    "swrite (sessStore s ! p) = Some ws \<Longrightarrow> wsPending ws < length (tcbStore (the (endpoint s)))" for ws
    using inv nth_mem [OF True] unfolding asp_inv_def channels_ok_def handles_ok_def by blast+
  then have "channels_ok (updSess p f s)" "handles_ok (updSess p f s)"
    using inv set unfolding asp_inv_def channels_ok_def handles_ok_def by (auto simp: keep)
  ultimately show ?thesis by (simp add: asp_inv_def)
next
  case False
  then show ?thesis using inv by (simp add: updSess_def list_update_beyond)
qed

lemma asp_inv_noteActivity: "asp_inv s \<Longrightarrow> asp_inv (snd (noteActivity now p s))"
  by (simp add: noteActivity_def asp_inv_updSess touchActivity_def)

lemma asp_inv_replyTo: "asp_inv s \<Longrightarrow> replyable s k \<Longrightarrow> asp_inv (snd (replyTo k msg s))"
  using asp_inv_calm calm_replyTo by blast

lemma noteActivity_endpoint [simp]: "endpoint (snd (noteActivity now p s)) = endpoint s"
  by (simp add: noteActivity_def)

lemma asp_inv_sessionedReplier:
  assumes inv: "asp_inv s" and k: "replyable s k"
    and run: "sessionedReplier now i sq len t k s = (r, out, s')"
  shows "asp_inv s' \<and> replyable s' k \<and> (\<forall>p. r = Some p \<longrightarrow> p < length (sessStore s') \<and> isOpen (sessStore s' ! p))"
proof -
  have quit: "asp_inv (snd (replyTo k m u)) \<and> replyable (snd (replyTo k m u)) k" if "asp_inv u" "replyable u k" for m and u :: "'a Service"
    using that asp_inv_replyTo replyable_calm calm_replyTo by blast
  show ?thesis
  proof (cases "len > effectiveMaxCmdSize s \<or> Get i s = None \<or> \<not> isOpen (sessStore s ! the (Get i s))")
    case True
    then show ?thesis
      using run quit [OF inv k] by (auto simp: sessionedReplier_def split: if_splits option.splits) (metis snd_conv)+
  next
    case False
    then obtain p where p: "Get i s = Some p" "isOpen (sessStore s ! p)" by auto
    have len: "p < length (sessStore s)" using p(1) inv by (auto simp: Get_def asp_inv_def table_ok_def)
    let ?s1 = "snd (noteActivity now p s)"
    let ?s2 = "updSess p (\<lambda>x. snd (CheckDuplicate sq t x)) ?s1"
    have inv2: "asp_inv ?s2"
      using inv by (intro asp_inv_updSess asp_inv_noteActivity) (simp_all add: CheckDuplicate_def case_prod_beta)
    have k2: "replyable ?s2 k" using k by simp
    have open2: "isOpen (sessStore ?s2 ! p)"
      using p(2) len by (simp add: noteActivity_def touchActivity_def isOpen_def CheckDuplicate_def case_prod_beta)
    have len2: "p < length (sessStore ?s2)" using len by (simp add: noteActivity_def)
    show ?thesis
      using run p False inv2 k2 open2 len2 quit [OF inv2 k2]
      by (auto simp: sessionedReplier_def Let_def case_prod_beta split: if_splits)
  qed
qed

lemma find_free: "freeSessionID m = i \<Longrightarrow> i \<noteq> 0 \<Longrightarrow> map_of m i = None"
  by (auto simp: freeSessionID_def find_Some_iff split: option.splits)

lemma Open_result:
  "Open now wn wd wk sn sd s = (None, out, s') \<Longrightarrow> s' = s"
  "Open now wn wd wk sn sd s = (Some p, out, s') \<Longrightarrow>
    p = length (sessStore s) \<and> (\<exists>x i. i \<noteq> 0 \<and> map_of (sessions s) i = None \<and> sessID x = i \<and> sstate x = stateOpen \<and>
      \<not> stopClosed x \<and> swrite x = None \<and>
      s' = s\<lparr>sessStore := sessStore s @ [x], sessions := AList.update i p (sessions s)\<rparr>)"
proof -
  let ?x = "\<lparr>sessID = freeSessionID (sessions s), sstate = stateOpen, WSNet = wn, WSNode = wd, WSSkt = wk, SrvNet = sn,
    SrvNode = sd, seqf = \<lparr>lastSeq = 0, filterTID = 0, inited = False\<rparr>, swrite = None, lastActivity = now, stopClosed = False\<rparr>"
  show "Open now wn wd wk sn sd s = (None, out, s') \<Longrightarrow> s' = s"
    by (auto simp: Open_def Let_def split: if_splits)
  assume "Open now wn wd wk sn sd s = (Some p, out, s')"
  then have "p = length (sessStore s)" "freeSessionID (sessions s) \<noteq> 0"
    "s' = s\<lparr>sessStore := sessStore s @ [?x], sessions := AList.update (freeSessionID (sessions s)) p (sessions s)\<rparr>"
    by (auto simp: Open_def Let_def touchActivity_def split: if_splits)
  then show "p = length (sessStore s) \<and> (\<exists>x i. i \<noteq> 0 \<and> map_of (sessions s) i = None \<and> sessID x = i \<and> sstate x = stateOpen \<and>
      \<not> stopClosed x \<and> swrite x = None \<and>
      s' = s\<lparr>sessStore := sessStore s @ [x], sessions := AList.update i p (sessions s)\<rparr>)"
    using find_free by (intro conjI exI [of _ ?x] exI [of _ "freeSessionID (sessions s)"]) auto
qed

lemma asp_inv_Open:
  assumes inv: "asp_inv s" and op: "Open now wn wd wk sn sd s = (r, out, s')"
  shows "asp_inv s' \<and> endpoint s' = endpoint s"
proof (cases r)
  case None
  then show ?thesis using inv op Open_result(1) by fastforce
next
  case (Some p)
  then obtain x i where x: "p = length (sessStore s)" "i \<noteq> 0" "map_of (sessions s) i = None" "sessID x = i" "sstate x = stateOpen"
      "\<not> stopClosed x" "swrite x = None" "s' = s\<lparr>sessStore := sessStore s @ [x], sessions := AList.update i p (sessions s)\<rparr>"
    using op Open_result(2) by blast
  have "wrSess w < length (sessStore s)" if "w \<in> set (completing s)" for w
    using inv that by (simp add: asp_inv_def writes_ok_def)
  then have "filter (\<lambda>w. wrSess w = length (sessStore s)) (completing s) = []"
    unfolding filter_empty_conv by (metis less_irrefl)
  then have "writes_ok s'"
    using inv x unfolding asp_inv_def writes_ok_def inflight_def
    by (auto simp: nth_append less_Suc_eq)
  moreover have "table_ok s'" unfolding table_ok_def
  proof (intro conjI allI impI)
    fix j q assume "map_of (sessions s') j = Some q"
    then have "(if j = i then Some p else map_of (sessions s) j) = Some q" by (simp add: x(8))
    then consider "j = i" "q = p" | "map_of (sessions s) j = Some q" "j \<noteq> i" by (metis option.inject)
    then show "j \<noteq> 0" "q < length (sessStore s')" "sessID (sessStore s' ! q) = j" "isOpen (sessStore s' ! q)"
      using inv x(1,2,4,5,8) by (cases; simp add: asp_inv_def table_ok_def nth_append isOpen_def less_SucI)+
  next
    fix q assume q: "q < length (sessStore s')" "isOpen (sessStore s' ! q)"
    show "map_of (sessions s') (sessID (sessStore s' ! q)) = Some q"
    proof (cases "q = p")
      case False
      then have old: "map_of (sessions s) (sessID (sessStore s ! q)) = Some q"
        using q x(1,8) inv by (auto simp: asp_inv_def table_ok_def nth_append less_Suc_eq)
      with x(3) have "sessID (sessStore s ! q) \<noteq> i" by auto
      with False q(1) x(1,8) old show ?thesis by (simp add: nth_append less_Suc_eq)
    qed (use x in simp)
  qed (use inv x in \<open>simp add: asp_inv_def table_ok_def\<close>)
  moreover have "channels_ok s'" "handles_ok s'"
    using inv x by (auto simp: asp_inv_def channels_ok_def handles_ok_def)
  ultimately show ?thesis using x by (simp add: asp_inv_def)
qed

text \<open>The record that \<open>Close\<close> leaves behind.\<close>

definition shut :: "Session \<Rightarrow> Session" where
  "shut x = x\<lparr>stopClosed := True, swrite := None, sstate := stateClosed\<rparr>"

lemma asp_inv_shut:
  assumes inv: "asp_inv s" and i: "map_of (sessions s) i = Some p"
  shows "asp_inv ((updSess p shut s)\<lparr>sessions := AList.delete i (sessions s)\<rparr>)" (is "asp_inv ?s")
proof -
  have p: "p < length (sessStore s)" "sessID (sessStore s ! p) = i"
    using inv i by (auto simp: asp_inv_def table_ok_def)
  have set: "set (sessStore (updSess p shut s)) \<subseteq> insert (shut (sessStore s ! p)) (set (sessStore s))"
    by (auto simp: updSess_def dest: set_update_subset_insert [THEN subsetD])
  have "inflight ?s = inflight s" by (simp add: inflight_def fun_eq_iff)
  then have "writes_ok ?s"
    using inv p by (auto simp: asp_inv_def writes_ok_def shut_def isOpen_def)
  moreover have uniq: "q \<noteq> p" if "map_of (sessions s) j = Some q" "j \<noteq> i" for j q
    using inv p(2) that by (auto simp: asp_inv_def table_ok_def)
  have "table_ok ?s" unfolding table_ok_def
  proof (intro conjI allI impI)
    fix j q assume "map_of (sessions ?s) j = Some q"
    then have old: "map_of (sessions s) j = Some q" "j \<noteq> i" by (auto split: if_splits)
    with inv uniq [OF this] show "j \<noteq> 0" "q < length (sessStore ?s)" "sessID (sessStore ?s ! q) = j" "isOpen (sessStore ?s ! q)"
      by (auto simp: asp_inv_def table_ok_def)
  next
    fix q assume q: "q < length (sessStore ?s)" "isOpen (sessStore ?s ! q)"
    then have "q \<noteq> p" using p(1) by (auto simp: shut_def isOpen_def)
    with q have "map_of (sessions s) (sessID (sessStore s ! q)) = Some q"
      using inv by (simp add: asp_inv_def table_ok_def)
    with q \<open>q \<noteq> p\<close> i show "map_of (sessions ?s) (sessID (sessStore ?s ! q)) = Some q" by auto
  qed (use inv in \<open>simp add: asp_inv_def table_ok_def\<close>)
  moreover have "channels_ok ?s" "handles_ok ?s"
    using inv set unfolding asp_inv_def channels_ok_def handles_ok_def by (auto simp: shut_def)
  ultimately show ?thesis by (simp add: asp_inv_def)
qed

lemma updSess_updSess [simp]: "p < length (sessStore s) \<Longrightarrow> updSess p g (updSess p f s) = updSess p (\<lambda>x. g (f x)) s"
  by (simp add: updSess_def)

lemma ball_updSess:
  "(\<forall>x \<in> set (sessStore s). P x) \<Longrightarrow> P (f (sessStore s ! p)) \<Longrightarrow> \<forall>x \<in> set (sessStore (updSess p f s)). P x"
  by (auto simp: updSess_def dest!: set_update_subset_insert [THEN subsetD])

lemma updSess_sessions: "updSess p f (s\<lparr>sessions := m\<rparr>) = (updSess p f s)\<lparr>sessions := m\<rparr>"
  by (simp add: updSess_def)

lemma cancelPending_updSess:
  "cancelPending q (updSess p f s) = (fst (cancelPending q s), updSess p f (snd (cancelPending q s)))"
  by (simp add: cancelPending_def updSess_def case_prod_beta)

lemma cancelPending_keeps [simp]:
  "sessStore (snd (cancelPending q s)) = sessStore s" "sessions (snd (cancelPending q s)) = sessions s"
  "hookClose (snd (cancelPending q s)) = hookClose s"
  by (simp_all add: cancelPending_def case_prod_beta)

lemma service_update_order:
  "s\<lparr>sessStore := st, sessions := m\<rparr> = s\<lparr>sessions := m, sessStore := st\<rparr>"
  "s\<lparr>endpoint := e, sessStore := st\<rparr> = s\<lparr>sessStore := st, endpoint := e\<rparr>"
  by simp_all

text \<open>Closing an open session: its record is shut, its write is cancelled and its identifier is free.\<close>

lemma Close_open:
  assumes inv: "asp_inv s" and i: "map_of (sessions s) i = Some p"
  defines "s1 \<equiv> (updSess p shut s)\<lparr>sessions := AList.delete i (sessions s)\<rparr>"
  shows "Close i s =
    (case swrite (sessStore s ! p) of
       Some w \<Rightarrow> (fst (cancelPending (wsPending w) s) @ (if hookClose s then [OnSessionClose p] else []), snd (cancelPending (wsPending w) s1))
     | None \<Rightarrow> (if hookClose s then [OnSessionClose p] else [], s1))"
proof -
  have p: "p < length (sessStore s)" and state: "sstate (sessStore s ! p) = stateOpen"
    using inv i by (auto simp: asp_inv_def table_ok_def isOpen_def)
  have "sstate (sessStore s ! p) = (if stopClosed (sessStore s ! p) then stateClosed else stateOpen)"
    using inv nth_mem [OF p] unfolding asp_inv_def channels_ok_def by blast
  then have chan: "\<not> stopClosed (sessStore s ! p)" using state by auto
  have fs: "markClosed (snd (endWrite ((snd (markClosing (sessStore s ! p)))\<lparr>stopClosed := True\<rparr>))) = shut (sessStore s ! p)"
    using state by (simp add: markClosed_def endWrite_def markClosing_def shut_def)
  have eff: "fst (cancelPending q (s\<lparr>sessions := m, sessStore := st\<rparr>)) = fst (cancelPending q s)" for q m st
    by (simp add: cancelPending_def case_prod_beta)
  show ?thesis
    using p state chan i fs
    by (simp add: Close_def Let_def markClosing_def closeStop_def endWrite_def updSess_sessions s1_def case_prod_beta
        cancelPending_def markClosed_def shut_def updSess_def service_update_order split: option.split)
qed

lemma asp_inv_Close:
  assumes inv: "asp_inv s"
  shows "asp_inv (snd (Close i s)) \<and> calm s (snd (Close i s)\<lparr>sessions := sessions s, sessStore := sessStore s\<rparr>)"
proof (cases "map_of (sessions s) i")
  case None
  then show ?thesis using inv calm_refl by (simp add: Close_def)
next
  case (Some p)
  let ?s1 = "(updSess p shut s)\<lparr>sessions := AList.delete i (sessions s)\<rparr>"
  have inv1: "asp_inv ?s1" by (rule asp_inv_shut [OF inv Some])
  have p: "p < length (sessStore s)" using inv Some by (auto simp: asp_inv_def table_ok_def)
  have "w' = w \<Longrightarrow> wsPending w < length (tcbStore (the (endpoint s)))" if "swrite (sessStore s ! p) = Some w" for w w'
    using inv that nth_mem [OF p] unfolding asp_inv_def handles_ok_def by blast
  then have "calm ?s1 (snd (cancelPending (wsPending w) ?s1))" if "swrite (sessStore s ! p) = Some w" for w
    using that by (intro calm_cancelPending [OF inv1]) simp
  moreover have "calm s (s'\<lparr>sessions := sessions s, sessStore := sessStore s\<rparr>)" if "calm ?s1 s'" for s'
    using that by (simp add: calm_def)
  ultimately show ?thesis
    using asp_inv_calm [OF inv1] inv1 calm_refl [OF inv1]
    by (simp add: Close_open [OF inv Some] split: option.split)
qed

lemma replyable_Close: "asp_inv s \<Longrightarrow> replyable s k \<Longrightarrow> replyable (snd (Close i s)) k"
  using asp_inv_Close [of s i] by (auto simp: calm_def grows_def)

lemma asp_inv_startWrite:
  assumes inv: "asp_inv s" and j: "j < length (starting s)"
  shows "asp_inv (snd (startWrite j s))"
proof -
  let ?w = "starting s ! j" and ?p = "wrSess (starting s ! j)"
  let ?s0 = "s\<lparr>starting := take j (starting s) @ drop (Suc j) (starting s)\<rparr>"
  let ?ws = "\<lparr>wsPhase = writeIdle, wsSeqNum = wrSeqNum ?w, wsCmdBlock = wrCmdBlock ?w, wsWantBytes = wrWantBytes ?w,
               wsReply = wrReply ?w, wsPending = wrPending ?w\<rparr>"
  have w: "?w \<in> set (starting s)" using j by simp
  have p: "?p < length (sessStore s)" and q: "wrPending ?w < length (tcbStore (the (endpoint s)))" "replyable s (wrReply ?w)"
    using inv w by (auto simp: asp_inv_def writes_ok_def handles_ok_def)
  have sub: "set (take j (starting s) @ drop (Suc j) (starting s)) \<subseteq> set (starting s)"
    by (auto dest: in_set_takeD in_set_dropD)
  have "inflight ?s0 = inflight s" by (simp add: inflight_def fun_eq_iff)
  then have inv0: "asp_inv ?s0"
    using inv sub unfolding asp_inv_def table_ok_def channels_ok_def writes_ok_def handles_ok_def by auto
  show ?thesis
  proof (cases "swrite (sessStore s ! ?p)")
    case (Some old)
    then have "wsPhase old = writeAwaitingData" using inv p by (simp add: asp_inv_def writes_ok_def)
    then have busy: "beginWrite ?ws (sessStore s ! ?p) = (False, sessStore s ! ?p)" using Some by (simp add: beginWrite_def)
    then have same: "updSess ?p (\<lambda>x. snd (beginWrite ?ws x)) ?s0 = ?s0" by (simp add: updSess_def)
    have can: "calm ?s0 (snd (cancelPending (wrPending ?w) ?s0))" using q by (intro calm_cancelPending [OF inv0]) simp
    have "replyable (snd (cancelPending (wrPending ?w) ?s0)) (wrReply ?w)" using q replyable_calm [OF _ can] by simp
    then show ?thesis
      using busy same asp_inv_replyTo [OF asp_inv_calm [OF inv0 can]] by (simp add: startWrite_def Let_def case_prod_beta)
  next
    case None
    let ?f = "\<lambda>x. snd (beginWrite ?ws x)"
    let ?s1 = "(updSess ?p ?f ?s0)\<lparr>completing := completing s @ [?w]\<rparr>"
    have cell: "?f (sessStore s ! ?p) = (sessStore s ! ?p)\<lparr>swrite := Some (?ws\<lparr>wsPhase := writeAwaitingData\<rparr>)\<rparr>"
      using None by (simp add: beginWrite_def)
    have fl: "inflight ?s1 r = inflight s r @ (if r = ?p then [?w] else [])" for r
      by (simp add: inflight_def)
    have "writes_ok ?s1"
      using inv0 p None unfolding asp_inv_def writes_ok_def fl by (auto simp: cell isOpen_def inflight_def)
    moreover have "table_ok ?s1"
      using inv0 p cell unfolding asp_inv_def table_ok_def by (auto simp: isOpen_def)
    moreover have "sstate (sessStore s ! ?p) = (if stopClosed (sessStore s ! ?p) then stateClosed else stateOpen)"
      using inv nth_mem [OF p] unfolding asp_inv_def channels_ok_def by blast
    then have "\<forall>x \<in> set (sessStore (updSess ?p ?f ?s0)). sstate x = (if stopClosed x then stateClosed else stateOpen)"
      using inv0 cell by (intro ball_updSess) (simp_all add: asp_inv_def channels_ok_def)
    then have "channels_ok ?s1" using inv0 by (simp add: asp_inv_def channels_ok_def)
    moreover have "\<forall>x \<in> set (sessStore (updSess ?p ?f ?s0)). \<forall>ws. swrite x = Some ws \<longrightarrow>
        wsPending ws < length (tcbStore (the (endpoint s)))"
      using inv0 cell q by (intro ball_updSess) (auto simp: asp_inv_def handles_ok_def)
    then have "handles_ok ?s1" using inv0 q by (auto simp: asp_inv_def handles_ok_def)
    ultimately show ?thesis
      using None by (simp add: startWrite_def Let_def beginWrite_def asp_inv_def)
  qed
qed

text \<open>Removing the goroutine of a finished write and clearing the write of its session.\<close>

lemma filter_without:
  assumes "j < length xs" "P (xs ! j)" "length (filter P xs) \<le> 1"
  shows "filter P (take j xs @ drop (Suc j) xs) = []"
proof -
  have "filter P xs = filter P (take j xs) @ xs ! j # filter P (drop (Suc j) xs)"
    using assms(1,2) by (subst id_take_nth_drop [of j]) simp_all
  then show ?thesis using assms(3) by simp
qed

lemma filter_without_other:
  assumes "j < length xs" "\<not> P (xs ! j)"
  shows "filter P (take j xs @ drop (Suc j) xs) = filter P xs"
  using assms by (subst (3) id_take_nth_drop [of j]) simp_all

definition drained :: "nat \<Rightarrow> 'a Service \<Rightarrow> 'a Service" where
  "drained j s = updSess (wrSess (completing s ! j)) (\<lambda>x. snd (endWrite x))
     (s\<lparr>completing := take j (completing s) @ drop (Suc j) (completing s)\<rparr>)"

lemma asp_inv_drained:
  assumes inv: "asp_inv s" and j: "j < length (completing s)"
  shows "asp_inv (drained j s)"
proof -
  let ?w = "completing s ! j" and ?p = "wrSess (completing s ! j)"
  let ?s0 = "s\<lparr>completing := take j (completing s) @ drop (Suc j) (completing s)\<rparr>" and ?f = "\<lambda>x. snd (endWrite x)"
  have w: "?w \<in> set (completing s)" using j by simp
  have p: "?p < length (sessStore s)" using inv w by (auto simp: asp_inv_def writes_ok_def)
  have sub: "set (take j (completing s) @ drop (Suc j) (completing s)) \<subseteq> set (completing s)"
    by (auto dest: in_set_takeD in_set_dropD)
  have "length (inflight s r) \<le> 1" if "r < length (sessStore s)" "isOpen (sessStore s ! r)" for r
  proof -
    have "map wrPending (inflight s r) = (case swrite (sessStore s ! r) of Some ws \<Rightarrow> [wsPending ws] | None \<Rightarrow> [])"
      using inv that by (simp add: asp_inv_def writes_ok_def)
    then have "length (inflight s r) = length (case swrite (sessStore s ! r) of Some ws \<Rightarrow> [wsPending ws] | None \<Rightarrow> [])"
      by (metis length_map)
    then show ?thesis by (simp split: option.splits)
  qed
  then have mine: "inflight ?s0 ?p = []" if "isOpen (sessStore s ! ?p)"
    using that p j by (simp add: inflight_def filter_without del: filter_append)
  have others: "inflight ?s0 r = inflight s r" if "r \<noteq> ?p" for r
    using that j by (simp add: inflight_def filter_without_other del: filter_append)
  have "writes_ok (drained j s)"
    using inv p sub mine others unfolding asp_inv_def writes_ok_def drained_def
    by (auto simp: endWrite_def isOpen_def)
  moreover have "table_ok (drained j s)"
    using inv p unfolding asp_inv_def table_ok_def drained_def by (auto simp: endWrite_def isOpen_def)
  moreover have "sstate (sessStore s ! ?p) = (if stopClosed (sessStore s ! ?p) then stateClosed else stateOpen)"
    using inv nth_mem [OF p] unfolding asp_inv_def channels_ok_def by blast
  then have "\<forall>x \<in> set (sessStore (updSess ?p ?f ?s0)). sstate x = (if stopClosed x then stateClosed else stateOpen)"
    using inv by (intro ball_updSess) (simp_all add: asp_inv_def channels_ok_def endWrite_def)
  then have "channels_ok (drained j s)" using inv by (simp add: asp_inv_def channels_ok_def drained_def)
  moreover have "\<forall>x \<in> set (sessStore (updSess ?p ?f ?s0)). \<forall>ws. swrite x = Some ws \<longrightarrow>
      wsPending ws < length (tcbStore (the (endpoint s)))"
    using inv by (intro ball_updSess) (auto simp: asp_inv_def handles_ok_def endWrite_def)
  then have "handles_ok (drained j s)" using inv sub by (auto simp: asp_inv_def handles_ok_def drained_def)
  ultimately show ?thesis by (simp add: asp_inv_def)
qed

lemma asp_inv_completeWrite:
  assumes inv: "asp_inv s" and j: "j < length (completing s)"
  shows "asp_inv (snd (completeWrite H v j s))"
proof -
  have "completing s ! j \<in> set (completing s)" using j by simp
  then have k: "replyable (drained j s) (wrReply (completing s ! j))"
    using inv by (auto simp: asp_inv_def handles_ok_def drained_def)
  note inv' = asp_inv_drained [OF inv j]
  have "asp_inv (snd (commandReply H block bm (wrReply (completing s ! j)) (drained j s)))" for block bm
    using asp_inv_calm [OF inv' calm_commandReply [OF inv' k]] .
  with asp_inv_replyTo [OF inv' k] inv show ?thesis
    unfolding completeWrite_def Let_def drained_def by (simp split: option.split)
qed

lemma asp_inv_handleCommand:
  assumes inv: "asp_inv s" and k: "replyable s k"
  shows "asp_inv (snd (handleCommand H now req k s))"
proof -
  obtain r out s' where run: "sessionedReplier now (userSession (inUserBytes req)) (userLow (inUserBytes req)) (length (inData req)) (inTID req) k s
      = (r, out, s')" by (metis prod_cases3)
  from asp_inv_sessionedReplier [OF inv k run] have "asp_inv s'" "replyable s' k" by auto
  then have "asp_inv (snd (commandReply H (inData req) (inBitmap req) k s'))"
    using asp_inv_calm calm_commandReply by blast
  with run \<open>asp_inv s'\<close> show ?thesis
    by (simp add: handleCommand_def ParseCommandPacket_def Let_def case_prod_beta split: option.split)
qed

lemma asp_inv_starting:
  assumes inv: "asp_inv s" and w: "wrSess w < length (sessStore s)" "wrPending w < length (tcbStore (the (endpoint s)))"
    "replyable s (wrReply w)"
  shows "asp_inv (s\<lparr>starting := starting s @ [w]\<rparr>)"
proof -
  have "inflight (s\<lparr>starting := starting s @ [w]\<rparr>) = inflight s" by (simp add: inflight_def fun_eq_iff)
  then show ?thesis
    using inv w unfolding asp_inv_def table_ok_def channels_ok_def writes_ok_def handles_ok_def by auto
qed

lemma asp_inv_handleASPWrite:
  assumes inv: "asp_inv s" and k: "replyable s k"
  shows "asp_inv (snd (handleASPWrite now req k s))"
proof -
  let ?sid = "userSession (inUserBytes req)" and ?sq = "userLow (inUserBytes req)"
  obtain r out s' where run: "sessionedReplier now ?sid ?sq (length (inData req)) (inTID req) k s = (r, out, s')" by (metis prod_cases3)
  note pro = asp_inv_sessionedReplier [OF inv k run]
  then have inv': "asp_inv s'" and k': "replyable s' k" by auto
  note quit = asp_inv_replyTo [OF inv' k']
  have "asp_inv ((snd (snd (requestFrom rq s')))\<lparr>starting := starting (snd (snd (requestFrom rq s'))) @
      [\<lparr>wrSess = p, wrCmdBlock = inData req, wrWantBytes = want, wrPending = q, wrReply = k, wrBitmap = inBitmap req,
        wrSeqNum = ?sq\<rparr>]\<rparr>)"
    if "r = Some p" "fst (requestFrom rq s') = Some q" for p q rq want
  proof -
    from calm_requestFrom [OF inv', of rq] that(2) have calm: "calm s' (snd (snd (requestFrom rq s')))"
      "q < length (tcbStore (the (endpoint (snd (snd (requestFrom rq s'))))))" by (cases "requestFrom rq s'"; simp)+
    have "sessStore (snd (snd (requestFrom rq s'))) = sessStore s'" using calm(1) by (simp add: calm_def)
    then show ?thesis
      using asp_inv_calm [OF inv' calm(1)] replyable_calm [OF k' calm(1)] calm(2) pro that(1)
      by (intro asp_inv_starting) auto
  qed
  moreover have "asp_inv (snd (replyTo k m (snd (snd (requestFrom rq s')))))" for rq m
  proof -
    have "calm s' (snd (snd (requestFrom rq s')))" using calm_requestFrom [OF inv', of rq] by (cases "requestFrom rq s'") simp
    then show ?thesis using asp_inv_calm [OF inv'] replyable_calm [OF k'] asp_inv_replyTo by blast
  qed
  ultimately show ?thesis
    using run inv' quit
    by (simp add: handleASPWrite_def ParseWritePacket_def Let_def case_prod_beta split: option.split)
qed

lemma asp_inv_handleOpenSession:
  assumes inv: "asp_inv s" and k: "replyable s k"
  shows "asp_inv (snd (handleOpenSession now req k s))"
proof -
  obtain r out s' where run: "Open now (Net (inSrc req)) (Node (inSrc req)) (userSession (inUserBytes req)) (Net (inLocal req))
      (Node (inLocal req)) s = (r, out, s')" by (metis prod_cases3)
  from asp_inv_Open [OF inv run] k have "asp_inv s'" "replyable s' k" by auto
  with asp_inv_replyTo [OF inv k] run asp_inv_replyTo show ?thesis
    by (auto simp: handleOpenSession_def ParseOpenSessPacket_def Let_def case_prod_beta split: option.split)
qed

lemma asp_inv_handleATPRequest:
  assumes inv: "asp_inv s" and k: "replyable s k"
  shows "asp_inv (snd (handleATPRequest H now req k s))"
proof -
  have "asp_inv (snd (handleCloseSession req k s))"
    using asp_inv_replyTo [OF inv k] asp_inv_replyTo [OF asp_inv_Close [OF inv, THEN conjunct1] replyable_Close [OF inv k]]
    by (auto simp: handleCloseSession_def Let_def case_prod_beta split: option.split)
  moreover have "asp_inv (snd (handleTickle now req k s))"
    using asp_inv_replyTo [OF inv k] asp_inv_replyTo [OF asp_inv_noteActivity [OF inv]] k
    by (auto simp: handleTickle_def Let_def case_prod_beta split: option.split)
  moreover have "asp_inv (snd (handleGetStatus H req k s))"
    using asp_inv_replyTo [OF inv k] by (simp add: handleGetStatus_def Let_def)
  ultimately show ?thesis
    using asp_inv_handleCommand [OF assms] asp_inv_handleASPWrite [OF assms] asp_inv_handleOpenSession [OF assms]
      asp_inv_replyTo [OF assms]
    by (simp add: handleATPRequest_def Let_def)
qed

section \<open>Reception\<close>

text \<open>The endpoint calls the handler at most once per packet, as the last thing it does.\<close>

definition isCall :: "'h atp_effect \<Rightarrow> bool" where
  "isCall x \<longleftrightarrow> (case x of CallHandler _ _ \<Rightarrow> True | _ \<Rightarrow> False)"

lemma isCall_simps [simp]:
  "isCall (CallHandler r k)" "\<not> isCall (Send a b c h)" "\<not> isCall (ArmRetry p d)" "\<not> isCall (StopRetry p)"
  "\<not> isCall (ArmRelease p d)" "\<not> isCall (StopRelease p)" "\<not> isCall (CloseDone p)" "\<not> isCall (Sleep d)"
  by (simp_all add: isCall_def)

lemma runInbound_quiet: "list_all (\<lambda>x. \<not> isCall x) xs \<Longrightarrow> runInbound H now xs s = (map bridge xs, s)"
  by (induction xs arbitrary: s) (auto simp: isCall_def split: atp_effect.splits)

lemma replayFrom_quiet: "list_all (\<lambda>x. \<not> isCall x) (replayFrom s d bm hint delay i f ps)"
  by (induction s d bm hint delay i f ps rule: replayFrom.induct) auto

lemma HandleInbound_calls:
  "list_all (\<lambda>x. \<not> isCall x) (fst (HandleInbound packet a l hint e)) \<or>
   (\<exists>pre req k. fst (HandleInbound packet a l hint e) = pre @ [CallHandler req k] \<and> list_all (\<lambda>x. \<not> isCall x) pre)"
proof -
  have "list_all (\<lambda>x. \<not> isCall x) (fst (handleTReq h d a l hint e)) \<or>
     (\<exists>pre req k. fst (handleTReq h d a l hint e) = pre @ [CallHandler req k] \<and> list_all (\<lambda>x. \<not> isCall x) pre)" for h d
    by (auto simp: handleTReq_def callHandler_def Let_def replayCachedFiltered_def replayFrom_quiet Cons_eq_append_conv)
  moreover have "list_all (\<lambda>x. \<not> isCall x) (fst (handleTResp h d a e))" "list_all (\<lambda>x. \<not> isCall x) (fst (handleTRel h a e))" for h d
    by (auto simp: handleTResp_def handleTRel_def armRetryTimerLocked_def stopRetry_def sendTRel_def finish_def Let_def split: option.split)
  ultimately show ?thesis
    by (simp add: HandleInbound_def Let_def split: option.split)
qed

lemma runInbound_call:
  "list_all (\<lambda>x. \<not> isCall x) pre \<Longrightarrow> runInbound H now (pre @ [CallHandler req k]) s =
    (map bridge pre @ fst (handleATPRequest H now req k s), snd (handleATPRequest H now req k s))"
  by (induction pre arbitrary: s) (auto simp: isCall_def case_prod_beta split: atp_effect.splits)

lemma asp_inv_Inbound:
  assumes inv: "asp_inv s"
  shows "asp_inv (snd (aspInbound H now d p s))"
proof -
  obtain e where e: "endpoint s = Some e" "atp_inv e" using asp_inv_endpoint [OF inv] by auto
  let ?run = "HandleInbound (Data d) \<lparr>Net = SourceNetwork d, Node = SourceNode d, Socket = SourceSocket d\<rparr>
    \<lparr>Net = DestinationNetwork d, Node = DestinationNode d, Socket = DestinationSocket d\<rparr> (Some (d, p)) e"
  let ?s = "s\<lparr>endpoint := Some (snd ?run)\<rparr>"
  have "calm s ?s" using e atp_inv_HandleInbound grows_HandleInbound by (auto simp: calm_def)
  then have inv': "asp_inv ?s" by (rule asp_inv_calm [OF inv])
  have "asp_inv (snd (runInbound H now (fst ?run) ?s))"
  proof (cases "list_all (\<lambda>x. \<not> isCall x) (fst ?run)")
    case True
    then show ?thesis using inv' by (simp add: runInbound_quiet)
  next
    case False
    then obtain pre req k where call: "fst ?run = pre @ [CallHandler req k]" "list_all (\<lambda>x. \<not> isCall x) pre"
      using HandleInbound_calls by blast
    then have "CallHandler req k \<in> set (fst ?run)" by simp
    then have "replyable ?s k" using CallHandler_replyable by simp
    then show ?thesis using asp_inv_handleATPRequest [OF inv'] call by (simp add: runInbound_call)
  qed
  with inv e show ?thesis by (simp add: aspInbound_def case_prod_beta)
qed

section \<open>Runs of the service\<close>

lemma asp_inv_request: "asp_inv s \<Longrightarrow> asp_inv (snd (snd (requestFrom rq s)))"
  using calm_requestFrom [of s rq] asp_inv_calm by (cases "requestFrom rq s") fastforce

lemma asp_inv_maintenance: "asp_inv s \<Longrightarrow> asp_inv (snd (maintenance now p s))"
  using asp_inv_Close asp_inv_request by (auto simp: maintenance_def sendTickle_def Let_def)

lemma asp_inv_SendAttention: "asp_inv s \<Longrightarrow> asp_inv (snd (snd (SendAttention i code s)))"
  using asp_inv_request [of s] by (simp add: SendAttention_def case_prod_beta split: option.split)

lemma asp_inv_timer:
  assumes inv: "asp_inv s" and e: "endpoint s = Some e" and t: "timerOp t"
  shows "asp_inv (s\<lparr>endpoint := Some (snd (atp_step t e))\<rparr>)"
proof -
  have "atp_inv (snd (atp_step t e))"
    using atp_inv_perform [of e t] asp_inv_endpoint [OF inv] e by (simp add: atp_perform_def)
  moreover have "grows e (snd (atp_step t e))"
    using t grows_requester(2) by (cases t) (auto simp: expireRspCB_def Let_def grows_def)
  ultimately show ?thesis
    using e by (intro asp_inv_calm [OF inv]) (simp add: calm_def)
qed

lemma asp_inv_perform: "asp_inv s \<Longrightarrow> asp_inv (asp_perform H op s)"
  by (cases op) (auto simp: asp_perform_def asp_inv_Inbound asp_inv_startWrite asp_inv_completeWrite asp_inv_maintenance
      asp_inv_Close asp_inv_SendAttention asp_inv_timer case_prod_beta split: option.split)

text \<open>A service that has been started.\<close>

definition asp_started :: "'a CommandHandler \<Rightarrow> bytes \<Rightarrow> 'a option \<Rightarrow> bytes \<Rightarrow> bytes list \<Rightarrow> 'a Service" where
  "asp_started H name h zone zones = snd (snd (aspStart H zones (New name h zone)))"

lemma registerAll_keeps [simp]:
  "sessions (snd (registerAll zs s)) = sessions s" "sessStore (snd (registerAll zs s)) = sessStore s"
  "starting (snd (registerAll zs s)) = starting s" "completing (snd (registerAll zs s)) = completing s"
  "panicked (snd (registerAll zs s)) = panicked s" "endpoint (snd (registerAll zs s)) = endpoint s"
  "quantumSize (snd (registerAll zs s)) = quantumSize s" "maxCmdSize (snd (registerAll zs s)) = maxCmdSize s"
  by (induction zs arbitrary: s) (simp_all add: registerInZone_def case_prod_beta)

text \<open>A service that is not started has nothing, and nothing happens to it.\<close>

definition asp_guard :: "'a Service \<Rightarrow> bool" where
  "asp_guard s \<longleftrightarrow> asp_inv s \<or>
     endpoint s = None \<and> sessions s = [] \<and> sessStore s = [] \<and> starting s = [] \<and> completing s = [] \<and> \<not> panicked s"

lemma asp_guard_perform: "asp_guard s \<Longrightarrow> asp_guard (asp_perform H op s)"
proof (cases "asp_inv s")
  case False
  assume "asp_guard s"
  with False have "asp_perform H op s = s"
    by (cases op) (auto simp: asp_guard_def asp_perform_def aspInbound_def Close_def SendAttention_def Get_def)
  with \<open>asp_guard s\<close> show ?thesis by simp
qed (simp add: asp_guard_def asp_inv_perform)

lemma asp_inv_fresh:
  assumes "endpoint s = Some (Listen True (NewEndpoint None))" "sessions s = []" "sessStore s = []" "starting s = []"
    "completing s = []" "\<not> panicked s" "quantumSize s = QuantumSize" "maxCmdSize s = ATPMaxData"
  shows "asp_inv s"
  using assms atp_inv_new [of None, where ?'a = requestContext]
  by (simp add: asp_inv_def table_ok_def channels_ok_def writes_ok_def handles_ok_def inflight_def atp_inv_def
      requester_ok_def responder_ok_def Listen_def NewEndpoint_def)

lemma asp_guard_started: "asp_guard (asp_started H name h zone zones)"
proof (cases "fst (aspStart H zones (New name h zone))")
  case True
  then have "asp_inv (asp_started H name h zone zones)"
    by (intro asp_inv_fresh) (auto simp: asp_started_def aspStart_def Let_def New_def SPGetParms_def split: if_splits)
  then show ?thesis by (simp add: asp_guard_def)
next
  case False
  then show ?thesis by (auto simp: asp_guard_def asp_started_def aspStart_def Let_def New_def split: if_splits)
qed

interpretation asp_runs: guarded_component "asp_started H name h zone zones" "asp_perform H" asp_guard
  for H :: "'a CommandHandler" and name h zone zones
  by unfold_locales (auto intro: asp_guard_started asp_guard_perform)

definition asp_after :: "'a CommandHandler \<Rightarrow> bytes \<Rightarrow> 'a option \<Rightarrow> bytes \<Rightarrow> bytes list \<Rightarrow> asp_op list \<Rightarrow> 'a Service" where
  "asp_after H name h zone zones ops = fold (asp_perform H) ops (asp_started H name h zone zones)"

lemma asp_after_guard: "asp_guard (asp_after H name h zone zones ops)"
  unfolding asp_after_def by (rule asp_runs.invar_run)

lemma card_nonzero8: "card (UNIV - {0 :: u8}) = 255"
  by (simp add: card_Diff_singleton card_word)

lemma table_size:
  assumes "table_ok s"
  shows "length (sessions s) \<le> 255" "length (sessions s) = 255 \<longleftrightarrow> freeSessionID (sessions s) = 0"
proof -
  let ?K = "fst ` set (sessions s)"
  have sub: "?K \<subseteq> UNIV - {0}"
    using assms weak_map_of_SomeI unfolding table_ok_def by fastforce
  have len: "card ?K = length (sessions s)"
    using assms by (metis distinct_card length_map list.set_map table_ok_def)
  show "length (sessions s) \<le> 255" using card_mono [OF _ sub] len card_nonzero8 by simp
  have all: "i \<in> word_of_nat ` {1..<256}" if "i \<noteq> 0" for i :: u8
  proof (rule image_eqI [of _ _ "unat i"])
    show "unat i \<in> {1..<256}" using that unsigned_less [of i, where ?'a = nat] by (auto simp: Suc_le_eq unat_gt_0)
  qed simp
  have nz: "word_of_nat j \<noteq> (0 :: u8)" if "j \<in> {1..<256}" for j
    using that by (auto simp: word_of_nat_eq_0_iff dest: nat_dvd_not_less)
  have "freeSessionID (sessions s) = 0 \<longleftrightarrow> (\<forall>j \<in> {1..<256}. map_of (sessions s) (word_of_nat j) \<noteq> None)"
  proof (cases "find (\<lambda>i. map_of (sessions s) i = None) (map word_of_nat [1..<256])")
    case None
    then show ?thesis unfolding find_None_iff by (simp add: freeSessionID_def find_None_iff [THEN iffD2])
  next
    case (Some i)
    then have "i \<in> set (map word_of_nat [1..<256])" "map_of (sessions s) i = None"
      unfolding find_Some_iff by (metis nth_mem)+
    moreover have "freeSessionID (sessions s) = i" using Some by (simp add: freeSessionID_def)
    ultimately show ?thesis using nz by auto
  qed
  also have "\<dots> \<longleftrightarrow> UNIV - {0} \<subseteq> ?K"
    using all nz by (auto simp: map_of_eq_None_iff)
  also have "\<dots> \<longleftrightarrow> length (sessions s) = 255"
    using card_nonzero8 len sub by (metis card_subset_eq finite subset_antisym subset_refl)
  finally show "length (sessions s) = 255 \<longleftrightarrow> freeSessionID (sessions s) = 0" by simp
qed

text \<open>
  C22. Sessions stay consistent: whatever a started service receives and whichever goroutines, timers and
  timeouts run in between, a session identifier in the table is not 0 and leads to an open session
  that carries it, every open session is in the table, at most 255 are open and a new one is refused
  exactly when 255 are, an open session has at most one write in flight, the one it has recorded,
  and no channel is closed twice.
\<close>

theorem asp_sessions_consistent:
  assumes s: "s = asp_after H name h zone zones ops"
  shows "(\<forall>i p. map_of (sessions s) i = Some p \<longrightarrow>
      i \<noteq> 0 \<and> p < length (sessStore s) \<and>
      sessID (sessStore s ! p) = i \<and> isOpen (sessStore s ! p)) \<and>
    (\<forall>p < length (sessStore s). isOpen (sessStore s ! p) \<longrightarrow>
      map_of (sessions s) (sessID (sessStore s ! p)) = Some p \<and>
      map wrPending (filter (\<lambda>w. wrSess w = p) (completing s)) =
        (case swrite (sessStore s ! p) of Some ws \<Rightarrow> [wsPending ws] | None \<Rightarrow> [])) \<and>
    length (sessions s) \<le> 255 \<and>
    (fst (Open now wn wd wk sn sd s) = None \<longleftrightarrow>
      length (sessions s) = 255) \<and>
    \<not> panicked s"
proof -
  from asp_after_guard [of H name h zone zones ops] have "asp_guard s" by (simp add: s)
  then consider "asp_inv s"
    | "sessions s = []" "sessStore s = []" "\<not> panicked s" by (auto simp: asp_guard_def)
  then show ?thesis
  proof cases
    case 1
    then have inv: "table_ok s" "channels_ok s" "writes_ok s" by (simp_all add: asp_inv_def)
    have "fst (Open now wn wd wk sn sd s) = None \<longleftrightarrow> length (sessions s) = 255"
      using table_size [OF inv(1)] by (simp add: Open_def Let_def)
    with inv table_size(1) [OF inv(1)] show ?thesis
      by (simp add: table_ok_def channels_ok_def writes_ok_def inflight_def)
  next
    case 2
    have "freeSessionID [] \<noteq> 0" by (simp add: freeSessionID_def upt_rec)
    with 2 show ?thesis by (simp add: Open_def Let_def)
  qed
qed

definition echo_server :: "unit CommandHandler" where
  "echo_server = \<lparr>HandleCommand = (\<lambda>block a. (block, 0, a)), GetStatus = (\<lambda>a. [])\<rparr>"

definition workstation_port :: port where
  "workstation_port = \<lparr>portId = 1, ShortString = ''lt0'', isExtended = False\<rparr>"

definition to_server :: "u16 \<Rightarrow> u32 \<Rightarrow> bytes \<Rightarrow> Datagram" where
  "to_server t ub payload = \<lparr>HopCount = 0, DestinationNetwork = 1, SourceNetwork = 1, DestinationNode = 200, SourceNode = 7,
     DestinationSocket = 252, SourceSocket = 128, DDPType = 3,
     Data = Marshal \<lparr>Control = TREQ OR XOBit, Bitmap = 0xFF, TransID = t, UserData = ub\<rparr> @ payload\<rparr>"

text \<open>The service after one workstation has opened a session.\<close>

definition open_service :: "unit Service" where
  "open_service = asp_after echo_server [65] (Some ()) [] [] [OpDatagram 0 (to_server 1 0x04800100 []) workstation_port]"

lemma open_service_sessions: "sessions open_service = [(1, 0)]"
  by code_simp

theorem asp_sessions_consistent_witness:
  "map_of (sessions open_service) 1 = Some 0 \<and> isOpen (sessStore open_service ! 0) \<and> \<not> panicked open_service \<and>
   fst (Open 0 1 7 128 1 200 open_service) \<noteq> None"
  using asp_sessions_consistent [OF open_service_def, of 0 1 7 128 1 200] open_service_sessions by auto

section \<open>Commands\<close>

declare countBits.simps [simp del]

lemma countBits_eq: "countBits b = OnesCount8 b"
proof -
  have "countBits b = length (filter (bit b) [0..<n])" if "unat b < 2 ^ n" for n
    using that
  proof (induction b arbitrary: n rule: countBits.induct)
    case (1 b)
    show ?case
    proof (cases "b = 0")
      case False
      then obtain m where n: "n = Suc m" using "1.prems" by (cases n) (auto simp: unat_eq_0)
      have "unat (drop_bit 1 b) = unat b div 2"
        by (simp only: unat_drop_bit_eq) (simp add: drop_bit_eq_div)
      then have "unat (drop_bit 1 b) < 2 ^ m" using "1.prems" n by simp
      from "1.IH" [OF False this]
      have IH: "countBits (drop_bit 1 b) = length (filter (bit b \<circ> Suc) [0..<m])"
        by (simp add: bit_drop_bit_eq o_def)
      have "[0..<n] = 0 # map Suc [0..<m]" by (simp add: n map_Suc_upt upt_conv_Cons del: upt_Suc)
      then have "length (filter (bit b) [0..<n]) = (if bit b 0 then 1 else 0) + length (filter (bit b \<circ> Suc) [0..<m])"
        by (simp add: filter_map o_def)
      moreover have "unat (b AND 1) = (if bit b 0 then 1 else 0)"
        by (simp add: and_one_eq bit_0 mod_2_eq_odd)
      ultimately show ?thesis using False IH by (subst countBits.simps) simp
    qed (simp add: countBits.simps)
  qed
  from this [of 8] show ?thesis
    using unsigned_less [of b, where ?'a = nat] by (simp add: OnesCount8_def)
qed

text \<open>How much of a reply the workstation can take.\<close>

definition replyCap :: "u8 \<Rightarrow> nat" where
  "replyCap b = (if OnesCount8 b = 0 then QuantumSize else min QuantumSize (OnesCount8 b * ATPMaxData))"

lemma OnesCount8_le: "OnesCount8 b \<le> 8"
  using length_filter_le [of "bit b" "[0..<8]"] by (simp add: OnesCount8_def)

lemma chunk_eq: "chunkResponse s data b =
    (let data = take (if 0 < bitmapMaxBytes b \<and> bitmapMaxBytes b < quantumSize s then bitmapMaxBytes b else quantumSize s) data in
     if data = [] then [[]]
     else map (\<lambda>i. take ATPMaxData (drop (i * ATPMaxData) data)) [0..<(length data + 577) div ATPMaxData])"
proof -
  have piece: "take (min (i + k) (length d) - i) (drop i d) = take k (drop i d)" for i k and d :: bytes
    by (cases "i + k \<le> length d") (simp_all add: min_def)
  have cut: "(if length d > e then take e d else d) = take e d" for e and d :: bytes by simp
  show ?thesis
    unfolding chunkResponse_def Let_def cut piece length_0_conv by (simp add: add.commute)
qed

lemma concat_chunks:
  assumes "0 < (k::nat)"
  shows "length xs \<le> n * k \<Longrightarrow> concat (map (\<lambda>i. take k (drop (i * k) xs)) [0..<n]) = xs"
proof (induction n arbitrary: xs)
  case (Suc n)
  have "[0..<Suc n] = 0 # map Suc [0..<n]" by (simp add: map_Suc_upt upt_conv_Cons del: upt_Suc)
  moreover have "concat (map (\<lambda>i. take k (drop (i * k) (drop k xs))) [0..<n]) = drop k xs"
    using Suc.prems by (intro Suc.IH) simp
  ultimately show ?case by (simp add: o_def add.commute)
qed simp

text \<open>The pieces of a reply are the reply, cut to what the workstation can take, in at most eight packets.\<close>

lemma chunkResponse_spec:
  assumes q: "quantumSize s = QuantumSize" and bufs_def: "bufs = chunkResponse s data b"
  shows "concat bufs = take (replyCap b) data" "\<forall>x \<in> set bufs. length x \<le> ATPMaxData" "bufs \<noteq> []"
    "length bufs \<le> (if OnesCount8 b = 0 then 8 else OnesCount8 b)"
proof -
  let ?d = "take (replyCap b) data"
  have cap: "(if 0 < bitmapMaxBytes b \<and> bitmapMaxBytes b < quantumSize s then bitmapMaxBytes b else quantumSize s) = replyCap b"
    by (auto simp: q replyCap_def bitmapMaxBytes_def countBits_eq)
  have eq: "bufs = (if ?d = [] then [[]] else map (\<lambda>i. take ATPMaxData (drop (i * ATPMaxData) ?d)) [0..<(length ?d + 577) div ATPMaxData])"
    by (simp only: bufs_def chunk_eq cap Let_def)
  have le: "length ?d \<le> (if OnesCount8 b = 0 then 8 else OnesCount8 b) * ATPMaxData"
    using OnesCount8_le [of b] by (auto simp: replyCap_def)
  have "length ?d \<le> (length ?d + 577) div 578 * 578" by linarith
  then show "concat bufs = take (replyCap b) data"
    unfolding eq using concat_chunks [of 578 ?d] by (simp split: if_splits)
  show "\<forall>x \<in> set bufs. length x \<le> ATPMaxData" by (auto simp: eq)
  have "?d \<noteq> [] \<Longrightarrow> 0 < (length ?d + 577) div 578" by (simp add: Suc_leI div_greater_zero_iff)
  then show "bufs \<noteq> []" by (auto simp: eq)
  have "(length ?d + 577) div 578 \<le> (if OnesCount8 b = 0 then 8 else OnesCount8 b)" using le by linarith
  then show "length bufs \<le> (if OnesCount8 b = 0 then 8 else OnesCount8 b)"
    by (auto simp: eq)
qed

text \<open>What others see of a step: datagrams for the router and commands for the AFP server.\<close>

fun visible :: "asp_effect \<Rightarrow> bool" where
  "visible (RouterReply d p b) = True"
| "visible (RouterRoute d) = True"
| "visible (CallHandleCommand b) = True"
| "visible _ = False"

lemma visible_bridge [simp]: "visible (bridge x) \<longleftrightarrow> isSend x"
  by (cases x) (auto simp: sendBridge_def split: option.split prod.split)

lemma filter_visible_bridge: "filter visible (map bridge xs) = map bridge (filter isSend xs)"
  by (simp add: filter_map o_def)

lemma reply_sends:
  assumes "\<not> replied (repliers e ! k)" "length (msgBuffers msg) \<le> 8" "\<forall>b \<in> set (msgBuffers msg). length b \<le> 578"
  shows "filter isSend (fst (reply k msg e)) =
    map (\<lambda>j. Send (rpLocal (repliers e ! k)) (rpSrc (repliers e ! k)) (wirePacket (rpTid (repliers e ! k)) msg j) (rpHint (repliers e ! k)))
      (filter (bit (rpBitmap (repliers e ! k))) [0..<length (msgBuffers msg)])"
proof -
  have "\<not> (\<exists>b \<in> set (msgBuffers msg). length b > 578)" using assms(3) by (meson not_le)
  then have "filter isSend (fst (reply k msg e)) = filter isSend (replayFrom (rpLocal (repliers e ! k)) (rpSrc (repliers e ! k))
      (rpBitmap (repliers e ! k)) (rpHint (repliers e ! k)) (currentResponderPacingLocked (rpSrc (repliers e ! k)) e) 0 True
      (buildResponsePackets (rpTid (repliers e ! k)) msg))"
    using assms(1,2)
    by (simp add: reply_def Let_def replayCachedFiltered_def currentResponderPacingLocked_def updRsp_def split: option.split)
  then show ?thesis
    by (simp add: replayFrom_sends buildResponsePackets_def wirePacket_def)
qed

text \<open>A reply through the hint of a request: one call of the router's \<open>Reply\<close> per packet wanted.\<close>

lemma replyTo_sends:
  assumes "rp = repliers (the (endpoint s)) ! k" "\<not> replied rp" "rpHint rp = Some (d, p)"
    "length (msgBuffers msg) \<le> 8" "\<forall>b \<in> set (msgBuffers msg). length b \<le> 578"
  shows "filter visible (fst (replyTo k msg s)) =
    map (\<lambda>j. RouterReply d p (wirePacket (rpTid rp) msg j)) (filter (bit (rpBitmap rp)) [0..<length (msgBuffers msg)])"
  using assms reply_sends [of "the (endpoint s)" k msg]
  by (simp add: replyTo_def case_prod_beta filter_visible_bridge sendBridge_def)

lemma commandReply_visible:
  assumes "commandHandler s = Some a" "HandleCommand H block a = (data, code, a')" "quantumSize s = QuantumSize"
    "rp = repliers (the (endpoint s)) ! k" "\<not> replied rp" "rpHint rp = Some (d, p)" "bufs = chunkResponse s data b"
  shows "filter visible (fst (commandReply H block b k s)) =
      CallHandleCommand block # map (\<lambda>j. RouterReply d p (wirePacket (rpTid rp) \<lparr>msgBuffers = bufs, msgUserBytes = [code]\<rparr> j))
        (filter (bit (rpBitmap rp)) [0..<length bufs])"
    "commandHandler (snd (commandReply H block b k s)) = Some a'"
proof -
  let ?s = "s\<lparr>commandHandler := Some a'\<rparr>"
  have cut: "chunkResponse ?s (take 4624 data) b = bufs" "chunkResponse ?s data b = bufs"
    using assms(3,7) by (simp_all add: chunk_eq min_def)
  have "effectiveQuantumSize ?s = 4624" using assms(3) by (simp add: effectiveQuantumSize_def)
  moreover have "length bufs \<le> 8" "\<forall>x \<in> set bufs. length x \<le> 578"
    using chunkResponse_spec(2,4) [OF assms(3,7)] OnesCount8_le [of b] by (auto split: if_splits)
  then have "filter visible (fst (replyTo k \<lparr>msgBuffers = bufs, msgUserBytes = [code]\<rparr> ?s)) =
      map (\<lambda>j. RouterReply d p (wirePacket (rpTid rp) \<lparr>msgBuffers = bufs, msgUserBytes = [code]\<rparr> j))
        (filter (bit (rpBitmap rp)) [0..<length bufs])"
    using assms(4-6) by (subst replyTo_sends) auto
  ultimately show "filter visible (fst (commandReply H block b k s)) =
      CallHandleCommand block # map (\<lambda>j. RouterReply d p (wirePacket (rpTid rp) \<lparr>msgBuffers = bufs, msgUserBytes = [code]\<rparr> j))
        (filter (bit (rpBitmap rp)) [0..<length bufs])"
    "commandHandler (snd (commandReply H block b k s)) = Some a'"
    using assms(1,2) cut by (simp_all add: commandReply_def runCommand_def Let_def case_prod_beta replyTo_def)
qed

text \<open>A request the endpoint has not seen: the handler is called with a new reply function.\<close>

lemma HandleInbound_fresh:
  assumes "listening e" "admissibleSrc e = None" "FuncCode h = TREQ" "XO h \<Longrightarrow> map_of (rspcbs e) (a, TransID h) = None"
  obtains pre e' rcb where "HandleInbound (Marshal h @ block) a l hint e =
      (pre @ [CallHandler \<lparr>inSrc = a, inLocal = l, inTID = TransID h, inUserBytes = UserData h, inData = block,
        inBitmap = Bitmap h, inXO = XO h, inTRelTO = GetTRelTimeout h\<rparr> (length (repliers e))], e')"
    "list_all (\<lambda>x. \<not> isCall x) pre" "filter isSend pre = []" "repliers e' = repliers e @ [newReplier h a l rcb hint]"
proof -
  have rel: "repliers (relaxResponderPacingLocked a e) = repliers e"
    by (simp add: relaxResponderPacingLocked_def ensureResponderPacerLocked_def Let_def split: option.split)
  show thesis
  proof (cases "XO h")
    case True
    show thesis
      by (rule that [of "[ArmRelease (length (rspStore (relaxResponderPacingLocked a e))) (Duration (GetTRelTimeout h))]" "snd (HandleInbound (Marshal h @ block) a l hint e)"
          "Some (length (rspStore e))"])
        (use True assms rel in \<open>simp_all add: HandleInbound_def Let_def handleTReq_def admissible_def callHandler_def\<close>)
  next
    case False
    show thesis
      by (rule that [of "[]" "snd (HandleInbound (Marshal h @ block) a l hint e)" None])
        (use False assms in \<open>simp_all add: HandleInbound_def Let_def handleTReq_def admissible_def callHandler_def\<close>)
  qed
qed

text \<open>A request the prologue lets through: an open session, a block that fits, and no repetition.\<close>

definition repeated :: "Session \<Rightarrow> u16 \<Rightarrow> u16 \<Rightarrow> bool" where
  "repeated x sq t \<longleftrightarrow> inited (seqf x) \<and> lastSeq (seqf x) = sq \<and> filterTID (seqf x) \<noteq> t"

lemma sessionedReplier_admits:
  assumes inv: "asp_inv s" and p: "Get i s = Some p" and len: "n \<le> ATPMaxData" and new: "\<not> repeated (sessStore s ! p) sq t"
  obtains act x where "sessionedReplier now i sq n t k s = (Some p, act, s\<lparr>sessStore := (sessStore s)[p := x]\<rparr>)"
    "filter visible act = []" "sessID x = sessID (sessStore s ! p)" "isOpen x" "WSNet x = WSNet (sessStore s ! p)"
    "WSNode x = WSNode (sessStore s ! p)" "WSSkt x = WSSkt (sessStore s ! p)" "swrite x = swrite (sessStore s ! p)"
    "lastActivity x = now" "seqf x = \<lparr>lastSeq = sq, filterTID = t, inited = True\<rparr>"
proof -
  have ok: "p < length (sessStore s)" "isOpen (sessStore s ! p)" "maxCmdSize s = 578"
    using inv p by (auto simp: Get_def asp_inv_def table_ok_def handles_ok_def)
  let ?x = "(sessStore s ! p)\<lparr>lastActivity := now, seqf := \<lparr>lastSeq = sq, filterTID = t, inited = True\<rparr>\<rparr>"
  have acc: "accept sq t (seqf (sessStore s ! p)) = (True, \<lparr>lastSeq = sq, filterTID = t, inited = True\<rparr>)"
    using new by (simp add: accept_def repeated_def)
  show thesis
    by (rule that [of "if hookActivity s then [OnSessionActivity p] else []" ?x])
      (use ok p len acc in \<open>simp_all add: sessionedReplier_def effectiveMaxCmdSize_def noteActivity_def CheckDuplicate_def
          updSess_def touchActivity_def isOpen_def\<close>)
qed

lemma asp_after_inv: "endpoint (asp_after H name h zone zones ops) \<noteq> None \<Longrightarrow> asp_inv (asp_after H name h zone zones ops)"
  using asp_after_guard [of H name h zone zones ops] by (auto simp: asp_guard_def)

text \<open>
  C24. A command is executed and answered: a command for an open session that is neither known to the
  endpoint nor a repetition reaches the AFP server once, with exactly the command block, and what
  the AFP server answers goes back to the sender in packets of at most 578 bytes, no more of them
  than the bitmap of the request has room for, the first one carrying the result code. Together
  they are the reply, cut to what the bitmap and the quantum allow.
\<close>

theorem asp_command_answered:
  assumes s: "s = asp_after H name h0 zone zones ops" "commandHandler s = Some a" "HandleCommand H block a = (data, code, a')"
    and d: "DDPType d = 3" "Data d = Marshal h @ block" "FuncCode h = TREQ" "userFunction (UserData h) = SPFuncCommand"
    and sess: "Get (userSession (UserData h)) s = Some p" "length block \<le> 578"
      "\<not> repeated (sessStore s ! p) (userLow (UserData h)) (TransID h)"
    and new: "XO h \<longrightarrow> map_of (rspcbs (the (endpoint s))) (\<lparr>Net = SourceNetwork d, Node = SourceNode d, Socket = SourceSocket d\<rparr>, TransID h) = None"
  shows "\<exists>bufs. concat bufs = take (replyCap (Bitmap h)) data \<and> (\<forall>b \<in> set bufs. length b \<le> 578) \<and>
      1 \<le> length bufs \<and> length bufs \<le> (if OnesCount8 (Bitmap h) = 0 then 8 else OnesCount8 (Bitmap h)) \<and>
      filter visible (fst (aspInbound H now d rx s)) =
        CallHandleCommand block # map (\<lambda>j. RouterReply d rx (wirePacket (TransID h) \<lparr>msgBuffers = bufs, msgUserBytes = [code]\<rparr> j))
          (filter (bit (Bitmap h)) [0..<length bufs]) \<and>
      commandHandler (snd (aspInbound H now d rx s)) = Some a'"
proof -
  have "sessions s \<noteq> []" using sess(1) by (auto simp: Get_def)
  then have inv: "asp_inv s" using asp_after_guard [of H name h0 zone zones ops] s(1) by (auto simp: asp_guard_def)
  then obtain e where e: "endpoint s = Some e" "listening e" "admissibleSrc e = None" and q: "quantumSize s = 4624"
    by (auto simp: asp_inv_def handles_ok_def)
  let ?src = "\<lparr>Net = SourceNetwork d, Node = SourceNode d, Socket = SourceSocket d\<rparr>"
  let ?loc = "\<lparr>Net = DestinationNetwork d, Node = DestinationNode d, Socket = DestinationSocket d\<rparr>"
  have "XO h \<Longrightarrow> map_of (rspcbs e) (?src, TransID h) = None" using new e by simp
  then obtain pre e' rcb where run: "HandleInbound (Marshal h @ block) ?src ?loc (Some (d, rx)) e =
      (pre @ [CallHandler \<lparr>inSrc = ?src, inLocal = ?loc, inTID = TransID h, inUserBytes = UserData h, inData = block,
        inBitmap = Bitmap h, inXO = XO h, inTRelTO = GetTRelTimeout h\<rparr> (length (repliers e))], e')"
    and pre: "list_all (\<lambda>x. \<not> isCall x) pre" "filter isSend pre = []" and rps: "repliers e' = repliers e @ [newReplier h ?src ?loc rcb (Some (d, rx))]"
    using HandleInbound_fresh [OF e(2,3) d(3), of ?src] by blast
  let ?s1 = "s\<lparr>endpoint := Some e'\<rparr>"
  have "calm s ?s1"
    using e asp_inv_endpoint [OF inv] atp_inv_HandleInbound [of e] grows_HandleInbound [of e] run unfolding calm_def
    by (metis (no_types, lifting) Service.select_convs Service.surjective Service.update_convs(7) option.discI option.sel snd_conv)
  then have inv1: "asp_inv ?s1" by (rule asp_inv_calm [OF inv])
  have g: "Get (userSession (UserData h)) ?s1 = Some p" "\<not> repeated (sessStore ?s1 ! p) (userLow (UserData h)) (TransID h)"
    using sess by (simp_all add: Get_def)
  obtain act x where pro: "sessionedReplier now (userSession (UserData h)) (userLow (UserData h)) (length block) (TransID h) (length (repliers e)) ?s1
      = (Some p, act, ?s1\<lparr>sessStore := (sessStore ?s1)[p := x]\<rparr>)" and act: "filter visible act = []"
    using sessionedReplier_admits [OF inv1 g(1) sess(2) g(2)] by metis
  let ?s2 = "?s1\<lparr>sessStore := (sessStore s)[p := x]\<rparr>"
  let ?bufs = "chunkResponse ?s2 data (Bitmap h)"
  have q2: "quantumSize ?s2 = 4624" using q by simp
  note spec = chunkResponse_spec [OF q2 refl, of data "Bitmap h"]
  have ans: "filter visible (fst (commandReply H block (Bitmap h) (length (repliers e)) ?s2)) =
      CallHandleCommand block # map (\<lambda>j. RouterReply d rx (wirePacket (TransID h) \<lparr>msgBuffers = ?bufs, msgUserBytes = [code]\<rparr> j))
        (filter (bit (Bitmap h)) [0..<length ?bufs])"
    "commandHandler (snd (commandReply H block (Bitmap h) (length (repliers e)) ?s2)) = Some a'"
    using commandReply_visible [OF _ s(3) q2 refl, of "length (repliers e)" d rx ?bufs "Bitmap h"] s(2) rps
    by (simp_all add: newReplier_def)
  have step: "aspInbound H now d rx s = (map bridge pre @ act @ fst (commandReply H block (Bitmap h) (length (repliers e)) ?s2),
      snd (commandReply H block (Bitmap h) (length (repliers e)) ?s2))"
    using e run d pro
    by (simp add: aspInbound_def runInbound_call [OF pre(1)] handleATPRequest_def handleCommand_def ParseCommandPacket_def Let_def case_prod_beta)
  show ?thesis
    using spec ans step act pre(2)
    by (intro exI [of _ ?bufs]) (simp add: filter_visible_bridge Suc_le_eq del: map_map)
qed

theorem asp_command_answered_witness:
  "\<exists>bufs. concat bufs = [7, 8] \<and> length bufs \<le> 8 \<and>
    filter visible (fst (aspInbound echo_server 5 (to_server 2 0x02010001 [7, 8]) workstation_port open_service)) =
      CallHandleCommand [7, 8] # map (\<lambda>j. RouterReply (to_server 2 0x02010001 [7, 8]) workstation_port
        (wirePacket 2 \<lparr>msgBuffers = bufs, msgUserBytes = [0]\<rparr> j)) (filter (bit (0xFF :: u8)) [0..<length bufs])"
proof -
  let ?h = "\<lparr>Control = TREQ OR XOBit, Bitmap = 0xFF, TransID = 2, UserData = 0x02010001\<rparr>" and ?d = "to_server 2 0x02010001 [7, 8]"
  have h: "commandHandler open_service = Some ()" "Get (userSession (UserData ?h)) open_service = Some 0"
    "\<not> repeated (sessStore open_service ! 0) (userLow (UserData ?h)) (TransID ?h)"
    "XO ?h \<longrightarrow> map_of (rspcbs (the (endpoint open_service)))
      (\<lparr>Net = SourceNetwork ?d, Node = SourceNode ?d, Socket = SourceSocket ?d\<rparr>, TransID ?h) = None"
    "userFunction (UserData ?h) = SPFuncCommand" "FuncCode ?h = TREQ" "OnesCount8 (Bitmap ?h) = 8" "replyCap (Bitmap ?h) = 4624"
    by code_simp+
  have d: "DDPType ?d = 3" "Data ?d = Marshal ?h @ [7, 8]" "length [7, 8 :: u8] \<le> 578" by (simp_all add: to_server_def)
  show ?thesis
    using asp_command_answered [OF open_service_def h(1) _ d(1,2) h(6,5,2) d(3) h(3,4), of "[7, 8]" 0 "()" 5 workstation_port] h(7,8)
    by (auto simp: echo_server_def)
qed

section \<open>Writes\<close>

lemma neededPackets_room:
  assumes "unat want \<le> 4624"
  shows "1 \<le> neededPackets want" "neededPackets want \<le> 8" "unat want \<le> neededPackets want * ATPMaxData"
proof -
  have "unat ((want + word_of_nat 578 - 1) div word_of_nat 578) = (unat want + 577) div 578"
  proof -
    have "unat (want + 577) = unat want + 577" using assms by (simp add: unat_word_ariths)
    moreover have "unat (word_of_nat 578 :: u32) = 578" "want + word_of_nat 578 - 1 = want + 577" by simp_all
    ultimately show ?thesis by (simp only: unat_div)
  qed
  then show "1 \<le> neededPackets want" "neededPackets want \<le> 8" "unat want \<le> neededPackets want * ATPMaxData"
    using assms by (auto simp: neededPackets_def Let_def)
qed

lemma wantedBytes_le: "wantedBytes block 4624 = Some want \<Longrightarrow> unat want \<le> 4624"
  by (auto simp: wantedBytes_def Let_def word_less_nat_alt split: if_splits)

text \<open>The request for data that a write causes.\<close>

definition continueRequest :: "IncomingRequest \<Rightarrow> Session \<Rightarrow> u32 \<Rightarrow> Request" where
  "continueRequest req x want =
    (let wc = \<lparr>wcSessionID = userSession (inUserBytes req), wcSeqNum = userLow (inUserBytes req), wcBufferSize = ucast want\<rparr> in
     \<lparr>rqSrc = \<lparr>Net = Net (inLocal req), Node = Node (inLocal req), Socket = ServerSocket\<rparr>,
      rqDst = \<lparr>Net = WSNet x, Node = WSNode x, Socket = WSSkt x\<rparr>,
      rqUserBytes = continueUserData wc, rqData = put16 (ucast want),
      rqNumBuffers = int (neededPackets want), rqXO = True, rqTRelTO = 0, rqRetryTimeout = 2 * 10^9, rqMaxRetries = 8\<rparr>)"

definition newWriter :: "IncomingRequest \<Rightarrow> nat \<Rightarrow> u32 \<Rightarrow> nat \<Rightarrow> nat \<Rightarrow> writer" where
  "newWriter req p want q k = \<lparr>wrSess = p, wrCmdBlock = inData req, wrWantBytes = want, wrPending = q, wrReply = k,
     wrBitmap = inBitmap req, wrSeqNum = userLow (inUserBytes req)\<rparr>"

lemma continueMarshalData_eq: "continueMarshalData p = put16 (wcBufferSize p)"
  by (simp add: continueMarshalData_def continueMarshalWire_def PutU16_def overwrite_def)

lemma SendRequest_succeeds:
  assumes "1 \<le> rqNumBuffers req" "rqNumBuffers req \<le> 8" "length (rqData req) \<le> 578"
  obtains q effs e' where "SendRequest req e = Inr (q, effs, e')"
proof -
  from assms obtain p e1 where "SendRequest_begin req e = Inr (p, e1)"
    by (simp add: SendRequest_begin_def Let_def case_prod_beta)
  then have "SendRequest req e = Inr (p, SendRequest_transmit p (rqUserBytes req) (rqData req) e1)" by (simp add: SendRequest_def)
  then show thesis using that by (metis prod.collapse)
qed

lemma handleASPWrite_asks:
  assumes inv: "asp_inv s" and sess: "Get (userSession (inUserBytes req)) s = Some p" "length (inData req) \<le> 578"
      "\<not> repeated (sessStore s ! p) (userLow (inUserBytes req)) (inTID req)"
    and want: "wantedBytes (inData req) 4624 = Some want" and e: "endpoint s = Some e"
  obtains act x q effs e' where
    "SendRequest (continueRequest req (sessStore s ! p) want) e = Inr (q, effs, e')"
    "handleASPWrite now req k s = (act @ map bridge effs,
      s\<lparr>sessStore := (sessStore s)[p := x], endpoint := Some e', starting := starting s @ [newWriter req p want q k]\<rparr>)"
    "filter visible act = []" "isOpen x" "swrite x = swrite (sessStore s ! p)"
proof -
  have q: "quantumSize s = 4624" "p < length (sessStore s)"
    using inv sess(1) by (auto simp: Get_def asp_inv_def table_ok_def handles_ok_def)
  obtain act x where pro: "sessionedReplier now (userSession (inUserBytes req)) (userLow (inUserBytes req)) (length (inData req)) (inTID req) k s
      = (Some p, act, s\<lparr>sessStore := (sessStore s)[p := x]\<rparr>)"
    and x: "filter visible act = []" "isOpen x" "WSNet x = WSNet (sessStore s ! p)" "WSNode x = WSNode (sessStore s ! p)"
      "WSSkt x = WSSkt (sessStore s ! p)" "swrite x = swrite (sessStore s ! p)"
    using sessionedReplier_admits [OF inv sess] by metis
  let ?rq = "continueRequest req (sessStore s ! p) want"
  have "1 \<le> rqNumBuffers ?rq" "rqNumBuffers ?rq \<le> 8" "length (rqData ?rq) \<le> 578"
    using neededPackets_room [OF wantedBytes_le [OF want]] by (simp_all add: continueRequest_def Let_def)
  then obtain q' effs e' where send: "SendRequest ?rq e = Inr (q', effs, e')" by (rule SendRequest_succeeds)
  then have "requestFrom ?rq (s\<lparr>sessStore := (sessStore s)[p := x]\<rparr>) =
      (Some q', map bridge effs, s\<lparr>sessStore := (sessStore s)[p := x], endpoint := Some e'\<rparr>)"
    using e by (simp add: requestFrom_def)
  then have "handleASPWrite now req k s = (act @ map bridge effs,
      s\<lparr>sessStore := (sessStore s)[p := x], endpoint := Some e', starting := starting s @ [newWriter req p want q' k]\<rparr>)"
    using pro q x want unfolding continueRequest_def
    by (simp add: handleASPWrite_def ParseWritePacket_def continueMarshalData_eq newWriter_def Let_def)
  with that send x show thesis by blast
qed

lemma startWrite_records:
  assumes "starting s' = [w]" "wrSess w < length (sessStore s')" "swrite (sessStore s' ! wrSess w) = None"
  shows "\<exists>y. startWrite 0 s' = ([], s'\<lparr>starting := [], sessStore := (sessStore s')[wrSess w := y], completing := completing s' @ [w]\<rparr>)"
  using assms by (auto simp: startWrite_def Let_def beginWrite_def updSess_def)

text \<open>A datagram from a session's workstation with a packet of its answer to a request for data.\<close>

definition carries :: "Datagram \<Rightarrow> Address \<Rightarrow> bytes \<Rightarrow> bool" where
  "carries d a b \<longleftrightarrow> DDPType d = 3 \<and> Data d = b \<and> SourceNetwork d = Net a \<and> SourceNode d = Node a \<and> SourceSocket d = Socket a"

lemma endpoint_response:
  "HandleInbound (wirePacket t msg i) a l hint e = handleTResp (responseHeader t msg i) (msgBuffers msg ! i) a e"
proof -
  have "FuncCode (responseHeader t msg i) = TRESP" by (simp add: responseHeader_def FuncCode_def)
  then show ?thesis by (simp add: HandleInbound_def wirePacket_eq Let_def)
qed

lemma handleTResp_quiet: "list_all (\<lambda>x. \<not> isCall x) (fst (handleTResp h d a e))"
  by (auto simp: handleTResp_def armRetryTimerLocked_def stopRetry_def sendTRel_def finish_def Let_def split: option.split)

lemma response_step:
  assumes e: "endpoint s = Some e" and d: "carries d a (wirePacket t msg i)"
  shows "snd (aspInbound H now d rx s) = s\<lparr>endpoint := Some (atp_perform (OpInbound (wirePacket t msg i) a l None) e)\<rparr>"
proof -
  have same: "\<lparr>Net = Net a, Node = Node a, Socket = Socket a\<rparr> = a" by simp
  then show ?thesis
    using e d
    by (simp add: same aspInbound_def carries_def endpoint_response atp_perform_def case_prod_beta runInbound_quiet [OF handleTResp_quiet])
qed

lemma responses_arrive:
  assumes "endpoint s = Some e" "\<forall>i \<in> set idxs. carries (ds i) a (wirePacket t msg i)"
  shows "fold (\<lambda>i s. snd (aspInbound H now (ds i) rx s)) idxs s =
    s\<lparr>endpoint := Some (fold atp_perform (responseOps t msg a l idxs) e)\<rparr>"
  using assms
proof (induction idxs arbitrary: s e)
  case (Cons i idxs)
  have "snd (aspInbound H now (ds i) rx s) = s\<lparr>endpoint := Some (atp_perform (OpInbound (wirePacket t msg i) a l None) e)\<rparr>"
    using Cons.prems by (intro response_step) auto
  with Cons.IH [of "s\<lparr>endpoint := Some (atp_perform (OpInbound (wirePacket t msg i) a l None) e)\<rparr>"] Cons.prems
  show ?case by simp
qed simp

lemma repliers_responses [simp]: "repliers (fold atp_perform (responseOps t msg a l idxs) e) = repliers e"
proof (induction idxs arbitrary: e)
  case (Cons i idxs)
  have "repliers (atp_perform (OpInbound (wirePacket t msg i) a l None) e) = repliers e"
    using same_handleTResp [of e "responseHeader t msg i" "msgBuffers msg ! i" a]
    by (simp add: atp_perform_def endpoint_response same_responder_def)
  with Cons show ?case by simp
qed simp

text \<open>The last goroutine of the list completes with the data it waited for.\<close>

lemma completeWrite_done:
  assumes e: "endpoint s = Some e" and w: "completing s = ws @ [w]" and r: "Wait (wrPending w) e = Some (r, None)"
    and n: "length (concat (Buffers r)) < 2 ^ 32"
  shows "completeWrite H False (length ws) s =
    commandReply H (wrCmdBlock w @ take (unat (wrWantBytes w)) (concat (Buffers r))) (wrBitmap w) (wrReply w)
      (updSess (wrSess w) (\<lambda>x. snd (endWrite x)) (s\<lparr>completing := ws\<rparr>))"
proof -
  have "unat (word_of_nat (length (concat (Buffers r))) :: u32) = length (concat (Buffers r))"
    using n by (simp add: unat_of_nat take_bit_nat_eq_self)
  then have "(if word_of_nat (length (concat (Buffers r))) > wrWantBytes w then take (unat (wrWantBytes w)) (concat (Buffers r)) else concat (Buffers r))
      = take (unat (wrWantBytes w)) (concat (Buffers r))"
    by (simp add: word_less_nat_alt)
  then show ?thesis
    using e w r by (simp add: completeWrite_def Let_def)
qed

text \<open>The state between the two phases of a write, and after its data has arrived.\<close>

lemma write_waits:
  assumes inv: "asp_inv s" and e: "endpoint s = Some e"
    and sess: "Get (userSession (inUserBytes req)) s = Some p" "length (inData req) \<le> 578"
      "\<not> repeated (sessStore s ! p) (userLow (inUserBytes req)) (inTID req)" "swrite (sessStore s ! p) = None" "starting s = []"
    and want: "wantedBytes (inData req) 4624 = Some want"
  obtains act q effs e' st where
    "SendRequest (continueRequest req (sessStore s ! p) want) e = Inr (q, effs, e')"
    "fst (handleASPWrite now req k s) = act @ map bridge effs" "filter visible act = []"
    "starting (snd (handleASPWrite now req k s)) = [newWriter req p want q k]"
    "endpoint (snd (handleASPWrite now req k s)) = Some e'"
    "startWrite 0 (snd (handleASPWrite now req k s)) =
      ([], s\<lparr>endpoint := Some e', starting := [], sessStore := st, completing := completing s @ [newWriter req p want q k]\<rparr>)"
proof -
  obtain act x q effs e' where asks: "SendRequest (continueRequest req (sessStore s ! p) want) e = Inr (q, effs, e')"
      "handleASPWrite now req k s = (act @ map bridge effs,
        s\<lparr>sessStore := (sessStore s)[p := x], endpoint := Some e', starting := starting s @ [newWriter req p want q k]\<rparr>)"
      "filter visible act = []" "swrite x = swrite (sessStore s ! p)"
    using handleASPWrite_asks [OF inv sess(1-3) want e] by metis
  let ?s = "snd (handleASPWrite now req k s)"
  have p: "p < length (sessStore s)" using inv sess(1) by (auto simp: Get_def asp_inv_def table_ok_def)
  have "\<exists>y. startWrite 0 ?s = ([], ?s\<lparr>starting := [], sessStore := (sessStore ?s)[p := y],
      completing := completing ?s @ [newWriter req p want q k]\<rparr>)"
    using startWrite_records [of ?s "newWriter req p want q k"] asks sess(4,5) p by (simp add: newWriter_def)
  then obtain st where "startWrite 0 ?s = ([], s\<lparr>endpoint := Some e', starting := [], sessStore := st,
      completing := completing s @ [newWriter req p want q k]\<rparr>)"
    using asks(2) by auto
  with that asks sess(5) show thesis by simp
qed

lemma asp_inv_received:
  assumes inv: "asp_inv s" and e: "endpoint s = Some e" and run: "HandleInbound b src' l hint e = (effs, e')"
  shows "asp_inv (s\<lparr>endpoint := Some e'\<rparr>)"
proof -
  have "atp_inv e'" "grows e e'"
    using asp_inv_endpoint [OF inv] e atp_inv_HandleInbound [of e b src' l hint] grows_HandleInbound [of e b src' l hint] run by auto
  then show ?thesis using e by (intro asp_inv_calm [OF inv]) (simp add: calm_def)
qed

lemma SendRequest_packet:
  assumes "requester_ok e" "SendRequest req e = Inr (p, effs, e')"
  obtains hd tmo where "effs = [Send (rqSrc req) (rqDst req) (headerImage hd @ rqData req) None, ArmRetry p tmo]" "repliers e' = repliers e"
proof -
  obtain e1 where new: "SendRequest_begin req e = Inr (p, e1)"
    and rest: "SendRequest_transmit p (rqUserBytes req) (rqData req) e1 = (effs, e')"
    using assms(2) by (auto simp: SendRequest_def)
  have rp: "repliers e' = repliers e"
    using same_SendRequest_begin [OF new] same_SendRequest_transmit [of e1 p "rqUserBytes req" "rqData req"] rest
    by (simp add: same_responder_def)
  have p: "p < length (tcbStore e1)" "src (tcbStore e1 ! p) = rqSrc req" "dst (tcbStore e1 ! p) = rqDst req"
    using new by (auto simp: SendRequest_begin_def allocTIDLocked_def Let_def split: if_splits)
  then show thesis
    using that rest rp by (auto simp: SendRequest_transmit_def armRetryTimerLocked_def buildTReq_def Let_def)
qed

lemma answer_collected:
  assumes ok: "requester_ok e" and send: "SendRequest req e = Inr (p, effs, e')"
    and msg: "0 < length (msgBuffers msg)" "length (msgBuffers msg) \<le> nat (rqNumBuffers req)" "rqNumBuffers req \<le> 8"
      "set idxs = {..<length (msgBuffers msg)}"
  obtains r where "Wait p (fold atp_perform (responseOps (tid (tcbStore e' ! p)) msg (rqDst req) l idxs) e') = Some (r, None)"
    "concat (Buffers r) = concat (msgBuffers msg)"
proof -
  note live = SendRequest_live [OF ok send]
  let ?n = "nat (rqNumBuffers req)" and ?k = "length (msgBuffers msg)"
  have "\<not> completes msg ?n {}" using msg by (auto simp: completes_def lessThan_empty_iff)
  moreover have "completes msg ?n (set idxs)" using msg by (auto simp: completes_def)
  moreover have "?k \<le> 8" using msg by linarith
  ultimately obtain r where "Wait p (fold atp_perform (responseOps (tid (tcbStore e' ! p)) msg (rqDst req) l idxs) e') = Some (r, None)"
      "Buffers r = take ?n (msgBuffers msg) @ replicate (?n - ?k) []"
    using collect_responses [OF live(1,2,3,8) _ _ refl msg(1) _ live(6), of idxs l] msg(4) by auto
  moreover have "concat (replicate m []) = []" for m by (induction m) auto
  ultimately show thesis using that msg(2) by (simp)
qed

lemma length_concat_le: "\<forall>b \<in> set bs. length b \<le> n \<Longrightarrow> length (concat bs) \<le> n * length bs"
  by (induction bs) auto

text \<open>The request that the endpoint hands to the service for a datagram with a packet.\<close>

definition incoming :: "Datagram \<Rightarrow> Header \<Rightarrow> bytes \<Rightarrow> IncomingRequest" where
  "incoming d h block = \<lparr>inSrc = \<lparr>Net = SourceNetwork d, Node = SourceNode d, Socket = SourceSocket d\<rparr>,
     inLocal = \<lparr>Net = DestinationNetwork d, Node = DestinationNode d, Socket = DestinationSocket d\<rparr>, inTID = TransID h,
     inUserBytes = UserData h, inData = block, inBitmap = Bitmap h, inXO = XO h, inTRelTO = GetTRelTimeout h\<rparr>"

lemma incoming_sel [simp]:
  "inTID (incoming d h block) = TransID h" "inUserBytes (incoming d h block) = UserData h" "inData (incoming d h block) = block"
  "inBitmap (incoming d h block) = Bitmap h"
  "inLocal (incoming d h block) = \<lparr>Net = DestinationNetwork d, Node = DestinationNode d, Socket = DestinationSocket d\<rparr>"
  by (simp_all add: incoming_def)

lemma write_received:
  assumes inv: "asp_inv s"
    and d: "DDPType d = 3" "Data d = Marshal h @ block" "FuncCode h = TREQ" "userFunction (UserData h) = SPFuncWrite"
    and sess: "Get (userSession (UserData h)) s = Some p" "length block \<le> 578"
      "\<not> repeated (sessStore s ! p) (userLow (UserData h)) (TransID h)" "swrite (sessStore s ! p) = None" "starting s = []"
    and want: "wantedBytes block 4624 = Some want"
    and new: "XO h \<longrightarrow> map_of (rspcbs (the (endpoint s))) (\<lparr>Net = SourceNetwork d, Node = SourceNode d, Socket = SourceSocket d\<rparr>, TransID h) = None"
  obtains e1 e2 q effs st k where
    "requester_ok e1" "SendRequest (continueRequest (incoming d h block) (sessStore s ! p) want) e1 = Inr (q, effs, e2)"
    "filter visible (fst (aspInbound H now d rx s)) = map bridge (filter isSend effs)"
    "starting (snd (aspInbound H now d rx s)) = [newWriter (incoming d h block) p want q k]"
    "endpoint (snd (aspInbound H now d rx s)) = Some e2"
    "snd (startWrite 0 (snd (aspInbound H now d rx s))) = s\<lparr>endpoint := Some e2, starting := [], sessStore := st,
        completing := completing s @ [newWriter (incoming d h block) p want q k]\<rparr>"
    "\<exists>l r rcb. repliers e1 ! k = newReplier h r l rcb (Some (d, rx))"
proof -
  obtain e where e: "endpoint s = Some e" "listening e" "admissibleSrc e = None" using inv by (auto simp: asp_inv_def handles_ok_def)
  let ?src = "\<lparr>Net = SourceNetwork d, Node = SourceNode d, Socket = SourceSocket d\<rparr>"
  let ?loc = "\<lparr>Net = DestinationNetwork d, Node = DestinationNode d, Socket = DestinationSocket d\<rparr>"
  let ?req = "incoming d h block" and ?k = "length (repliers e)"
  have "XO h \<Longrightarrow> map_of (rspcbs e) (?src, TransID h) = None" using new e by simp
  then obtain pre e1 rcb where run: "HandleInbound (Marshal h @ block) ?src ?loc (Some (d, rx)) e = (pre @ [CallHandler ?req ?k], e1)"
    and pre: "list_all (\<lambda>x. \<not> isCall x) pre" "filter isSend pre = []" and rps: "repliers e1 = repliers e @ [newReplier h ?src ?loc rcb (Some (d, rx))]"
    using HandleInbound_fresh [OF e(2,3) d(3), of ?src] unfolding incoming_def by blast
  let ?u = "s\<lparr>endpoint := Some e1\<rparr>"
  have inv1: "asp_inv ?u" by (rule asp_inv_received [OF inv e(1) run])
  then have ok: "requester_ok e1" by (auto simp: asp_inv_def handles_ok_def atp_inv_def)
  have g: "endpoint ?u = Some e1" "Get (userSession (inUserBytes ?req)) ?u = Some p" "length (inData ?req) \<le> 578"
    "\<not> repeated (sessStore ?u ! p) (userLow (inUserBytes ?req)) (inTID ?req)" "swrite (sessStore ?u ! p) = None" "starting ?u = []"
    "wantedBytes (inData ?req) 4624 = Some want"
    using sess want by (simp_all add: Get_def)
  obtain act q effs e2 st where ask: "SendRequest (continueRequest ?req (sessStore ?u ! p) want) e1 = Inr (q, effs, e2)"
      "fst (handleASPWrite now ?req ?k ?u) = act @ map bridge effs" "filter visible act = []"
      "starting (snd (handleASPWrite now ?req ?k ?u)) = [newWriter ?req p want q ?k]" "endpoint (snd (handleASPWrite now ?req ?k ?u)) = Some e2"
      "startWrite 0 (snd (handleASPWrite now ?req ?k ?u)) =
        ([], ?u\<lparr>endpoint := Some e2, starting := [], sessStore := st, completing := completing ?u @ [newWriter ?req p want q ?k]\<rparr>)"
    by (rule write_waits [OF inv1 g, of now ?k])
  have step: "aspInbound H now d rx s = (map bridge pre @ act @ map bridge effs, snd (handleASPWrite now ?req ?k ?u))"
    using e run d ask(2)
    by (simp add: aspInbound_def runInbound_call [OF pre(1)] handleATPRequest_def Let_def case_prod_beta)
  show thesis
    by (rule that [of e1 q effs e2 ?k st])
      (use ok ask pre(2) rps in \<open>auto simp: step filter_visible_bridge simp del: map_map\<close>)
qed

text \<open>
  C23. A write runs in two phases: a write request for an open session with no write under way makes the
  server ask the workstation's session socket, by one datagram, for the bytes the command block
  announces, in a transaction with room for all of them. When the packets of the answer have
  arrived, in any order and with repetitions, the AFP server is called once, with the command block
  followed by the announced number of bytes of the answer, and its reply goes back as the answer to
  the write request.
\<close>

theorem asp_write_two_phases:
  assumes s: "s = asp_after H name h0 zone zones ops" "commandHandler s = Some a"
    and d: "DDPType d = 3" "Data d = Marshal h @ block" "FuncCode h = TREQ" "userFunction (UserData h) = SPFuncWrite"
    and sess: "Get (userSession (UserData h)) s = Some p" "length block \<le> 578"
      "\<not> repeated (sessStore s ! p) (userLow (UserData h)) (TransID h)" "swrite (sessStore s ! p) = None" "starting s = []"
    and want: "wantedBytes block 4624 = Some want"
    and new: "XO h \<longrightarrow> map_of (rspcbs (the (endpoint s))) (\<lparr>Net = SourceNetwork d, Node = SourceNode d, Socket = SourceSocket d\<rparr>, TransID h) = None"
    and ws: "ws = \<lparr>Net = WSNet (sessStore s ! p), Node = WSNode (sessStore s ! p), Socket = WSSkt (sessStore s ! p)\<rparr>"
    and s1: "s1 = snd (aspInbound H now d rx s)" and s2: "s2 = snd (startWrite 0 s1)"
    and answer: "0 < length (msgBuffers msg)" "length (msgBuffers msg) \<le> neededPackets want" "\<forall>b \<in> set (msgBuffers msg). length b \<le> 578"
      "set idxs = {..<length (msgBuffers msg)}"
      "\<forall>i \<in> set idxs. carries (ds i) ws (wirePacket (tid (tcbStore (the (endpoint s1)) ! wrPending (starting s1 ! 0))) msg i)"
    and s3: "s3 = fold (\<lambda>i s. snd (aspInbound H now (ds i) rx s)) idxs s2"
    and full: "full = block @ take (unat want) (concat (msgBuffers msg))" "HandleCommand H full a = (data, code, a')"
  shows "(\<exists>dg. filter visible (fst (aspInbound H now d rx s)) = [RouterRoute dg] \<and>
      DestinationNetwork dg = Net ws \<and> DestinationNode dg = Node ws \<and> DestinationSocket dg = Socket ws \<and>
      SourceNetwork dg = DestinationNetwork d \<and> SourceNode dg = DestinationNode d \<and> SourceSocket dg = 252 \<and>
      drop 8 (Data dg) = put16 (ucast want)) \<and>
    unat want \<le> 578 * neededPackets want \<and> neededPackets want \<le> 8 \<and>
    (\<exists>bufs. concat bufs = take (replyCap (Bitmap h)) data \<and> length bufs \<le> 8 \<and>
      filter visible (fst (completeWrite H False (length (completing s)) s3)) =
        CallHandleCommand full # map (\<lambda>j. RouterReply d rx (wirePacket (TransID h) \<lparr>msgBuffers = bufs, msgUserBytes = [code]\<rparr> j))
          (filter (bit (Bitmap h)) [0..<length bufs]) \<and>
      commandHandler (snd (completeWrite H False (length (completing s)) s3)) = Some a')"
proof -
  have "sessions s \<noteq> []" using sess(1) by (auto simp: Get_def)
  then have inv: "asp_inv s" using asp_after_guard [of H name h0 zone zones ops] s(1) by (auto simp: asp_guard_def)
  then have q4: "quantumSize s = 4624" by (auto simp: asp_inv_def handles_ok_def)
  let ?req = "incoming d h block" let ?rq = "continueRequest ?req (sessStore s ! p) want"
  obtain e1 e2 q effs st k where ask: "requester_ok e1" "SendRequest ?rq e1 = Inr (q, effs, e2)"
      "filter visible (fst (aspInbound H now d rx s)) = map bridge (filter isSend effs)"
      "starting s1 = [newWriter ?req p want q k]" "endpoint s1 = Some e2"
      "s2 = s\<lparr>endpoint := Some e2, starting := [], sessStore := st, completing := completing s @ [newWriter ?req p want q k]\<rparr>"
      and rp: "\<exists>l r rcb. repliers e1 ! k = newReplier h r l rcb (Some (d, rx))"
    unfolding s1 s2 by (rule write_received [OF inv d sess want new])
  note room = neededPackets_room [OF wantedBytes_le [OF want]]
  have rq: "rqDst ?rq = ws" "rqData ?rq = put16 (ucast want)" "rqNumBuffers ?rq = int (neededPackets want)"
    "rqSrc ?rq = \<lparr>Net = DestinationNetwork d, Node = DestinationNode d, Socket = 252\<rparr>"
    by (simp_all add: continueRequest_def Let_def ws)
  obtain hd tmo where pkt: "effs = [Send (rqSrc ?rq) (rqDst ?rq) (headerImage hd @ rqData ?rq) None, ArmRetry q tmo]" "repliers e2 = repliers e1"
    by (rule SendRequest_packet [OF ask(1,2)])
  have w: "wrPending (starting s1 ! 0) = q" using ask(4) by (simp add: newWriter_def)
  let ?e3 = "fold atp_perform (responseOps (tid (tcbStore e2 ! q)) msg ws undefined idxs) e2"
  have room': "length (msgBuffers msg) \<le> nat (rqNumBuffers ?rq)" "rqNumBuffers ?rq \<le> 8" using answer(2) room(2) by (simp_all add: rq)
  obtain r where r: "Wait q ?e3 = Some (r, None)" "concat (Buffers r) = concat (msgBuffers msg)"
    using answer_collected [OF ask(1,2) answer(1) room' answer(4), of undefined] by (auto simp: rq)
  have s3': "s3 = s2\<lparr>endpoint := Some ?e3\<rparr>"
    unfolding s3 using answer(5) w ask(5) by (intro responses_arrive) (simp_all add: ask(6))
  have "length (concat (msgBuffers msg)) \<le> 578 * length (msgBuffers msg)"
    by (rule length_concat_le [OF answer(3)])
  then have small: "length (concat (Buffers r)) < 2 ^ 32" using answer(2) room(2) r(2) by simp
  let ?s4 = "updSess p (\<lambda>x. snd (endWrite x)) (s3\<lparr>completing := completing s\<rparr>)"
  have fin: "completeWrite H False (length (completing s)) s3 = commandReply H full (Bitmap h) k ?s4"
    using completeWrite_done [of s3 ?e3 "completing s" "newWriter ?req p want q k" r H] r small
    by (simp add: s3' ask(6) newWriter_def full(1))
  have st4: "commandHandler ?s4 = Some a" "quantumSize ?s4 = 4624" "repliers (the (endpoint ?s4)) ! k = repliers e1 ! k"
    using s(2) q4 pkt(2) by (simp_all add: s3' ask(6))
  note spec = chunkResponse_spec [OF st4(2) refl, of data "Bitmap h"]
  have "length (chunkResponse ?s4 data (Bitmap h)) \<le> 8" using spec(4) OnesCount8_le [of "Bitmap h"] by (auto split: if_splits)
  then show ?thesis
    using room spec(1) commandReply_visible [OF st4(1) full(2) st4(2) refl _ _ refl, of k d rx "Bitmap h"] st4(3) rp ask(3)
    by (auto simp: fin newReplier_def mult.commute pkt(1) rq sendBridge_def)
qed

definition write_request :: Datagram where
  "write_request = to_server 2 0x06010001 [33, 0, 0, 0, 0, 0, 0, 0, 0, 0, 0, 3]"

definition write_header :: Header where
  "write_header = \<lparr>Control = TREQ OR XOBit, Bitmap = 0xFF, TransID = 2, UserData = 0x06010001\<rparr>"

definition write_answer :: ResponseMessage where
  "write_answer = \<lparr>msgBuffers = [[5, 6, 7, 8]], msgUserBytes = []\<rparr>"

theorem asp_write_two_phases_witness:
  "\<exists>s3 bufs. filter visible (fst (completeWrite echo_server False 0 s3)) =
     CallHandleCommand [33, 0, 0, 0, 0, 0, 0, 0, 0, 0, 0, 3, 5, 6, 7] # map (\<lambda>j. RouterReply write_request workstation_port
       (wirePacket 2 \<lparr>msgBuffers = bufs, msgUserBytes = [0]\<rparr> j)) (filter (bit (0xFF :: u8)) [0..<length bufs])"
proof -
  let ?d = write_request and ?h = write_header and ?block = "[33, 0, 0, 0, 0, 0, 0, 0, 0, 0, 0, 3] :: bytes"
  have h: "commandHandler open_service = Some ()" "Get (userSession (UserData ?h)) open_service = Some 0"
    "\<not> repeated (sessStore open_service ! 0) (userLow (UserData ?h)) (TransID ?h)"
    "swrite (sessStore open_service ! 0) = None" "starting open_service = []" "completing open_service = []"
    "XO ?h \<longrightarrow> map_of (rspcbs (the (endpoint open_service)))
      (\<lparr>Net = SourceNetwork ?d, Node = SourceNode ?d, Socket = SourceSocket ?d\<rparr>, TransID ?h) = None"
    "userFunction (UserData ?h) = SPFuncWrite" "FuncCode ?h = TREQ" "wantedBytes ?block 4624 = Some 3" "neededPackets 3 = 1"
    by code_simp+
  have d: "DDPType ?d = 3" "Data ?d = Marshal ?h @ ?block" "length ?block \<le> 578" by (simp_all add: write_request_def to_server_def write_header_def)
  have a: "0 < length (msgBuffers write_answer)" "length (msgBuffers write_answer) \<le> neededPackets 3"
    "\<forall>b \<in> set (msgBuffers write_answer). length b \<le> 578" "set [0, 0] = {..<length (msgBuffers write_answer)}"
    by (simp_all add: write_answer_def h(11) lessThan_Suc)
  let ?ws = "\<lparr>Net = WSNet (sessStore open_service ! 0), Node = WSNode (sessStore open_service ! 0), Socket = WSSkt (sessStore open_service ! 0)\<rparr>"
  let ?s1 = "snd (aspInbound echo_server 5 ?d workstation_port open_service)"
  let ?t = "tid (tcbStore (the (endpoint ?s1)) ! wrPending (starting ?s1 ! 0))"
  let ?ds = "\<lambda>i. \<lparr>HopCount = 0, DestinationNetwork = 1, SourceNetwork = Net ?ws, DestinationNode = 200, SourceNode = Node ?ws,
     DestinationSocket = 252, SourceSocket = Socket ?ws, DDPType = 3, Data = wirePacket ?t write_answer i\<rparr>"
  have c: "\<forall>i \<in> set [0, 0]. carries (?ds i) ?ws (wirePacket ?t write_answer i)" by (simp add: carries_def)
  have f: "HandleCommand echo_server (?block @ take (unat (3 :: u32)) (concat (msgBuffers write_answer))) () =
      (?block @ take (unat (3 :: u32)) (concat (msgBuffers write_answer)), 0, ())" by (simp add: echo_server_def)
  show ?thesis
    using asp_write_two_phases [OF open_service_def h(1) d(1,2) h(9,8,2) d(3) h(3,4,5,10,7) refl refl refl a c refl refl f] h(6)
    by (auto simp: write_answer_def write_header_def)
qed

section \<open>Timeouts\<close>

abbreviation (input) expired :: "int \<Rightarrow> Session \<Rightarrow> bool" where
  "expired now x \<equiv> now - lastActivity x > SessionMaintenanceTimeout"

lemma requestFrom_keeps:
  "sessions (snd (snd (requestFrom rq s))) = sessions s" "sessStore (snd (snd (requestFrom rq s))) = sessStore s"
  by (auto simp: requestFrom_def split: sum.split)

lemma maintenance_live:
  "\<not> expired now (sessStore s ! p) \<Longrightarrow> sessions (snd (maintenance now p s)) = sessions s \<and> sessStore (snd (maintenance now p s)) = sessStore s"
  by (simp add: maintenance_def sendTickle_def Let_def requestFrom_keeps)

lemma Close_sessions:
  assumes inv: "asp_inv s" and i: "map_of (sessions s) i = Some p"
  shows "sessions (snd (Close i s)) = AList.delete i (sessions s)" "sessStore (snd (Close i s)) = (sessStore s)[p := shut (sessStore s ! p)]"
  by (simp_all add: Close_open [OF inv i] updSess_def split: option.split)

lemma maintenance_expired:
  assumes inv: "asp_inv s" and p: "p < length (sessStore s)" "isOpen (sessStore s ! p)" "expired now (sessStore s ! p)"
  shows "sessions (snd (maintenance now p s)) = AList.delete (sessID (sessStore s ! p)) (sessions s)"
    "sessStore (snd (maintenance now p s)) = (sessStore s)[p := shut (sessStore s ! p)]"
proof -
  have i: "map_of (sessions s) (sessID (sessStore s ! p)) = Some p" using inv p by (simp add: asp_inv_def table_ok_def)
  show "sessions (snd (maintenance now p s)) = AList.delete (sessID (sessStore s ! p)) (sessions s)"
    "sessStore (snd (maintenance now p s)) = (sessStore s)[p := shut (sessStore s ! p)]"
    using p(3) Close_sessions [OF inv i] by (simp_all add: maintenance_def)
qed

text \<open>The maintenance goroutine of a session on its own, one tick after the other.\<close>

lemma ticks_run:
  assumes "asp_inv s" "p < length (sessStore s)" "isOpen (sessStore s ! p)"
    and after: "s' = fold (asp_perform H) (map (\<lambda>t. OpMaintenance t p) ts) s"
  shows "if \<exists>t \<in> set ts. expired t (sessStore s ! p)
    then sessStore s' ! p = shut (sessStore s ! p) \<and> map_of (sessions s') (sessID (sessStore s ! p)) = None
    else sessStore s' ! p = sessStore s ! p \<and> map_of (sessions s') (sessID (sessStore s ! p)) = Some p"
proof -
  let ?x = "sessStore s ! p" and ?run = "\<lambda>ts u. fold (asp_perform H) (map (\<lambda>t. OpMaintenance t p) ts) u"
  have gone: "sessStore (?run ts u) ! p = sessStore u ! p \<and> map_of (sessions (?run ts u)) (sessID (sessStore u ! p)) = None"
    if "p < length (sessStore u)" "map_of (sessions u) (sessID (sessStore u ! p)) = None" for ts and u :: "'a Service"
    using that
  proof (induction ts arbitrary: u)
    case (Cons t ts)
    have same: "sessions (snd (maintenance t p u)) = sessions u \<and> sessStore (snd (maintenance t p u)) = sessStore u"
      using Cons.prems maintenance_live [of t u p] by (cases "expired t (sessStore u ! p)") (simp_all add: maintenance_def Close_def)
    with Cons.IH [of "snd (maintenance t p u)"] Cons.prems show ?case by (simp add: asp_perform_def)
  qed simp
  show ?thesis
    using assms(1-3) unfolding after
  proof (induction ts arbitrary: s)
    case Nil
    then show ?case by (simp add: asp_inv_def table_ok_def)
  next
    case (Cons t ts)
    let ?u = "snd (maintenance t p s)"
    have step: "?run (t # ts) s = ?run ts ?u" using Cons.prems(2) by (simp add: asp_perform_def)
    show ?case
    proof (cases "expired t (sessStore s ! p)")
      case True
      note m = maintenance_expired [OF Cons.prems True]
      have "sessStore ?u ! p = shut (sessStore s ! p)" using m Cons.prems(2) by simp
      moreover have "sessID (shut (sessStore s ! p)) = sessID (sessStore s ! p)" by (simp add: shut_def)
      ultimately show ?thesis using gone [of ?u ts] m Cons.prems(2) True unfolding step by simp
    next
      case False
      then show ?thesis
        using Cons.IH [OF asp_inv_maintenance [OF Cons.prems(1)], of t p] maintenance_live [OF False] Cons.prems unfolding step by (simp cong: if_cong)
    qed
  qed
qed

text \<open>
  Silent sessions end: as long as no tick of its maintenance goroutine finds the last sign of life of an
  open session more than two minutes old, the ticks leave the session as it is; the first tick that
  does closes it, drops its write and frees its identifier, and it stays closed.
\<close>

theorem asp_session_timeout:
  assumes s: "s = asp_after H name h zone zones ops" and p: "p < length (sessStore s)" "isOpen (sessStore s ! p)"
    and after: "s' = fold (asp_perform H) (map (\<lambda>t. OpMaintenance t p) ts) s"
  shows "if \<exists>t \<in> set ts. t - lastActivity (sessStore s ! p) > 120 * 10^9
    then sstate (sessStore s' ! p) = stateClosed \<and> swrite (sessStore s' ! p) = None \<and>
      map_of (sessions s') (sessID (sessStore s ! p)) = None
    else sessStore s' ! p = sessStore s ! p \<and> map_of (sessions s') (sessID (sessStore s ! p)) = Some p"
proof -
  have "asp_inv s" using asp_after_guard [of H name h zone zones ops] s p(1) by (auto simp: asp_guard_def)
  from ticks_run [OF this p after] show ?thesis
    by (auto simp: shut_def split: if_splits)
qed

theorem asp_session_timeout_witness:
  "sstate (sessStore (fold (asp_perform echo_server) (map (\<lambda>t. OpMaintenance t 0) [30 * 10^9, 130 * 10^9]) open_service) ! 0) = stateClosed"
proof -
  have "length (sessStore open_service) = 1 \<and> isOpen (sessStore open_service ! 0) \<and> lastActivity (sessStore open_service ! 0) = 0"
    by code_simp
  then show ?thesis
    using asp_session_timeout [OF open_service_def _ _ refl, of 0 "[30 * 10^9, 130 * 10^9]"] by simp
qed

text \<open>
  The maintenance goroutine closes by identifier. When a session has been closed and its identifier
  given to another one before its goroutine takes a tick that was already due, that tick closes the
  other session, however active it is.
\<close>

lemma stale_tick_closes_successor:
  assumes inv: "asp_inv s" and q: "map_of (sessions s) (sessID (sessStore s ! p)) = Some q" "expired now (sessStore s ! p)"
  shows "sstate (sessStore (snd (maintenance now p s)) ! q) = stateClosed"
proof -
  have "q < length (sessStore s)" using inv q by (auto simp: asp_inv_def table_ok_def)
  then show ?thesis using q(2) Close_sessions [OF inv q(1)] by (simp add: maintenance_def shut_def)
qed

text \<open>A repeated sequence number is not dropped in silence: it is answered with an empty success.\<close>

lemma repetition_answered:
  assumes inv: "asp_inv s" and p: "Get i s = Some p" "n \<le> 578" "repeated (sessStore s ! p) sq t"
  shows "sessionedReplier now i sq n t k s =
    (None, (if hookActivity s then [OnSessionActivity p] else []) @ fst (replyTo k emptyMessage s),
     updSess p (touchActivity now) (snd (replyTo k emptyMessage s)))"
proof -
  have ok: "p < length (sessStore s)" "isOpen (sessStore s ! p)" "maxCmdSize s = 578"
    using inv p by (auto simp: Get_def asp_inv_def table_ok_def handles_ok_def)
  then show ?thesis
    using p by (auto simp: sessionedReplier_def effectiveMaxCmdSize_def noteActivity_def CheckDuplicate_def accept_def repeated_def
        updSess_def touchActivity_def replyTo_def case_prod_beta)
qed

end
