(* ===== verification/Ethertalk.thy ===== *)
theory Ethertalk
  imports Ddp "HOL-Library.Multiset"
begin

text \<open>
  The EtherTalk port of \<^verbatim>\<open>port/ethertalk/ethertalk.go\<close>: address acquisition by AARP
  probes, address resolution with held datagrams, framing, and the reception of frames.

  The frames a function sends and its calls on the router are the effects it returns. Time is a
  number of nanoseconds given to the operations that read the clock. \<open>rand.Shuffle\<close> of the
  standard library is a pair of functions that permute the candidate networks and nodes; nothing
  is assumed of them but that they permute. A run-time panic and a loop that does not end are
  outcomes of their own. Traffic metering and logging are not modelled.
\<close>

section \<open>State\<close>

abbreviation ieee8022Type1 :: bytes where "ieee8022Type1 \<equiv> [0xAA, 0xAA, 0x03]"
abbreviation snapAARP :: bytes where "snapAARP \<equiv> [0x00, 0x00, 0x00, 0x80, 0xF3]"
abbreviation snapAppleTalk :: bytes where "snapAppleTalk \<equiv> [0x08, 0x00, 0x07, 0x80, 0x9B]"
abbreviation aarpValidation :: bytes where "aarpValidation \<equiv> [0x00, 0x01, 0x80, 0x9B, 6, 4]"
abbreviation elapBroadcast :: bytes where "elapBroadcast \<equiv> [0x09, 0x00, 0x07, 0xFF, 0xFF, 0xFF]"
abbreviation elapMCprefix :: bytes where "elapMCprefix \<equiv> [0x09, 0x00, 0x07, 0x00, 0x00]"

definition aarpHeader :: bytes where
  "aarpHeader = ieee8022Type1 @ snapAARP @ aarpValidation"

abbreviation aarpFuncRequest :: u16 where "aarpFuncRequest \<equiv> 1"
abbreviation aarpFuncResponse :: u16 where "aarpFuncResponse \<equiv> 2"
abbreviation aarpFuncProbe :: u16 where "aarpFuncProbe \<equiv> 3"
abbreviation aarpProbeRetries :: nat where "aarpProbeRetries \<equiv> 10"
abbreviation amtMaxAge :: int where "amtMaxAge \<equiv> 10000000000"
abbreviation heldMaxAge :: int where "heldMaxAge \<equiv> 10000000000"

record amtEntry =
  hw :: bytes
  amtWhen :: int

record heldDatagram =
  heldD :: Datagram
  heldWhen :: int

type_synonym at_key = "u16 \<times> u16"

record EtherPort =
  hwAddr :: bytes
  seedZoneNames :: "bytes list"
  networkMin :: u16
  networkMax :: u16
  network :: u16
  node :: u8
  probeAttempts :: nat
  probeNetwork :: u16
  probeNode :: u8
  probeNets :: "u16 list"
  probeNodes :: "u8 list"
  amt :: "(at_key, amtEntry) gomap"
  heldDatagrams :: "(at_key, heldDatagram list) gomap"

datatype port_effect =
    Tx bytes
  | RouterInbound Datagram
  | RouterSetPortRange u16 u16
  | RouterAddNetworksToZone bytes u16 u16

type_synonym shuffles = "(u16 list \<Rightarrow> u16 list) \<times> (u8 list \<Rightarrow> u8 list)"

section \<open>Address acquisition\<close>

definition allNodes :: "u8 list" where
  "allNodes = map word_of_nat [1..<254]"

text \<open>
  The loop that lists the networks of the range, and the slice it appends to: \<open>make\<close> panics on
  a negative capacity, and a range ending at 0xFFFF is never exhausted.
\<close>

definition listNets :: "u16 \<Rightarrow> u16 \<Rightarrow> u16 list outcome" where
  "listNets lo hi =
    (if int (unat hi) - int (unat lo) + 1 < 0 then Panic
     else case for_u16 (\<lambda>n ns. Inr (ns @ [n]) :: unit + u16 list) lo hi [] of
       Some (Inr ns) \<Rightarrow> Return ns
     | _ \<Rightarrow> Diverge)"

definition takeLast :: "'a list \<Rightarrow> ('a \<times> 'a list) outcome" where
  "takeLast xs = (if xs = [] then Panic else Return (last xs, butlast xs))"

definition rerollProbeState :: "shuffles \<Rightarrow> EtherPort \<Rightarrow> EtherPort outcome" where
  "rerollProbeState sh p =
    and_then
      (if probeNodes p = [] then
         if probeNets p = [] \<and> (networkMin p = 0 \<or> networkMax p = 0) then Return (p, True)
         else
           and_then (if probeNets p = [] then and_then (listNets (networkMin p) (networkMax p)) (\<lambda>ns. Return (fst sh ns))
                     else Return (probeNets p))
            (\<lambda>ns. and_then (takeLast ns)
              (\<lambda>(n, ns). Return (p\<lparr>probeNetwork := n, probeNets := ns, probeNodes := snd sh allNodes\<rparr>, False)))
       else Return (p, False))
      (\<lambda>(p, stop).
        if stop \<or> probeNodes p = [] then Return p
        else and_then (takeLast (probeNodes p))
               (\<lambda>(n, ns). Return (p\<lparr>probeNode := n, probeNodes := ns, probeAttempts := 0\<rparr>)))"

definition New :: "shuffles \<Rightarrow> bytes \<Rightarrow> u16 \<Rightarrow> u16 \<Rightarrow> u16 \<Rightarrow> u8 \<Rightarrow> bytes list \<Rightarrow> EtherPort outcome" where
  "New sh hwaddr seedMin seedMax desiredNetwork desiredNode zones =
    (let p = \<lparr>hwAddr = hwaddr, seedZoneNames = zones, networkMin = seedMin, networkMax = seedMax, network = 0,
              node = 0, probeAttempts = 0, probeNetwork = 0, probeNode = 0, probeNets = [], probeNodes = [],
              amt = [], heldDatagrams = []\<rparr> in
     if seedMin \<noteq> 0 \<and> seedMax \<noteq> 0 then
       let p = (if seedMin \<le> desiredNetwork \<and> desiredNetwork \<le> seedMax then p\<lparr>probeNets := [desiredNetwork]\<rparr> else p);
           p = (if 1 \<le> desiredNode \<and> desiredNode \<le> 0xFD then p\<lparr>probeNodes := [desiredNode]\<rparr> else p) in
       rerollProbeState sh p
     else Return p)"

definition SetNetworkRange :: "shuffles \<Rightarrow> u16 \<Rightarrow> u16 \<Rightarrow> EtherPort \<Rightarrow> (port_effect list \<times> EtherPort) outcome" where
  "SetNetworkRange sh nmin nmax p =
    and_then (rerollProbeState sh (p\<lparr>networkMin := nmin, networkMax := nmax, network := 0, node := 0,
                                     probeNets := [], probeNodes := []\<rparr>))
      (\<lambda>p. Return ([RouterSetPortRange nmin nmax], p))"

definition Start :: "EtherPort \<Rightarrow> port_effect list" where
  "Start p = (if networkMin p \<noteq> 0 \<and> networkMax p \<noteq> 0 then [RouterSetPortRange (networkMin p) (networkMax p)] else [])"

section \<open>Frames\<close>

definition sendFrame :: "bytes \<Rightarrow> bytes \<Rightarrow> EtherPort \<Rightarrow> port_effect list" where
  "sendFrame dst payload p =
    [Tx (dst @ hwAddr p @ [word_of_nat (drop_bit 8 (length payload)), word_of_nat (length payload)] @ payload @
         replicate (46 - length payload) 0)]"

definition sendDatagram :: "bytes \<Rightarrow> Datagram \<Rightarrow> EtherPort \<Rightarrow> port_effect list" where
  "sendDatagram dst d p =
    (case AsLongHeaderBytes d True of
       Inl _ \<Rightarrow> []
     | Inr b \<Rightarrow> sendFrame dst (ieee8022Type1 @ snapAppleTalk @ b) p)"

definition aarpPacket :: "u16 \<Rightarrow> bytes \<Rightarrow> u16 \<Rightarrow> u8 \<Rightarrow> bytes \<Rightarrow> u16 \<Rightarrow> u8 \<Rightarrow> bytes" where
  "aarpPacket fn srcHW srcNet srcNode dstHW dstNet dstNode =
    aarpHeader @ [0, lo8 fn] @ srcHW @ [0] @ put16 srcNet @ [srcNode] @ dstHW @ [0] @ put16 dstNet @ [dstNode]"

definition sendAARPRequest :: "u16 \<Rightarrow> u8 \<Rightarrow> EtherPort \<Rightarrow> port_effect list" where
  "sendAARPRequest net nd p =
    (if network p = 0 \<or> node p = 0 then []
     else sendFrame elapBroadcast
       (aarpPacket aarpFuncRequest (hwAddr p) (network p) (node p) (replicate 6 0) net nd) p)"

definition sendAARPResponse :: "bytes \<Rightarrow> u16 \<Rightarrow> u8 \<Rightarrow> EtherPort \<Rightarrow> port_effect list" where
  "sendAARPResponse dstHW dstNet dstNode p =
    (if network p = 0 \<or> node p = 0 then []
     else sendFrame dstHW
       (aarpPacket aarpFuncResponse (hwAddr p) (network p) (node p) dstHW dstNet dstNode) p)"

definition sendAARPProbe :: "u16 \<Rightarrow> u8 \<Rightarrow> EtherPort \<Rightarrow> port_effect list" where
  "sendAARPProbe net nd p =
    sendFrame elapBroadcast (aarpPacket aarpFuncProbe (hwAddr p) net nd (replicate 6 0) net nd) p"

section \<open>Timers\<close>

text \<open>What \<open>acquireAddressRun\<close> does before its loop, and at every tick.\<close>

definition acquireAddressBegin :: "shuffles \<Rightarrow> EtherPort \<Rightarrow> (port_effect list \<times> EtherPort) outcome" where
  "acquireAddressBegin sh p =
    (if networkMin p \<noteq> 0 \<and> networkMax p \<noteq> 0 then
       and_then (rerollProbeState sh (p\<lparr>probeNets := [], probeNodes := []\<rparr>))
         (\<lambda>p. Return (map (\<lambda>z. RouterAddNetworksToZone z (networkMin p) (networkMax p)) (seedZoneNames p), p))
     else Return ([], p))"

definition acquireAddressTick :: "EtherPort \<Rightarrow> port_effect list \<times> EtherPort" where
  "acquireAddressTick p =
    (if network p \<noteq> 0 then ([], p)
     else if probeNetwork p = 0 \<or> probeNode p = 0 then ([], p)
     else if probeAttempts p \<ge> aarpProbeRetries then ([], p\<lparr>network := probeNetwork p, node := probeNode p\<rparr>)
     else let p' = p\<lparr>probeAttempts := probeAttempts p + 1\<rparr> in
       (sendAARPProbe (probeNetwork p) (probeNode p) p', p'))"

definition amtAgeTick :: "int \<Rightarrow> EtherPort \<Rightarrow> EtherPort" where
  "amtAgeTick now p = p\<lparr>amt := filter (\<lambda>(k, e). \<not> now - amtWhen e \<ge> amtMaxAge) (amt p)\<rparr>"

definition heldAgeTick :: "int \<Rightarrow> EtherPort \<Rightarrow> EtherPort" where
  "heldAgeTick now p =
    p\<lparr>heldDatagrams := filter (\<lambda>(k, hs). hs \<noteq> [])
        (map (\<lambda>(k, hs). (k, filter (\<lambda>h. now - heldWhen h < heldMaxAge) hs)) (heldDatagrams p))\<rparr>"

definition aarpRetryTick :: "EtherPort \<Rightarrow> port_effect list" where
  "aarpRetryTick p = concat (map (\<lambda>((net, nd), _). sendAARPRequest net (ucast nd) p) (heldDatagrams p))"

section \<open>Reception\<close>

definition addAddressMapping :: "u16 \<Rightarrow> u8 \<Rightarrow> bytes \<Rightarrow> int \<Rightarrow> EtherPort \<Rightarrow> port_effect list \<times> EtherPort" where
  "addAddressMapping net nd hwa now p =
    (let key = (net, ucast nd);
         held = (case map_of (heldDatagrams p) key of Some hs \<Rightarrow> hs | None \<Rightarrow> []);
         p = p\<lparr>amt := AList.update key \<lparr>hw = hwa, amtWhen = now\<rparr> (amt p),
               heldDatagrams := AList.delete key (heldDatagrams p)\<rparr> in
     (concat (map (\<lambda>h. sendDatagram hwa (heldD h) p) held), p))"

definition processAARPFrame :: "shuffles \<Rightarrow> int \<Rightarrow> u16 \<Rightarrow> bytes \<Rightarrow> u16 \<Rightarrow> u8 \<Rightarrow> EtherPort \<Rightarrow>
    (port_effect list \<times> EtherPort) outcome" where
  "processAARPFrame sh now fn srcHW srcNet srcNode p =
    (if fn = aarpFuncRequest \<or> fn = aarpFuncProbe then Return (sendAARPResponse srcHW srcNet srcNode p, p)
     else if fn = aarpFuncResponse then
       let (effs, p) = addAddressMapping srcNet srcNode srcHW now p in
       if network p = 0 \<and> node p = 0 \<and> srcNet = probeNetwork p \<and> srcNode = probeNode p
       then and_then (rerollProbeState sh p) (\<lambda>p. Return (effs, p))
       else Return (effs, p)
     else Return ([], p))"

definition slice :: "nat \<Rightarrow> nat \<Rightarrow> 'a list \<Rightarrow> 'a list" where
  "slice lo hi xs = take (hi - lo) (drop lo xs)"

definition InboundFrame :: "shuffles \<Rightarrow> int \<Rightarrow> bytes \<Rightarrow> EtherPort \<Rightarrow> (port_effect list \<times> EtherPort) outcome" where
  "InboundFrame sh now frame p =
    (if length frame < 22 \<or> slice 14 17 frame \<noteq> ieee8022Type1 then Return ([], p)
     else
       let len = int16 (frame ! 12) (frame ! 13);
           dstMAC = slice 0 6 frame in
       if len > length frame - 14 then Return ([], p)
       else if slice 17 22 frame = snapAARP then
         if len \<noteq> 36 \<or> length frame < 50 \<or> slice 22 28 frame \<noteq> aarpValidation then Return ([], p)
         else
           let fn = be16 (frame ! 28) (frame ! 29);
               srcHW = slice 30 36 frame;
               srcNet = be16 (frame ! 37) (frame ! 38);
               srcNode = frame ! 39;
               targetNet = be16 (frame ! 47) (frame ! 48);
               targetNode = frame ! 49 in
           if dstMAC = hwAddr p then processAARPFrame sh now fn srcHW srcNet srcNode p
           else if (fn = aarpFuncRequest \<or> fn = aarpFuncProbe) \<and> dstMAC = elapBroadcast then
             if network p \<noteq> 0 \<and> targetNet = network p \<and> targetNode = node p
             then processAARPFrame sh now fn srcHW srcNet srcNode p
             else Return ([], p)
           else if fn = aarpFuncResponse then Return (addAddressMapping srcNet srcNode srcHW now p)
           else Return ([], p)
       else if slice 17 22 frame = snapAppleTalk then
         if 14 + len < 22 then Panic
         else case DatagramFromLongHeaderBytes (slice 22 (14 + len) frame) False of
           Inl _ \<Rightarrow> Return ([], p)
         | Inr d \<Rightarrow>
             let (effs, p) = (if HopCount d = 0
                              then addAddressMapping (SourceNetwork d) (SourceNode d) (slice 6 12 frame) now p
                              else ([], p)) in
             if dstMAC = hwAddr p \<or> dstMAC = elapBroadcast \<or> (slice 0 5 dstMAC = elapMCprefix \<and> dstMAC ! 5 \<le> 0xFC)
             then Return (effs @ [RouterInbound d], p)
             else Return (effs, p)
       else Return ([], p))"

section \<open>Transmission\<close>

definition Unicast :: "int \<Rightarrow> u16 \<Rightarrow> u8 \<Rightarrow> Datagram \<Rightarrow> EtherPort \<Rightarrow> port_effect list \<times> EtherPort" where
  "Unicast now net nd d p =
    (let key = (net, ucast nd) in
     case map_of (amt p) key of
       Some e \<Rightarrow> (sendDatagram (hw e) d p, p)
     | None \<Rightarrow>
         (let old = map_of (heldDatagrams p) key;
              hs = (case old of Some hs \<Rightarrow> hs | None \<Rightarrow> []);
              p = p\<lparr>heldDatagrams := AList.update key (hs @ [\<lparr>heldD = d, heldWhen = now\<rparr>]) (heldDatagrams p)\<rparr> in
          (if old = None then sendAARPRequest net nd p else [], p)))"

definition Broadcast :: "Datagram \<Rightarrow> EtherPort \<Rightarrow> port_effect list" where
  "Broadcast d p =
    (let d = (if DestinationNetwork d \<noteq> 0 \<or> DestinationNode d \<noteq> 0xFF
              then d\<lparr>DestinationNetwork := 0, DestinationNode := 0xFF\<rparr> else d) in
     sendDatagram elapBroadcast d p)"

definition Multicast :: "Datagram \<Rightarrow> EtherPort \<Rightarrow> port_effect list" where
  "Multicast d p = sendDatagram elapBroadcast d p"

section \<open>The layout of a frame\<close>

named_theorems frame_simps \<open>fields of an Ethernet frame\<close>

definition etherFrame :: "bytes \<Rightarrow> bytes \<Rightarrow> bytes \<Rightarrow> bytes" where
  "etherFrame dst src payload =
    dst @ src @ [word_of_nat (drop_bit 8 (length payload)), word_of_nat (length payload)] @ payload @
      replicate (46 - length payload) 0"

lemma sendFrame_eq: "sendFrame dst payload p = [Tx (etherFrame dst (hwAddr p) payload)]"
  by (simp add: sendFrame_def etherFrame_def)

lemma slice_append_left: "hi \<le> length xs \<Longrightarrow> slice lo hi (xs @ ys) = slice lo hi xs"
  by (simp add: slice_def)

lemma slice_append_right: "length xs \<le> lo \<Longrightarrow> slice lo hi (xs @ ys) = slice (lo - length xs) (hi - length xs) ys"
  by (simp add: slice_def)

lemma slice_full: "n = length xs \<Longrightarrow> slice 0 n xs = xs"
  by (simp add: slice_def)

lemma etherFrame_split:
  assumes "length dst = 6" "length src = 6"
  obtains hdr where "length hdr = 14" "etherFrame dst src payload = hdr @ payload @ replicate (46 - length payload) 0"
proof
  let ?hdr = "dst @ src @ [word_of_nat (drop_bit 8 (length payload)), word_of_nat (length payload)]"
  show "length ?hdr = 14" using assms by simp
  show "etherFrame dst src payload = ?hdr @ payload @ replicate (46 - length payload) 0" by (simp add: etherFrame_def)
qed

lemma frame_dst [frame_simps]: "length dst = 6 \<Longrightarrow> slice 0 6 (etherFrame dst src payload) = dst"
  by (simp add: etherFrame_def slice_def)

lemma frame_src [frame_simps]: "length dst = 6 \<Longrightarrow> length src = 6 \<Longrightarrow> slice 6 12 (etherFrame dst src payload) = src"
  by (simp add: etherFrame_def slice_def)

lemma frame_slice [frame_simps]:
  assumes "length dst = 6" "length src = 6" "14 \<le> lo" "hi \<le> 14 + length payload"
  shows "slice lo hi (etherFrame dst src payload) = slice (lo - 14) (hi - 14) payload"
  using etherFrame_split [OF assms(1,2), of payload] assms(3,4)
  by (metis (no_types, lifting) le_diff_conv add.commute slice_append_left slice_append_right)

lemma frame_nth [frame_simps]:
  assumes "length dst = 6" "length src = 6" "14 \<le> i" "i < 14 + length payload"
  shows "etherFrame dst src payload ! i = payload ! (i - 14)"
proof -
  obtain hdr where "length hdr = 14" "etherFrame dst src payload = hdr @ payload @ replicate (46 - length payload) 0"
    using etherFrame_split [OF assms(1,2)] by blast
  moreover have "i - 14 < length payload" using assms(3,4) by linarith
  ultimately show ?thesis using assms(3,4) by (simp add: nth_append)
qed

lemma frame_length_field [frame_simps]:
  assumes "length dst = 6" "length src = 6" "length payload < 65536"
  shows "int16 (etherFrame dst src payload ! 12) (etherFrame dst src payload ! 13) = length payload"
proof -
  have "etherFrame dst src payload ! 12 = word_of_nat (drop_bit 8 (length payload))"
    "etherFrame dst src payload ! 13 = word_of_nat (length payload)"
    using assms by (simp_all add: etherFrame_def nth_append)
  moreover have "length payload div 256 < 256" using assms by simp
  ultimately show ?thesis
    by (simp add: int16_eq unat_of_nat take_bit_eq_mod drop_bit_eq_div)
qed

lemma frame_length [frame_simps]:
  "length dst = 6 \<Longrightarrow> length src = 6 \<Longrightarrow> length (etherFrame dst src payload) = 14 + max 46 (length payload)"
  by (simp add: etherFrame_def)

section \<open>Frames between ports\<close>

definition acceptsMAC :: "bytes \<Rightarrow> EtherPort \<Rightarrow> bool" where
  "acceptsMAC dst p \<longleftrightarrow> dst = hwAddr p \<or> dst = elapBroadcast \<or> (slice 0 5 dst = elapMCprefix \<and> dst ! 5 \<le> 0xFC)"

text \<open>Receiving a datagram frame of another port.\<close>

lemma InboundFrame_datagram:
  assumes d: "AsLongHeaderBytes d True = Inr b" and six: "length dst = 6" "length src = 6"
  shows "InboundFrame sh now (etherFrame dst src (ieee8022Type1 @ snapAppleTalk @ b)) p =
    (let (effs, p) = (if HopCount d = 0 then addAddressMapping (SourceNetwork d) (SourceNode d) src now p else ([], p)) in
     if acceptsMAC dst p then Return (effs @ [RouterInbound d], p) else Return (effs, p))"
proof -
  let ?pl = "ieee8022Type1 @ snapAppleTalk @ b"
  have ok: "datagram_ok d" using d AsLongHeaderBytes_ok_iff by blast
  have len: "length ?pl = 21 + length (Data d)" "length ?pl < 65536"
    using length_AsLongHeaderBytes [OF d] datagram_okD(2) [OF ok] by simp_all
  have sl: "slice 14 17 (etherFrame dst src ?pl) = ieee8022Type1" "slice 17 22 (etherFrame dst src ?pl) = snapAppleTalk"
    "slice 22 (14 + length ?pl) (etherFrame dst src ?pl) = b"
    using six len by (simp_all add: frame_simps) (simp_all add: slice_def)
  then show ?thesis
    using six len long_decode_encode [OF d]
    by (simp add: InboundFrame_def frame_simps Let_def acceptsMAC_def split: prod.split)
qed

lemma list6: "length xs = 6 \<Longrightarrow> \<exists>a b c d e f. xs = [a, b, c, d, e, f]"
  by (auto simp: numeral_eq_Suc length_Suc_conv)

lemma InboundFrame_aarp:
  assumes fn: "fn \<in> {aarpFuncRequest, aarpFuncResponse, aarpFuncProbe}"
    and six: "length dst = 6" "length src = 6" "length srcHW = 6" "length dstHW = 6"
  shows "InboundFrame sh now (etherFrame dst src (aarpPacket fn srcHW srcNet srcNode dstHW tnet tnode)) p =
    (if dst = hwAddr p then processAARPFrame sh now fn srcHW srcNet srcNode p
     else if (fn = aarpFuncRequest \<or> fn = aarpFuncProbe) \<and> dst = elapBroadcast then
       if network p \<noteq> 0 \<and> tnet = network p \<and> tnode = node p
       then processAARPFrame sh now fn srcHW srcNet srcNode p else Return ([], p)
     else if fn = aarpFuncResponse then Return (addAddressMapping srcNet srcNode srcHW now p)
     else Return ([], p))"
proof -
  obtain a b c d e f where s: "srcHW = [a, b, c, d, e, f]" using list6 [OF six(3)] by blast
  obtain a' b' c' d' e' f' where t: "dstHW = [a', b', c', d', e', f']" using list6 [OF six(4)] by blast
  let ?pl = "aarpPacket fn srcHW srcNet srcNode dstHW tnet tnode"
  have len: "length ?pl = 36" by (simp add: aarpPacket_def aarpHeader_def s t)
  have f: "be16 0 (lo8 fn) = fn" using fn by (auto simp: be16_def lo8_def)
  have parts: "slice 14 17 (etherFrame dst src ?pl) = ieee8022Type1" "slice 17 22 (etherFrame dst src ?pl) = snapAARP"
    "slice 22 28 (etherFrame dst src ?pl) = aarpValidation" "slice 30 36 (etherFrame dst src ?pl) = srcHW"
    using six len by (simp_all add: frame_simps) (simp_all add: slice_def aarpPacket_def aarpHeader_def s)
  have nths: "be16 (etherFrame dst src ?pl ! 28) (etherFrame dst src ?pl ! 29) = fn"
    "be16 (etherFrame dst src ?pl ! 37) (etherFrame dst src ?pl ! 38) = srcNet" "etherFrame dst src ?pl ! 39 = srcNode"
    "be16 (etherFrame dst src ?pl ! 47) (etherFrame dst src ?pl ! 48) = tnet" "etherFrame dst src ?pl ! 49 = tnode"
    using six len by (simp_all add: frame_simps) (simp_all add: aarpPacket_def aarpHeader_def s t put16_def f)
  show ?thesis
    using six len parts nths by (simp add: InboundFrame_def frame_simps Let_def)
qed

section \<open>Address resolution\<close>

primrec unicastAll :: "int \<Rightarrow> u16 \<Rightarrow> u8 \<Rightarrow> Datagram list \<Rightarrow> EtherPort \<Rightarrow> port_effect list \<times> EtherPort" where
  "unicastAll now net nd [] p = ([], p)"
| "unicastAll now net nd (d # ds) p =
    (let (e, p) = Unicast now net nd d p; (es, p) = unicastAll now net nd ds p in (e @ es, p))"

primrec receiveAll :: "shuffles \<Rightarrow> int \<Rightarrow> bytes list \<Rightarrow> EtherPort \<Rightarrow> (port_effect list \<times> EtherPort) outcome" where
  "receiveAll sh now [] p = Return ([], p)"
| "receiveAll sh now (f # fs) p =
    and_then (InboundFrame sh now f p)
      (\<lambda>(e, p). and_then (receiveAll sh now fs p) (\<lambda>(es, p). Return (e @ es, p)))"

fun toRouter :: "port_effect \<Rightarrow> Datagram option" where
  "toRouter (RouterInbound d) = Some d"
| "toRouter _ = None"

definition delivered :: "port_effect list \<Rightarrow> Datagram list" where
  "delivered effs = List.map_filter toRouter effs"

lemma delivered_simps [simp]:
  "delivered [] = []" "delivered (es @ es') = delivered es @ delivered es'"
  "delivered (RouterInbound d # es) = d # delivered es" "delivered (Tx f # es) = delivered es"
  by (simp_all add: delivered_def List.map_filter_def)

lemma delivered_sendDatagram [simp]: "delivered (sendDatagram dst d p) = []"
  by (simp add: sendDatagram_def sendFrame_eq split: sum.split)

lemma delivered_mapping [simp]: "delivered (fst (addAddressMapping net nd hwa now p)) = []"
proof -
  have "delivered (concat (map (\<lambda>h. sendDatagram hwa (heldD h) q) hs)) = []" for hs q
    by (induction hs) auto
  then show ?thesis by (simp add: addAddressMapping_def Let_def)
qed

lemma mapping_keeps [simp]:
  "hwAddr (snd (addAddressMapping net nd hwa now p)) = hwAddr p"
  "network (snd (addAddressMapping net nd hwa now p)) = network p"
  "node (snd (addAddressMapping net nd hwa now p)) = node p"
  by (simp_all add: addAddressMapping_def Let_def)

lemma mapping_result: "addAddressMapping net nd hwa now p = (es, q) \<Longrightarrow> delivered es = [] \<and> hwAddr q = hwAddr p"
  by (metis delivered_mapping mapping_keeps(1) fst_conv snd_conv)

lemma receive_datagram:
  assumes d: "AsLongHeaderBytes d True = Inr b" and six: "length (hwAddr p) = 6" "length src = 6"
  shows "\<exists>effs p'. InboundFrame sh now (etherFrame (hwAddr p) src (ieee8022Type1 @ snapAppleTalk @ b)) p = Return (effs, p') \<and>
    delivered effs = [d] \<and> hwAddr p' = hwAddr p"
proof -
  obtain es q where m: "(if HopCount d = 0 then addAddressMapping (SourceNetwork d) (SourceNode d) src now p else ([], p)) = (es, q)"
    by (metis surj_pair)
  then have "delivered es = []" "hwAddr q = hwAddr p"
    by (auto dest: mapping_result split: if_splits)
  then show ?thesis
    using InboundFrame_datagram [OF d six, of sh now p] unfolding m by (simp add: acceptsMAC_def)
qed

definition datagramFrame :: "bytes \<Rightarrow> bytes \<Rightarrow> Datagram \<Rightarrow> bytes" where
  "datagramFrame dst src d = etherFrame dst src (ieee8022Type1 @ snapAppleTalk @ projr (AsLongHeaderBytes d True))"

lemma sendDatagram_ok: "datagram_ok d \<Longrightarrow> sendDatagram dst d p = [Tx (datagramFrame dst (hwAddr p) d)]"
  using AsLongHeaderBytes_ok_iff [of d True] by (auto simp: sendDatagram_def sendFrame_eq datagramFrame_def)

lemma receive_datagrams:
  assumes "\<forall>d \<in> set ds. datagram_ok d" "length (hwAddr p) = 6" "length src = 6"
  shows "\<exists>effs p'. receiveAll sh now (map (datagramFrame (hwAddr p) src) ds) p = Return (effs, p') \<and> delivered effs = ds"
  using assms
proof (induction ds arbitrary: p)
  case (Cons d ds)
  obtain b where b: "AsLongHeaderBytes d True = Inr b" using Cons.prems AsLongHeaderBytes_ok_iff by fastforce
  obtain effs p' where step: "InboundFrame sh now (datagramFrame (hwAddr p) src d) p = Return (effs, p')"
    "delivered effs = [d]" "hwAddr p' = hwAddr p"
    using receive_datagram [OF b Cons.prems(2,3), of sh now] unfolding datagramFrame_def b sum.sel by blast
  show ?case using Cons.IH [of p'] Cons.prems step by fastforce
qed simp

lemma unicastAll_held:
  assumes "map_of (amt p) (net, ucast nd) = None" "map_of (heldDatagrams p) (net, ucast nd) = Some hs"
  shows "\<exists>p'. unicastAll now net nd ds p = ([], p') \<and>
    map_of (heldDatagrams p') (net, ucast nd) = Some (hs @ map (\<lambda>d. \<lparr>heldD = d, heldWhen = now\<rparr>) ds) \<and>
    amt p' = amt p \<and> hwAddr p' = hwAddr p \<and> network p' = network p \<and> node p' = node p"
  using assms
proof (induction ds arbitrary: p hs)
  case (Cons d ds)
  obtain q where q: "Unicast now net nd d p = ([], q)" "map_of (amt q) (net, ucast nd) = None"
    "map_of (heldDatagrams q) (net, ucast nd) = Some (hs @ [\<lparr>heldD = d, heldWhen = now\<rparr>])"
    "amt q = amt p" "hwAddr q = hwAddr p" "network q = network p" "node q = node p"
    using Cons.prems by (simp add: Unicast_def Let_def)
  obtain p' where "unicastAll now net nd ds q = ([], p')"
    "map_of (heldDatagrams p') (net, ucast nd) = Some ((hs @ [\<lparr>heldD = d, heldWhen = now\<rparr>]) @ map (\<lambda>d. \<lparr>heldD = d, heldWhen = now\<rparr>) ds)"
    "amt p' = amt q" "hwAddr p' = hwAddr q" "network p' = network q" "node p' = node q"
    using Cons.IH [OF q(2,3)] by blast
  with q show ?case by simp
qed simp

lemma unicastAll_first:
  assumes "map_of (amt p) (net, ucast nd) = None" "map_of (heldDatagrams p) (net, ucast nd) = None" "ds \<noteq> []"
    "network p \<noteq> 0" "node p \<noteq> 0"
  shows "\<exists>p'. unicastAll now net nd ds p =
      ([Tx (etherFrame elapBroadcast (hwAddr p)
          (aarpPacket aarpFuncRequest (hwAddr p) (network p) (node p) (replicate 6 0) net nd))], p') \<and>
    map_of (heldDatagrams p') (net, ucast nd) = Some (map (\<lambda>d. \<lparr>heldD = d, heldWhen = now\<rparr>) ds) \<and>
    hwAddr p' = hwAddr p \<and> network p' = network p \<and> node p' = node p"
proof -
  obtain d ds' where ds: "ds = d # ds'" using assms(3) by (cases ds) auto
  let ?q = "p\<lparr>heldDatagrams := AList.update (net, ucast nd) [\<lparr>heldD = d, heldWhen = now\<rparr>] (heldDatagrams p)\<rparr>"
  have "Unicast now net nd d p = ([Tx (etherFrame elapBroadcast (hwAddr p)
      (aarpPacket aarpFuncRequest (hwAddr p) (network p) (node p) (replicate 6 0) net nd))], ?q)"
    using assms by (simp add: Unicast_def Let_def sendAARPRequest_def sendFrame_eq)
  moreover obtain p' where "unicastAll now net nd ds' ?q = ([], p')"
    "map_of (heldDatagrams p') (net, ucast nd) = Some ([\<lparr>heldD = d, heldWhen = now\<rparr>] @ map (\<lambda>d. \<lparr>heldD = d, heldWhen = now\<rparr>) ds')"
    "hwAddr p' = hwAddr p" "network p' = network p" "node p' = node p"
    using unicastAll_held [of ?q net nd "[\<lparr>heldD = d, heldWhen = now\<rparr>]" now ds'] assms(1) by auto
  ultimately show ?thesis by (simp add: ds)
qed

lemma flush_held:
  assumes "map_of (heldDatagrams p) (net, ucast nd) = Some (map (\<lambda>d. \<lparr>heldD = d, heldWhen = t\<rparr>) ds)" "\<forall>d \<in> set ds. datagram_ok d"
  shows "\<exists>p'. addAddressMapping net nd hwa now p = (map Tx (map (datagramFrame hwa (hwAddr p)) ds), p') \<and>
    map_of (amt p') (net, ucast nd) = Some \<lparr>hw = hwa, amtWhen = now\<rparr> \<and> map_of (heldDatagrams p') (net, ucast nd) = None \<and>
    hwAddr p' = hwAddr p \<and> network p' = network p \<and> node p' = node p"
proof -
  have "concat (map (\<lambda>h. sendDatagram hwa (heldD h) q) (map (\<lambda>d. \<lparr>heldD = d, heldWhen = t\<rparr>) ds)) =
      map Tx (map (datagramFrame hwa (hwAddr q)) ds)" for q
    using assms(2) by (induction ds) (auto simp: sendDatagram_ok)
  then show ?thesis using assms(1) by (simp add: addAddressMapping_def Let_def del: map_map)
qed

text \<open>
  C25. Address resolution delivers: when a port sends datagrams to a node it has no hardware address
  for, one request goes out however many datagrams there are; the port that holds the address
  answers it; the answer makes the sender transmit all held datagrams, and the receiver hands
  exactly these datagrams, unchanged and in order, to its router. Afterwards the sender knows
  the hardware address and holds nothing back.
\<close>

theorem aarp_resolves:
  assumes six: "length (hwAddr A) = 6" "length (hwAddr B) = 6"
    and addrs: "network A \<noteq> 0" "node A \<noteq> 0" "network B \<noteq> 0" "node B \<noteq> 0"
    and unknown: "map_of (amt A) (network B, ucast (node B)) = None" "map_of (heldDatagrams A) (network B, ucast (node B)) = None"
    and ds: "ds \<noteq> []" "\<forall>d \<in> set ds. datagram_ok d"
  shows "\<exists>request response frames A1 A2 B1 effs.
    unicastAll t0 (network B) (node B) ds A = ([Tx request], A1) \<and>
    InboundFrame sh t1 request B = Return ([Tx response], B) \<and>
    InboundFrame sh t2 response A1 = Return (map Tx frames, A2) \<and>
    receiveAll sh t3 frames B = Return (effs, B1) \<and> delivered effs = ds \<and>
    map_of (amt A2) (network B, ucast (node B)) = Some \<lparr>hw = hwAddr B, amtWhen = t2\<rparr> \<and>
    map_of (heldDatagrams A2) (network B, ucast (node B)) = None"
proof -
  let ?req = "etherFrame elapBroadcast (hwAddr A)
      (aarpPacket aarpFuncRequest (hwAddr A) (network A) (node A) (replicate 6 0) (network B) (node B))"
  let ?rsp = "etherFrame (hwAddr A) (hwAddr B)
      (aarpPacket aarpFuncResponse (hwAddr B) (network B) (node B) (hwAddr A) (network A) (node A))"
  obtain A1 where A1: "unicastAll t0 (network B) (node B) ds A = ([Tx ?req], A1)"
    "map_of (heldDatagrams A1) (network B, ucast (node B)) = Some (map (\<lambda>d. \<lparr>heldD = d, heldWhen = t0\<rparr>) ds)"
    "hwAddr A1 = hwAddr A" "network A1 = network A" "node A1 = node A"
    using unicastAll_first [OF unknown ds(1) addrs(1,2)] by blast
  have B: "InboundFrame sh t1 ?req B = Return ([Tx ?rsp], B)"
    using addrs six by (subst InboundFrame_aarp) (auto simp: processAARPFrame_def sendAARPResponse_def sendFrame_eq)
  obtain A2 where A2: "addAddressMapping (network B) (node B) (hwAddr B) t2 A1 = (map Tx (map (datagramFrame (hwAddr B) (hwAddr A)) ds), A2)"
    "map_of (amt A2) (network B, ucast (node B)) = Some \<lparr>hw = hwAddr B, amtWhen = t2\<rparr>"
    "map_of (heldDatagrams A2) (network B, ucast (node B)) = None" "network A2 = network A"
    using flush_held [OF A1(2) ds(2), of "hwAddr B" t2] A1(3,4) by auto
  have "InboundFrame sh t2 ?rsp A1 = Return (map Tx (map (datagramFrame (hwAddr B) (hwAddr A)) ds), A2)"
    using six A1 A2 addrs by (subst InboundFrame_aarp) (auto simp: processAARPFrame_def)
  with A1(1) B A2 receive_datagrams [OF ds(2) six(2,1), of sh t3] show ?thesis by blast
qed

definition sample_ether :: "u8 \<Rightarrow> EtherPort" where
  "sample_ether n = \<lparr>hwAddr = [2, 0, 0, 0, 0, n], seedZoneNames = [], networkMin = 3, networkMax = 5, network = 4, node = n,
     probeAttempts = 10, probeNetwork = 4, probeNode = n, probeNets = [], probeNodes = [], amt = [], heldDatagrams = []\<rparr>"

theorem aarp_resolves_witness:
  "\<exists>request A1. unicastAll 0 4 9 [sample_datagram, sample_datagram] (sample_ether 7) = ([Tx request], A1)"
proof -
  have "datagram_ok sample_datagram" by (simp add: datagram_ok_def validate_def sample_datagram_def MaxDataLength_def)
  then show ?thesis
    using aarp_resolves [of "sample_ether 7" "sample_ether 9" "[sample_datagram, sample_datagram]" 0 "(id, id)" 0 0 0]
    unfolding sample_ether_def by (auto simp del: unicastAll.simps)
qed

section \<open>Claiming an address\<close>

datatype ether_op = AcquireTick | Receive int bytes | AmtTick int | HeldTick int | RetryTick
  | SendUnicast int u16 u8 Datagram | Readdress u16 u16

fun ether_step :: "shuffles \<Rightarrow> ether_op \<Rightarrow> EtherPort \<Rightarrow> (port_effect list \<times> EtherPort) outcome" where
  "ether_step sh AcquireTick p = Return (acquireAddressTick p)"
| "ether_step sh (Receive now f) p = InboundFrame sh now f p"
| "ether_step sh (AmtTick now) p = Return ([], amtAgeTick now p)"
| "ether_step sh (HeldTick now) p = Return ([], heldAgeTick now p)"
| "ether_step sh RetryTick p = Return (aarpRetryTick p, p)"
| "ether_step sh (SendUnicast now net nd d) p = Return (Unicast now net nd d p)"
| "ether_step sh (Readdress lo hi) p = SetNetworkRange sh lo hi p"

type_synonym ether_log = "(ether_op \<times> port_effect list) list"

primrec ether_run :: "shuffles \<Rightarrow> ether_op list \<Rightarrow> ether_log \<times> EtherPort \<Rightarrow> (ether_log \<times> EtherPort) outcome" where
  "ether_run sh [] s = Return s"
| "ether_run sh (op # ops) s =
    and_then (ether_step sh op (snd s)) (\<lambda>(effs, p). ether_run sh ops (fst s @ [(op, effs)], p))"

text \<open>The address from which a frame denies a probe: an AARP response sent to the prober.\<close>

definition answers :: "bytes \<Rightarrow> bytes \<Rightarrow> (u16 \<times> u8) option" where
  "answers own frame =
    (if length frame \<ge> 50 \<and> slice 14 17 frame = ieee8022Type1 \<and> slice 17 22 frame = snapAARP \<and>
        int16 (frame ! 12) (frame ! 13) = 36 \<and> slice 22 28 frame = aarpValidation \<and> slice 0 6 frame = own \<and>
        be16 (frame ! 28) (frame ! 29) = aarpFuncResponse
     then Some (be16 (frame ! 37) (frame ! 38), frame ! 39) else None)"

definition isProbe :: "bytes \<Rightarrow> u16 \<Rightarrow> u8 \<Rightarrow> ether_op \<times> port_effect list \<Rightarrow> bool" where
  "isProbe own net nd entry \<longleftrightarrow> entry = (AcquireTick,
     [Tx (etherFrame elapBroadcast own (aarpPacket aarpFuncProbe own net nd (replicate 6 0) net nd))])"

definition denies :: "bytes \<Rightarrow> u16 \<Rightarrow> u8 \<Rightarrow> ether_op \<times> port_effect list \<Rightarrow> bool" where
  "denies own net nd entry \<longleftrightarrow> (case fst entry of Receive _ f \<Rightarrow> answers own f = Some (net, nd) | _ \<Rightarrow> False)"

definition permute :: "shuffles \<Rightarrow> bool" where
  "permute sh \<longleftrightarrow> (\<forall>xs. mset (fst sh xs) = mset xs) \<and> (\<forall>xs. mset (snd sh xs) = mset xs)"

definition probing_ok :: "EtherPort \<Rightarrow> bool" where
  "probing_ok p \<longleftrightarrow>
     set (probeNets p) \<subseteq> set (nets (networkMin p) (networkMax p)) \<and> set (probeNodes p) \<subseteq> {1..0xFD} \<and>
     (probeNets p \<noteq> [] \<longrightarrow> networkMin p \<noteq> 0 \<and> networkMax p \<noteq> 0) \<and>
     (probeNetwork p \<noteq> 0 \<longrightarrow> probeNetwork p \<in> set (nets (networkMin p) (networkMax p)) \<and> networkMin p \<noteq> 0 \<and> networkMax p \<noteq> 0) \<and>
     (probeNode p \<noteq> 0 \<longrightarrow> probeNode p \<le> 0xFD) \<and> (network p = 0 \<longleftrightarrow> node p = 0) \<and>
     (network p \<noteq> 0 \<longrightarrow> network p \<in> set (nets (networkMin p) (networkMax p)) \<and> node p \<le> 0xFD)"

lemma permute_set: "permute sh \<Longrightarrow> set (fst sh xs) = set xs" "permute sh \<Longrightarrow> set (snd sh ys) = set ys"
  by (metis permute_def set_mset_mset)+

lemma set_allNodes: "set allNodes \<subseteq> {1..0xFD}"
proof
  fix w assume "w \<in> set allNodes"
  then obtain k where "w = word_of_nat k" "1 \<le> k" "k < 254" by (auto simp: allNodes_def)
  then show "w \<in> {1..0xFD}" by (simp add: word_le_nat_alt unat_of_nat take_bit_eq_mod)
qed

lemma listNets_Return: "listNets lo hi = Return ns \<Longrightarrow> ns = nets lo hi"
proof -
  assume ret: "listNets lo hi = Return ns"
  have app: "fold (\<lambda>n ns. ns @ [n]) xs ys = ys @ xs" for xs ys :: "u16 list"
    by (induction xs arbitrary: ys) auto
  have "hi \<noteq> 0xFFFF"
  proof
    assume "hi = 0xFFFF"
    then have "for_u16 (\<lambda>n ns. Inr (ns @ [n]) :: unit + u16 list) lo hi [] = None"
      using for_u16_diverges [of "\<lambda>n ns. Inr (ns @ [n]) :: unit + u16 list" lo "[]"] by simp
    with ret show False by (simp add: listNets_def split: if_splits)
  qed
  moreover have "hi \<le> 0xFFFF" using unsigned_less [of hi, where ?'a = nat] by (simp add: word_le_nat_alt)
  ultimately have "hi < 0xFFFF" by simp
  then show ?thesis
    using ret by (simp add: listNets_def for_u16_eq for_list_Inr_fold app split: if_splits)
qed

lemma takeLast_Return [simp]: "takeLast xs = Return (x, ys) \<longleftrightarrow> xs \<noteq> [] \<and> x = last xs \<and> ys = butlast xs"
  by (auto simp: takeLast_def)

text \<open>A new candidate comes from the range, and starts without probes.\<close>

lemma reroll_cases:
  assumes sh: "permute sh" and r: "rerollProbeState sh p = Return q"
  obtains (unseeded) "q = p" "probeNodes p = []" "networkMin p = 0 \<or> networkMax p = 0"
  | (node) n where "probeNodes p \<noteq> []" "n = last (probeNodes p)"
      "q = p\<lparr>probeNode := n, probeNodes := butlast (probeNodes p), probeAttempts := 0\<rparr>"
  | (network) n ns nd nds where "probeNodes p = []" "n \<in> set (probeNets p) \<union> set (nets (networkMin p) (networkMax p))"
      "set ns \<subseteq> set (probeNets p) \<union> set (nets (networkMin p) (networkMax p))"
      "probeNets p \<noteq> [] \<or> (networkMin p \<noteq> 0 \<and> networkMax p \<noteq> 0)" "nd \<in> set allNodes" "set nds \<subseteq> set allNodes"
      "q = p\<lparr>probeNetwork := n, probeNets := ns, probeNode := nd, probeNodes := nds, probeAttempts := 0\<rparr>"
proof (cases "probeNodes p = []")
  case False
  then show thesis using r node by (auto simp: rerollProbeState_def)
next
  case True
  show thesis
  proof (cases "probeNets p = [] \<and> (networkMin p = 0 \<or> networkMax p = 0)")
    case un: True
    then show thesis using r True unseeded by (auto simp: rerollProbeState_def)
  next
    case seeded: False
    have ne: "snd sh allNodes \<noteq> []"
      using permute_set(2) [OF sh, of allNodes] by (auto simp: allNodes_def)
    obtain cand where c1: "(if probeNets p = [] then and_then (listNets (networkMin p) (networkMax p)) (\<lambda>ns. Return (fst sh ns))
          else Return (probeNets p)) = Return cand"
      and c: "cand \<noteq> []" and q: "q = p\<lparr>probeNetwork := last cand, probeNets := butlast cand,
        probeNode := last (snd sh allNodes), probeNodes := butlast (snd sh allNodes), probeAttempts := 0\<rparr>"
      using r True seeded ne by (auto simp: rerollProbeState_def split del: if_split)
    from c1 have cand: "cand = (if probeNets p = [] then fst sh (nets (networkMin p) (networkMax p)) else probeNets p)"
      by (auto dest!: listNets_Return split: if_splits)
    have "set cand \<subseteq> set (probeNets p) \<union> set (nets (networkMin p) (networkMax p))"
      using permute_set(1) [OF sh] by (auto simp: cand split: if_splits)
    moreover have "last cand \<in> set cand" "set (butlast cand) \<subseteq> set cand" using c by (auto dest: in_set_butlastD)
    moreover have "last (snd sh allNodes) \<in> set allNodes" "set (butlast (snd sh allNodes)) \<subseteq> set allNodes"
      using last_in_set [OF ne] in_set_butlastD [of _ "snd sh allNodes"] unfolding permute_set(2) [OF sh] by blast+
    ultimately show thesis
      by (intro network [OF True _ _ _ _ _ q]) (use seeded in \<open>simp_all del: set_nets add: subset_iff\<close>)
  qed
qed

lemma reroll_probing_ok:
  assumes sh: "permute sh" and ok: "probing_ok p" and r: "rerollProbeState sh p = Return q"
  shows "probing_ok q"
  using sh r
proof (cases rule: reroll_cases)
  case unseeded
  then show ?thesis using ok by simp
next
  case (node n)
  then have "n \<in> set (probeNodes p)" "set (butlast (probeNodes p)) \<subseteq> set (probeNodes p)"
    by (auto dest: in_set_butlastD)
  with node(3) show ?thesis using ok unfolding probing_ok_def by (auto simp del: set_nets)
next
  case (network n ns nd nds)
  have nets_ok: "set (probeNets p) \<subseteq> set (nets (networkMin p) (networkMax p))"
    and seeded: "networkMin p \<noteq> 0 \<and> networkMax p \<noteq> 0"
    using ok network(4) by (auto simp: probing_ok_def)
  have "n \<in> set (nets (networkMin p) (networkMax p))" "set ns \<subseteq> set (nets (networkMin p) (networkMax p))"
    using network(2,3) nets_ok by blast+
  moreover have "nd \<le> 0xFD" "set nds \<subseteq> {1..0xFD}" using network(5,6) set_allNodes by auto
  ultimately show ?thesis using ok network(7) seeded unfolding probing_ok_def by (simp del: set_nets)
qed

lemma reroll_keeps:
  assumes sh: "permute sh" and r: "rerollProbeState sh p = Return q"
  shows "Ethertalk.network q = Ethertalk.network p" "Ethertalk.node q = Ethertalk.node p" "hwAddr q = hwAddr p" "amt q = amt p"
    "networkMin q = networkMin p" "networkMax q = networkMax p"
    "networkMin p \<noteq> 0 \<Longrightarrow> networkMax p \<noteq> 0 \<Longrightarrow> probeAttempts q = 0"
  using sh r by (cases rule: reroll_cases; simp)+

definition same_probe :: "EtherPort \<Rightarrow> EtherPort \<Rightarrow> bool" where
  "same_probe p q \<longleftrightarrow> q = p\<lparr>amt := amt q, heldDatagrams := heldDatagrams q\<rparr>"

lemma same_probe_refl [simp]: "same_probe p p" "same_probe p (p\<lparr>amt := m\<rparr>)" "same_probe p (p\<lparr>heldDatagrams := h\<rparr>)"
  "same_probe p (p\<lparr>amt := m, heldDatagrams := h\<rparr>)"
  by (simp_all add: same_probe_def)

lemma same_probe_ticks [simp]:
  "same_probe p (amtAgeTick now p)" "same_probe p (heldAgeTick now p)" "same_probe p (snd (Unicast now net nd d p))"
  "same_probe p (snd (addAddressMapping net nd hwa now p))"
  by (simp_all add: amtAgeTick_def heldAgeTick_def Unicast_def addAddressMapping_def Let_def split: option.split)

lemma same_probe_mapping: "addAddressMapping net nd hwa now p = (es, q) \<Longrightarrow> same_probe p q"
  by (metis same_probe_ticks(4) snd_conv)

lemma same_probe_fields:
  "same_probe p q \<Longrightarrow> network q = network p \<and> node q = node p \<and> hwAddr q = hwAddr p \<and> probeNetwork q = probeNetwork p \<and>
    probeNode q = probeNode p \<and> probeAttempts q = probeAttempts p \<and> probing_ok q = probing_ok p \<and>
    networkMin q = networkMin p \<and> networkMax q = networkMax p"
  unfolding same_probe_def probing_ok_def by (elim ssubst) (simp del: set_nets)

text \<open>A frame changes the candidate only when it denies it.\<close>

lemma processAARPFrame_cases:
  assumes "processAARPFrame sh now fn srcHW snet snode p = Return (effs, q)"
  shows "same_probe p q \<and> (fn = aarpFuncResponse \<longrightarrow> \<not> (network p = 0 \<and> node p = 0 \<and> snet = probeNetwork p \<and> snode = probeNode p)) \<or>
    fn = aarpFuncResponse \<and> network p = 0 \<and> snet = probeNetwork p \<and> snode = probeNode p \<and>
      (\<exists>p'. same_probe p p' \<and> rerollProbeState sh p' = Return q)"
proof (cases "fn = aarpFuncResponse")
  case True
  obtain es p' where m: "addAddressMapping snet snode srcHW now p = (es, p')" by (metis surj_pair)
  note same = same_probe_mapping [OF m] and flds = same_probe_fields [OF same_probe_mapping [OF m]]
  show ?thesis
  proof (cases "network p = 0 \<and> node p = 0 \<and> snet = probeNetwork p \<and> snode = probeNode p")
    case coll: True
    then have "rerollProbeState sh p' = Return q" using assms True m flds by (simp add: processAARPFrame_def)
    then show ?thesis using coll True same by blast
  next
    case False
    then have "q = p'" using assms True m flds by (auto simp: processAARPFrame_def)
    then show ?thesis using False same by blast
  qed
next
  case False
  then have "q = p" using assms by (auto simp: processAARPFrame_def split: if_splits)
  then show ?thesis using False by simp
qed

lemma InboundFrame_cases:
  assumes "InboundFrame sh now f p = Return (effs, q)"
  shows "same_probe p q \<and> (network p = 0 \<and> node p = 0 \<longrightarrow> answers (hwAddr p) f \<noteq> Some (probeNetwork p, probeNode p)) \<or>
    network p = 0 \<and> answers (hwAddr p) f = Some (probeNetwork p, probeNode p) \<and>
      (\<exists>p'. same_probe p p' \<and> rerollProbeState sh p' = Return q)"
proof (cases "answers (hwAddr p) f")
  case (Some a)
  then have f: "length f \<ge> 50" "slice 14 17 f = ieee8022Type1" "slice 17 22 f = snapAARP"
    "int16 (f ! 12) (f ! 13) = 36" "slice 22 28 f = aarpValidation" "slice 0 6 f = hwAddr p"
    "be16 (f ! 28) (f ! 29) = aarpFuncResponse" and a: "a = (be16 (f ! 37) (f ! 38), f ! 39)"
    by (auto simp: answers_def split: if_splits)
  then have "InboundFrame sh now f p = processAARPFrame sh now aarpFuncResponse (slice 30 36 f) (fst a) (snd a) p"
    by (auto simp: InboundFrame_def Let_def)
  then show ?thesis
    using processAARPFrame_cases [of sh now aarpFuncResponse "slice 30 36 f" "fst a" "snd a" p effs q] assms Some
    by (auto simp: prod_eq_iff)
next
  case None
  have map: "same_probe p q" if "Return (addAddressMapping net nd hwa now p) = Return (effs, q)" for net nd hwa
    using that same_probe_mapping by auto
  have proc: "same_probe p q" if "processAARPFrame sh now fn srcHW net nd p = Return (effs, q)"
    "slice 0 6 f = hwAddr p \<longrightarrow> fn \<noteq> aarpFuncResponse" "slice 0 6 f \<noteq> hwAddr p \<longrightarrow> fn \<noteq> aarpFuncResponse" for fn srcHW net nd
    using processAARPFrame_cases [OF that(1)] that(2,3) by blast
  have "same_probe p q"
    using assms None map proc
    by (auto simp: InboundFrame_def Let_def answers_def dest: same_probe_mapping split: if_splits sum.splits prod.splits)
  then show ?thesis using None by simp
qed


definition claim_inv :: "bytes \<Rightarrow> ether_log \<times> EtherPort \<Rightarrow> bool" where
  "claim_inv own = (\<lambda>(log, p). hwAddr p = own \<and> probing_ok p \<and>
     (network p = 0 \<and> probeNetwork p \<noteq> 0 \<longrightarrow>
       (\<exists>older newer. log = older @ newer \<and>
          probeAttempts p \<le> length (filter (isProbe own (probeNetwork p) (probeNode p)) newer) \<and>
          (\<forall>x \<in> set newer. \<not> denies own (probeNetwork p) (probeNode p) x))))"

lemma claim_inv_fresh: "hwAddr p = own \<Longrightarrow> probing_ok p \<Longrightarrow> probeAttempts p = 0 \<Longrightarrow> claim_inv own (log, p)"
  unfolding claim_inv_def by (auto intro: exI [of _ log] exI [of _ "[]"])

lemma claim_inv_extend:
  assumes inv: "claim_inv own (log, p)" and flds: "hwAddr q = hwAddr p" "probing_ok q" "network q = 0 \<Longrightarrow> network p = 0"
      "probeNetwork q = probeNetwork p" "probeNode q = probeNode p"
    and more: "probeAttempts q \<le> probeAttempts p + length (filter (isProbe own (probeNetwork p) (probeNode p)) [x])"
    and deny: "network p = 0 \<Longrightarrow> probeNetwork p \<noteq> 0 \<Longrightarrow> \<not> denies own (probeNetwork p) (probeNode p) x"
  shows "claim_inv own (log @ [x], q)"
proof -
  have "\<exists>older newer. log @ [x] = older @ newer \<and>
      probeAttempts q \<le> length (filter (isProbe own (probeNetwork p) (probeNode p)) newer) \<and>
      (\<forall>y \<in> set newer. \<not> denies own (probeNetwork p) (probeNode p) y)" if z: "network q = 0" "probeNetwork p \<noteq> 0"
  proof -
    obtain older newer where "log = older @ newer"
      "probeAttempts p \<le> length (filter (isProbe own (probeNetwork p) (probeNode p)) newer)"
      "\<forall>y \<in> set newer. \<not> denies own (probeNetwork p) (probeNode p) y"
      using inv flds(3) z unfolding claim_inv_def by auto
    with more deny flds(3) z show ?thesis
      by (intro exI [of _ older] exI [of _ "newer @ [x]"]) auto
  qed
  then show ?thesis using inv flds by (auto simp: claim_inv_def)
qed

lemma claim_inv_same:
  assumes "claim_inv own (log, p)" "same_probe p q"
    "network p = 0 \<Longrightarrow> probeNetwork p \<noteq> 0 \<Longrightarrow> \<not> denies own (probeNetwork p) (probeNode p) x"
  shows "claim_inv own (log @ [x], q)"
  using assms same_probe_fields [OF assms(2)] by (intro claim_inv_extend [OF assms(1)]) (auto simp: claim_inv_def)

definition seededOps :: "ether_op list \<Rightarrow> bool" where
  "seededOps ops \<longleftrightarrow> (\<forall>lo hi. Readdress lo hi \<in> set ops \<longrightarrow> lo \<noteq> 0 \<and> hi \<noteq> 0)"

lemma claim_inv_step:
  assumes sh: "permute sh" and inv: "claim_inv own (log, p)" and op: "seededOps [op]"
    and step: "ether_step sh op p = Return (effs, q)"
  shows "claim_inv own (log @ [(op, effs)], q)"
proof -
  have own: "hwAddr p = own" and ok: "probing_ok p" using inv by (auto simp: claim_inv_def)
  show ?thesis
  proof (cases op)
    case AcquireTick
    consider (idle) "q = p" | (claim) "q = p\<lparr>network := probeNetwork p, node := probeNode p\<rparr>" "network p = 0" "probeNetwork p \<noteq> 0" "probeNode p \<noteq> 0"
      | (probe) "q = p\<lparr>probeAttempts := probeAttempts p + 1\<rparr>" "effs = sendAARPProbe (probeNetwork p) (probeNode p) q"
      using step AcquireTick by (auto simp: acquireAddressTick_def Let_def split: if_splits)
    then show ?thesis
    proof cases
      case idle
      then show ?thesis using claim_inv_same [OF inv] AcquireTick by (simp add: denies_def)
    next
      case claim
      then have "probing_ok q" using ok unfolding probing_ok_def by (simp del: set_nets)
      with claim show ?thesis using AcquireTick by (intro claim_inv_extend [OF inv]) (auto simp: denies_def)
    next
      case probe
      then have "isProbe own (probeNetwork p) (probeNode p) (op, effs)"
        using AcquireTick own by (simp add: isProbe_def sendAARPProbe_def sendFrame_eq)
      moreover have "probing_ok q" using ok probe(1) unfolding probing_ok_def by (simp del: set_nets)
      ultimately show ?thesis using probe(1) AcquireTick by (intro claim_inv_extend [OF inv]) (auto simp: denies_def)
    qed
  next
    case (Receive now f)
    then have "InboundFrame sh now f p = Return (effs, q)" using step by simp
    from InboundFrame_cases [OF this] show ?thesis
    proof
      assume "same_probe p q \<and> (network p = 0 \<and> node p = 0 \<longrightarrow> answers (hwAddr p) f \<noteq> Some (probeNetwork p, probeNode p))"
      then show ?thesis
        using Receive own ok by (intro claim_inv_same [OF inv]) (auto simp: denies_def probing_ok_def)
    next
      assume *: "network p = 0 \<and> answers (hwAddr p) f = Some (probeNetwork p, probeNode p) \<and>
        (\<exists>p'. same_probe p p' \<and> rerollProbeState sh p' = Return q)"
      then obtain p' where p': "same_probe p p'" "rerollProbeState sh p' = Return q" by blast
      note flds = same_probe_fields [OF p'(1)] and keeps = reroll_keeps [OF sh p'(2)]
      have q: "probing_ok q" "hwAddr q = own" using reroll_probing_ok [OF sh _ p'(2)] flds ok own keeps by auto
      show ?thesis
      proof (cases "networkMin p \<noteq> 0 \<and> networkMax p \<noteq> 0")
        case True
        then show ?thesis using q flds keeps by (intro claim_inv_fresh) auto
      next
        case False
        then have "probeNetwork q = 0" using q(1) keeps(5,6) flds unfolding probing_ok_def by metis
        then show ?thesis using q by (simp add: claim_inv_def)
      qed
    qed
  next
    case (Readdress lo hi)
    let ?p = "p\<lparr>networkMin := lo, networkMax := hi, network := 0, node := 0, probeNets := [], probeNodes := []\<rparr>"
    have r: "rerollProbeState sh ?p = Return q" and nz: "lo \<noteq> 0" "hi \<noteq> 0"
      using step op Readdress by (auto simp: SetNetworkRange_def seededOps_def)
    from sh r have "probing_ok q \<and> probeAttempts q = 0 \<and> hwAddr q = own"
    proof (cases rule: reroll_cases)
      case (network n ns nd nds)
      then show ?thesis using nz own set_allNodes unfolding probing_ok_def by (auto simp del: set_nets)
    qed (use nz in auto)
    then show ?thesis by (intro claim_inv_fresh) auto
  next
    case (SendUnicast now net nd d)
    then have "q = snd (Unicast now net nd d p)" using step by (metis ether_step.simps(6) outcome.inject snd_conv)
    then show ?thesis using claim_inv_same [OF inv] SendUnicast by (simp add: denies_def)
  qed (use claim_inv_same [OF inv] step in \<open>auto simp: denies_def\<close>)
qed

lemma claim_inv_run:
  assumes "permute sh" "claim_inv own s" "seededOps ops" "ether_run sh ops s = Return s'"
  shows "claim_inv own s'"
  using assms(2-4)
proof (induction ops arbitrary: s)
  case (Cons op ops)
  then obtain effs q where step: "ether_step sh op (snd s) = Return (effs, q)"
    and rest: "ether_run sh ops (fst s @ [(op, effs)], q) = Return s'" by auto
  have "seededOps [op]" "seededOps ops" using Cons.prems(2) by (auto simp: seededOps_def)
  then show ?case
    using Cons.IH [OF _ _ rest] claim_inv_step [OF assms(1) _ _ step, of own "fst s"] Cons.prems(1) by simp
qed simp


definition sample_prober :: EtherPort where
  "sample_prober = (sample_ether 7)\<lparr>network := 0, node := 0, probeAttempts := 0\<rparr>"

lemma sample_probe_run:
  "\<exists>log. ether_run sh (replicate n AcquireTick) (l, sample_prober\<lparr>probeAttempts := k\<rparr>) =
     Return (log, sample_prober\<lparr>probeAttempts := k + n\<rparr>)" if "k + n \<le> 10"
  using that
proof (induction n arbitrary: l k)
  case (Suc n)
  have "acquireAddressTick (sample_prober\<lparr>probeAttempts := k\<rparr>) =
      (sendAARPProbe 4 7 (sample_prober\<lparr>probeAttempts := Suc k\<rparr>), sample_prober\<lparr>probeAttempts := Suc k\<rparr>)"
    using Suc.prems by (simp add: sample_prober_def sample_ether_def acquireAddressTick_def Let_def)
  then show ?case using Suc.IH [of "Suc k"] Suc.prems by simp
qed simp


section \<open>Malformed frames\<close>

lemma listNets_ok: "lo \<le> hi \<Longrightarrow> hi < 0xFFFF \<Longrightarrow> listNets lo hi = Return (nets lo hi)"
proof -
  assume a: "lo \<le> hi" "hi < 0xFFFF"
  have app: "fold (\<lambda>n ns. ns @ [n]) xs ys = ys @ xs" for xs ys :: "u16 list"
    by (induction xs arbitrary: ys) auto
  have "\<not> int (unat hi) - int (unat lo) + 1 < 0" using a(1) by (simp add: word_le_def)
  then show ?thesis using a by (simp add: listNets_def for_u16_eq for_list_Inr_fold app)
qed

lemma reroll_returns:
  assumes "permute sh" "networkMin p \<le> networkMax p" "networkMax p < 0xFFFF"
  shows "\<exists>q. rerollProbeState sh p = Return q"
proof -
  have "networkMin p \<in> set (fst sh (nets (networkMin p) (networkMax p)))"
    using assms permute_set(1) [OF assms(1)] by simp
  then have "fst sh (nets (networkMin p) (networkMax p)) \<noteq> []" by auto
  moreover have "snd sh allNodes \<noteq> []"
    using permute_set(2) [OF assms(1), of allNodes] by (auto simp: allNodes_def)
  ultimately show ?thesis
    using assms by (auto simp: rerollProbeState_def listNets_ok takeLast_def)
qed

lemma processAARPFrame_returns:
  assumes "permute sh" "networkMin p \<le> networkMax p" "networkMax p < 0xFFFF"
  shows "\<exists>r. processAARPFrame sh now fn srcHW net nd p = Return r"
proof -
  obtain es p' where m: "addAddressMapping net nd srcHW now p = (es, p')" by (metis surj_pair)
  obtain q where "rerollProbeState sh p' = Return q"
    using reroll_returns [OF assms(1), of p'] assms(2,3) same_probe_fields [OF same_probe_mapping [OF m]] by auto
  then show ?thesis by (simp add: processAARPFrame_def m)
qed



text \<open>The address asked for at construction is never tried first: the acquisition starts by
  discarding the candidates that \<open>New\<close> prepared.\<close>

lemma desired_address_ignored:
  "networkMin p \<noteq> 0 \<Longrightarrow> networkMax p \<noteq> 0 \<Longrightarrow>
   acquireAddressBegin sh (p\<lparr>probeNets := ns, probeNodes := nds\<rparr>) = acquireAddressBegin sh p"
  by (simp add: acquireAddressBegin_def)

end
