(* ===== verification/Localtalk.thy ===== *)
theory Localtalk
  imports Nbp
begin

text \<open>
  The LocalTalk port of \<^verbatim>\<open>port/localtalk/localtalk.go\<close> and the link access service of
  \<^verbatim>\<open>service/llap/llap.go\<close> that manages it: acquisition of a node address, framing and
  reception, and transmission with the RTS and CTS handshake.

  A call of \<open>sendFrameFunc\<close> is an effect; whether it succeeds, where the code looks at it, is an
  argument of the step, as are the readings of the clock, the number of back-off slots that
  \<open>rand.Intn\<close> gives and the permutation that \<open>rand.Shuffle\<close> makes. A transmission waits for the
  line and for the answer of the peer, so it is a run of its own with a step between any two waits;
  \<open>txMu\<close> allows one run at a time. Capture, traffic metering and logging are left out.
\<close>

section \<open>The port\<close>

record LtPort =
  seedNetwork :: u16
  seedZoneName :: bytes
  respondToEnq :: bool
  supportsRTSCTS :: bool
  rtsctsManaged :: bool
  nodeHook :: bool
  ctsTimeout :: int
  desiredNode :: u8
  verifyChecksums :: bool
  calcChecksums :: bool
  ltNetwork :: u16
  ltNode :: u8
  ltNetworkMin :: u16
  ltNetworkMax :: u16
  nodeAttempts :: nat
  desiredNodeList :: "u8 list"
  linkManaged :: bool

datatype lt_effect =
    SendFrame bytes
  | NodeIDChange u8
  | RouterInbound Datagram
  | RouterSetPortRange u16 u16
  | RouterAddNetworksToZone bytes u16 u16
  | ManagerRegisterPort
  | ManagerInboundFrame Frame
  | ManagerTransmitUnicast u16 u8 Datagram
  | ManagerTransmitBroadcast Datagram
  | StartNodeRun
  | StartAcquireLoop
  | TransmitDone "string option"

text \<open>The addresses from 1 to 0xFE.\<close>

definition allNodes :: "u8 list" where
  "allNodes = map word_of_nat [1..<255]"

definition newLtPort :: "(u8 list \<Rightarrow> u8 list) \<Rightarrow> u16 \<Rightarrow> bytes \<Rightarrow> bool \<Rightarrow> u8 \<Rightarrow> LtPort" where
  "newLtPort shuffle net zone respond desired =
    \<lparr>seedNetwork = net, seedZoneName = zone, respondToEnq = respond, supportsRTSCTS = False, rtsctsManaged = False,
     nodeHook = False, ctsTimeout = 2000000, desiredNode = desired, verifyChecksums = True, calcChecksums = True,
     ltNetwork = net, ltNode = 0, ltNetworkMin = net, ltNetworkMax = net, nodeAttempts = 0,
     desiredNodeList = shuffle (filter (\<lambda>i. i \<noteq> desired) allNodes), linkManaged = False\<rparr>"

definition SendRawLLAPFrame :: "bool \<Rightarrow> Frame \<Rightarrow> bool \<times> lt_effect list" where
  "SendRawLLAPFrame ok f = (if Validate f \<noteq> None then (False, []) else (ok, [SendFrame (Bytes f)]))"

datatype frame_error = NodeNotClaimed | NotADataFrame u8 | DdpError ddp_error

definition as_frame_error :: "ddp_error + 'b \<Rightarrow> frame_error + 'b" where
  "as_frame_error r = (case r of Inl e \<Rightarrow> Inl (DdpError e) | Inr b \<Rightarrow> Inr b)"

definition local_only :: "u16 \<Rightarrow> Datagram \<Rightarrow> bool" where
  "local_only net d \<longleftrightarrow> DestinationNetwork d = SourceNetwork d \<and> (DestinationNetwork d = 0 \<or> DestinationNetwork d = net)"

definition BuildDataFrame :: "u8 \<Rightarrow> Datagram \<Rightarrow> LtPort \<Rightarrow> frame_error + Frame" where
  "BuildDataFrame dst' d p =
    (if ltNode p = 0 then Inl NodeNotClaimed
     else if local_only (ltNetwork p) d then
       bind_err (as_frame_error (AsShortHeaderBytes d)) (\<lambda>b. Inr
         \<lparr>frameDestination = dst', frameSource = ltNode p, frameType = TypeAppleTalkShortHeader, framePayload = b\<rparr>)
     else
       bind_err (as_frame_error (AsLongHeaderBytes d (calcChecksums p))) (\<lambda>b. Inr
         \<lparr>frameDestination = dst', frameSource = ltNode p, frameType = TypeAppleTalkLongHeader, framePayload = b\<rparr>))"

definition ParseInboundDataFrame :: "Frame \<Rightarrow> LtPort \<Rightarrow> frame_error + Datagram" where
  "ParseInboundDataFrame f p =
    (if frameType f = TypeAppleTalkShortHeader then
       as_frame_error (DatagramFromShortHeaderBytes (frameDestination f) (frameSource f) (framePayload f))
     else if frameType f = TypeAppleTalkLongHeader then
       as_frame_error (DatagramFromLongHeaderBytes (framePayload f) (verifyChecksums p))
     else Inl (NotADataFrame (frameType f)))"

definition ClaimNode :: "u8 \<Rightarrow> LtPort \<Rightarrow> lt_effect list \<times> LtPort" where
  "ClaimNode n p = (if nodeHook p then [NodeIDChange n] else [], p\<lparr>ltNode := n\<rparr>)"

definition ClearClaimedNode :: "LtPort \<Rightarrow> lt_effect list \<times> LtPort" where
  "ClearClaimedNode p = (if nodeHook p then [NodeIDChange 0] else [], p\<lparr>ltNode := 0\<rparr>)"

definition rerollDesiredNode :: "(u8 list \<Rightarrow> u8 list) \<Rightarrow> LtPort \<Rightarrow> LtPort" where
  "rerollDesiredNode shuffle p =
    (let cand = (if desiredNodeList p = [] then shuffle allNodes else desiredNodeList p) in
     p\<lparr>nodeAttempts := 0, desiredNode := last cand, desiredNodeList := butlast cand\<rparr>)"

definition ltStart :: "LtPort \<Rightarrow> lt_effect list" where
  "ltStart p =
    (if ltNetworkMin p \<noteq> 0 then [RouterSetPortRange (ltNetworkMin p) (ltNetworkMax p)] else []) @
    (if seedNetwork p \<noteq> 0 \<and> seedZoneName p \<noteq> [] then [RouterAddNetworksToZone (seedZoneName p) (ltNetworkMin p) (ltNetworkMax p)] else []) @
    [if linkManaged p then ManagerRegisterPort else StartNodeRun]"

text \<open>One tick of \<open>nodeRun\<close>; the first result is true when the goroutine ends.\<close>

definition nodeRun :: "LtPort \<Rightarrow> bool \<times> lt_effect list \<times> LtPort" where
  "nodeRun p =
    (if nodeAttempts p \<ge> 8 then (True, [], p\<lparr>ltNode := desiredNode p\<rparr>)
     else (False, [SendFrame [desiredNode p, desiredNode p, TypeENQ]], p\<lparr>nodeAttempts := nodeAttempts p + 1\<rparr>))"

definition ltInboundFrame :: "(u8 list \<Rightarrow> u8 list) \<Rightarrow> bytes \<Rightarrow> LtPort \<Rightarrow> lt_effect list \<times> LtPort" where
  "ltInboundFrame shuffle b p =
    (case FrameFromBytes b of
       Inl _ \<Rightarrow> ([], p)
     | Inr f \<Rightarrow>
         if frameSource f = ltNode p \<and> ltNode p \<noteq> 0 then ([], p)
         else if linkManaged p then ([ManagerInboundFrame f], p)
         else if frameType f = TypeAppleTalkShortHeader then
           (case DatagramFromShortHeaderBytes (frameDestination f) (frameSource f) (framePayload f) of
              Inl _ \<Rightarrow> ([], p) | Inr d \<Rightarrow> ([RouterInbound d], p))
         else if frameType f = TypeAppleTalkLongHeader then
           (case DatagramFromLongHeaderBytes (framePayload f) (verifyChecksums p) of
              Inl _ \<Rightarrow> ([], p) | Inr d \<Rightarrow> ([RouterInbound d], p))
         else if frameType f = TypeENQ then
           if respondToEnq p \<and> ltNode p \<noteq> 0 \<and> ltNode p = frameDestination f then
             ([SendFrame [ltNode p, ltNode p, TypeACK]], p)
           else ([], if ltNode p = 0 \<and> frameDestination f = desiredNode p then rerollDesiredNode shuffle p else p)
         else if frameType f = TypeACK then
           ([], if ltNode p = 0 \<and> frameDestination f = desiredNode p then rerollDesiredNode shuffle p else p)
         else ([], p))"

definition ltUnicast :: "u16 \<Rightarrow> u8 \<Rightarrow> Datagram \<Rightarrow> LtPort \<Rightarrow> lt_effect list" where
  "ltUnicast net n d p =
    (if linkManaged p then [ManagerTransmitUnicast net n d]
     else if net \<noteq> 0 \<and> net \<noteq> ltNetwork p \<or> ltNode p = 0 then []
     else if local_only (ltNetwork p) d then
       (case AsShortHeaderBytes d of Inl _ \<Rightarrow> [] | Inr b \<Rightarrow> [SendFrame ([n, ltNode p, TypeAppleTalkShortHeader] @ b)])
     else
       (case AsLongHeaderBytes d (calcChecksums p) of Inl _ \<Rightarrow> [] | Inr b \<Rightarrow> [SendFrame ([n, ltNode p, TypeAppleTalkLongHeader] @ b)]))"

definition ltBroadcast :: "Datagram \<Rightarrow> LtPort \<Rightarrow> lt_effect list" where
  "ltBroadcast d p =
    (if linkManaged p then [ManagerTransmitBroadcast d]
     else if ltNode p = 0 then []
     else (case AsShortHeaderBytes d of Inl _ \<Rightarrow> [] | Inr b \<Rightarrow> [SendFrame ([0xFF, ltNode p, TypeAppleTalkShortHeader] @ b)]))"

definition ltMulticast :: "bytes \<Rightarrow> Datagram \<Rightarrow> LtPort \<Rightarrow> lt_effect list" where
  "ltMulticast zone d p = ltBroadcast d p"

definition ltSetNetworkRange :: "u16 \<Rightarrow> u16 \<Rightarrow> LtPort \<Rightarrow> lt_effect list \<times> LtPort" where
  "ltSetNetworkRange lo hi p =
    (if lo \<noteq> hi \<or> ltNetwork p \<noteq> 0 then ([], p)
     else ([RouterSetPortRange lo hi], p\<lparr>ltNetwork := lo, ltNetworkMin := lo, ltNetworkMax := hi\<rparr>))"

section \<open>The link access service\<close>

abbreviation (input) probeAttemptsToClaim :: nat where "probeAttemptsToClaim \<equiv> 8"
abbreviation (input) maxRetries :: nat where "maxRetries \<equiv> 32"
abbreviation (input) approxIDG :: int where "approxIDG \<equiv> 4000000"
abbreviation (input) approxIFG :: int where "approxIFG \<equiv> 2000000"
abbreviation (input) localTalkBitRate :: int where "localTalkBitRate \<equiv> 230400"
abbreviation (input) BroadcastNode :: u8 where "BroadcastNode \<equiv> 0xFF"

datatype transmitKind = Directed | Unhandshaked | Broadcasted

text \<open>Where a transmission waits: for the line, to arm the wait for CTS, for CTS, or for the gap before broadcast data.\<close>

datatype transmitStage = WaitIdle | ArmCTS | WaitCTS | WaitGap

record transmission =
  txKind :: transmitKind
  txFrame :: Frame
  txAttempt :: nat
  localBackoff :: int
  txStage :: transmitStage

text \<open>\<open>ctsCh\<close> is the channel of capacity 1, if there is one, with a token in it or not.\<close>

record portState =
  started :: bool
  claimed :: bool
  probeAttempts :: nat
  backoff :: int
  deferHistory :: u8
  collisionHistory :: u8
  llLastActivity :: int
  expectCTSFrom :: u8
  ctsCh :: "bool option"
  transmitting :: "transmission option"

text \<open>A port with the service's state for it.\<close>

record Link =
  lport :: LtPort
  lstate :: portState

definition newPortState :: "int \<Rightarrow> portState" where
  "newPortState now = \<lparr>started = False, claimed = False, probeAttempts = 0, backoff = 0, deferHistory = 0, collisionHistory = 0,
     llLastActivity = now, expectCTSFrom = 0, ctsCh = None, transmitting = None\<rparr>"

definition startPortLocked :: "portState \<Rightarrow> lt_effect list \<times> portState" where
  "startPortLocked st = (if started st then ([], st) else ([StartAcquireLoop], st\<lparr>started := True\<rparr>))"

text \<open>\<open>RegisterPort\<close> and \<open>stateFor\<close>: the state of a port the service knows, or a new one.\<close>

definition stateFor :: "bool \<Rightarrow> int \<Rightarrow> portState option \<Rightarrow> lt_effect list \<times> portState" where
  "stateFor hasRouter now known =
    (case known of
       Some st \<Rightarrow> ([], st)
     | None \<Rightarrow> if hasRouter then startPortLocked (newPortState now) else ([], newPortState now))"

definition frameTransmitDuration :: "Frame \<Rightarrow> int" where
  "frameTransmitDuration f =
    (let n = length (Bytes f) in if n \<le> 0 then 0 else int (n * 8) * 1000000000 div localTalkBitRate)"

definition noteFrameActivity :: "int \<Rightarrow> Frame \<Rightarrow> portState \<Rightarrow> portState" where
  "noteFrameActivity now f st =
    (let busyUntil = now + frameTransmitDuration f in
     if busyUntil > llLastActivity st then st\<lparr>llLastActivity := busyUntil\<rparr> else st)"

definition isClaimed :: "Link \<Rightarrow> bool" where
  "isClaimed l \<longleftrightarrow> claimed (lstate l) \<or> ltNode (lport l) \<noteq> 0"

definition sendLinkFrame :: "int \<Rightarrow> bool \<Rightarrow> Frame \<Rightarrow> Link \<Rightarrow> bool \<times> lt_effect list \<times> Link" where
  "sendLinkFrame now ok f l =
    (let (sent_ok, out) = SendRawLLAPFrame ok f in
     (sent_ok, out, if sent_ok then l\<lparr>lstate := noteFrameActivity now f (lstate l)\<rparr> else l))"

definition controlFrame :: "u8 \<Rightarrow> u8 \<Rightarrow> u8 \<Rightarrow> Frame" where
  "controlFrame d s t = \<lparr>frameDestination = d, frameSource = s, frameType = t, framePayload = []\<rparr>"

text \<open>One tick of \<open>acquireLoop\<close>; the first result is true when the goroutine ends.\<close>

definition acquireLoop :: "int \<Rightarrow> bool \<Rightarrow> Link \<Rightarrow> bool \<times> lt_effect list \<times> Link" where
  "acquireLoop now ok l =
    (let st = lstate l; desired = desiredNode (lport l) in
     if claimed st then (True, [], l)
     else if probeAttempts st \<ge> probeAttemptsToClaim then
       let (out, p) = ClaimNode desired (lport l) in
       (True, out, l\<lparr>lstate := st\<lparr>claimed := True\<rparr>, lport := p\<rparr>)
     else
       let l = l\<lparr>lstate := st\<lparr>probeAttempts := probeAttempts st + 1\<rparr>\<rparr> in
       (False, snd (sendLinkFrame now ok (controlFrame desired desired TypeENQ) l)))"

text \<open>Another node has, or wants, the desired address.\<close>

definition rerollLink :: "(u8 list \<Rightarrow> u8 list) \<Rightarrow> u8 \<Rightarrow> Link \<Rightarrow> Link" where
  "rerollLink shuffle n l =
    (if claimed (lstate l) \<or> n \<noteq> desiredNode (lport l) then l
     else l\<lparr>lport := rerollDesiredNode shuffle (lport l), lstate := (lstate l)\<lparr>probeAttempts := 0\<rparr>\<rparr>)"

definition handleENQ :: "(u8 list \<Rightarrow> u8 list) \<Rightarrow> int \<Rightarrow> bool \<Rightarrow> Frame \<Rightarrow> Link \<Rightarrow> lt_effect list \<times> Link" where
  "handleENQ shuffle now ok f l =
    (let n = ltNode (lport l) in
     if respondToEnq (lport l) \<and> n \<noteq> 0 \<and> frameDestination f = n
     then snd (sendLinkFrame now ok (controlFrame n n TypeACK) l)
     else ([], rerollLink shuffle (frameDestination f) l))"

definition handleACK :: "(u8 list \<Rightarrow> u8 list) \<Rightarrow> Frame \<Rightarrow> Link \<Rightarrow> Link" where
  "handleACK shuffle f l = rerollLink shuffle (frameDestination f) l"

definition handleRTS :: "int \<Rightarrow> bool \<Rightarrow> Frame \<Rightarrow> Link \<Rightarrow> lt_effect list \<times> Link" where
  "handleRTS now ok f l =
    (if \<not> isClaimed l \<or> frameDestination f \<noteq> ltNode (lport l) then ([], l)
     else snd (sendLinkFrame now ok (controlFrame (frameSource f) (ltNode (lport l)) TypeCTS) l))"

definition handleCTS :: "Frame \<Rightarrow> Link \<Rightarrow> Link" where
  "handleCTS f l =
    (let st = lstate l in
     if expectCTSFrom st = 0 \<or> expectCTSFrom st \<noteq> frameSource f \<or> ctsCh st = None then l
     else l\<lparr>lstate := st\<lparr>ctsCh := Some True\<rparr>\<rparr>)"

definition llapInboundFrame :: "(u8 list \<Rightarrow> u8 list) \<Rightarrow> int \<Rightarrow> bool \<Rightarrow> bool \<Rightarrow> Frame \<Rightarrow> Link \<Rightarrow> lt_effect list \<times> Link" where
  "llapInboundFrame shuffle now ok hasRouter f l =
    (if Validate f \<noteq> None then ([], l)
     else
       let l = l\<lparr>lstate := noteFrameActivity now f (lstate l)\<rparr> in
       if IsData f then
         if \<not> hasRouter then ([], l)
         else (case ParseInboundDataFrame f (lport l) of Inl _ \<Rightarrow> ([], l) | Inr d \<Rightarrow> ([RouterInbound d], l))
       else if frameType f = TypeENQ then handleENQ shuffle now ok f l
       else if frameType f = TypeACK then ([], handleACK shuffle f l)
       else if frameType f = TypeRTS then handleRTS now ok f l
       else if frameType f = TypeCTS then ([], handleCTS f l)
       else ([], l))"

section \<open>Transmission\<close>

definition beginTransmit :: "portState \<Rightarrow> int \<times> portState" where
  "beginTransmit st =
    (let st =
       (if length (filter (bit (collisionHistory st)) [0..<8]) > 2
        then st\<lparr>backoff := min (max (backoff st * 2) 2) 16, collisionHistory := 0\<rparr>
        else if length (filter (bit (deferHistory st)) [0..<8]) < 2
        then st\<lparr>backoff := backoff st div 2, deferHistory := 0\<rparr>
        else st);
         st = st\<lparr>deferHistory := push_bit 1 (deferHistory st), collisionHistory := push_bit 1 (collisionHistory st)\<rparr> in
     (backoff st, st))"

definition finishTransmit :: "string option \<Rightarrow> Link \<Rightarrow> lt_effect list \<times> Link" where
  "finishTransmit err l =
    ([TransmitDone err], l\<lparr>lstate := (lstate l)\<lparr>expectCTSFrom := 0, ctsCh := None, transmitting := None\<rparr>\<rparr>)"

text \<open>
  \<open>waitForIdle\<close> with the pairs of clock and last activity that its loop reads, and the slots that
  \<open>rand.Intn(localBackoff)\<close> gives: whether it deferred, \<open>None\<close> while the line is still busy.
\<close>

fun waitForIdle :: "int \<Rightarrow> nat \<Rightarrow> bool \<Rightarrow> (int \<times> int) list \<Rightarrow> bool option" where
  "waitForIdle lb slots deferred [] = None"
| "waitForIdle lb slots deferred ((now, la) # reads) =
    (if now - la \<ge> approxIDG then Some (deferred \<or> lb > 0 \<and> slots > 0)
     else waitForIdle lb slots True reads)"

definition startTransmission :: "transmitKind \<Rightarrow> Frame \<Rightarrow> Link \<Rightarrow> Link" where
  "startTransmission kind f l =
    (let (lb, st) = beginTransmit (lstate l) in
     l\<lparr>lstate := st\<lparr>transmitting := Some \<lparr>txKind = kind, txFrame = f, txAttempt = 1, localBackoff = lb, txStage = WaitIdle\<rparr>\<rparr>\<rparr>)"

text \<open>\<open>TransmitUnicast\<close> and \<open>TransmitBroadcast\<close> up to their first wait, once \<open>txMu\<close> is free.\<close>

definition TransmitUnicast :: "u16 \<Rightarrow> u8 \<Rightarrow> Datagram \<Rightarrow> Link \<Rightarrow> Link" where
  "TransmitUnicast net n d l =
    (if net \<noteq> 0 \<and> net \<noteq> ltNetwork (lport l) \<or> \<not> isClaimed l then l
     else case BuildDataFrame n d (lport l) of
       Inl _ \<Rightarrow> l
     | Inr f \<Rightarrow>
         if \<not> supportsRTSCTS (lport l) \<or> rtsctsManaged (lport l) then startTransmission Unhandshaked f l
         else startTransmission Directed f l)"

definition TransmitBroadcast :: "Datagram \<Rightarrow> Link \<Rightarrow> Link" where
  "TransmitBroadcast d l =
    (if \<not> isClaimed l then l
     else case BuildDataFrame BroadcastNode d (lport l) of
       Inl _ \<Rightarrow> l
     | Inr f \<Rightarrow> startTransmission Broadcasted f l)"

definition updTx :: "(transmission \<Rightarrow> transmission) \<Rightarrow> Link \<Rightarrow> Link" where
  "updTx g l = l\<lparr>lstate := (lstate l)\<lparr>transmitting := map_option g (transmitting (lstate l))\<rparr>\<rparr>"

text \<open>The line is free: a defer is noted, then RTS goes out, or the frame itself when there is no handshake.\<close>

definition lineIdle :: "int \<Rightarrow> bool \<Rightarrow> bool \<Rightarrow> transmission \<Rightarrow> Link \<Rightarrow> lt_effect list \<times> Link" where
  "lineIdle now ok deferred tx l =
    (let l = (if deferred then l\<lparr>lstate := (lstate l)\<lparr>deferHistory := deferHistory (lstate l) OR 1\<rparr>\<rparr> else l);
         f = (if txKind tx = Unhandshaked then txFrame tx
              else controlFrame (if txKind tx = Directed then frameDestination (txFrame tx) else BroadcastNode) (ltNode (lport l)) TypeRTS);
         (sent_ok, out, l) = sendLinkFrame now ok f l in
     if \<not> sent_ok then let (fin, l) = finishTransmit (Some ''send failed'') l in (out @ fin, l)
     else case txKind tx of
       Unhandshaked \<Rightarrow> let (fin, l) = finishTransmit None l in (out @ fin, l)
     | Directed \<Rightarrow> (out, updTx (\<lambda>t. t\<lparr>txStage := ArmCTS\<rparr>) l)
     | Broadcasted \<Rightarrow> (out, updTx (\<lambda>t. t\<lparr>txStage := WaitGap\<rparr>) l))"

definition armCTS :: "transmission \<Rightarrow> Link \<Rightarrow> Link" where
  "armCTS tx l = updTx (\<lambda>t. t\<lparr>txStage := WaitCTS\<rparr>)
     (l\<lparr>lstate := (lstate l)\<lparr>expectCTSFrom := frameDestination (txFrame tx), ctsCh := Some False\<rparr>\<rparr>)"

text \<open>The frame itself, after CTS or after the gap of a broadcast.\<close>

definition sendData :: "int \<Rightarrow> bool \<Rightarrow> transmission \<Rightarrow> Link \<Rightarrow> lt_effect list \<times> Link" where
  "sendData now ok tx l =
    (let (sent_ok, out, l) = sendLinkFrame now ok (txFrame tx) l;
         (fin, l) = finishTransmit (if sent_ok then None else Some ''send failed'') l in
     (out @ fin, l))"

definition ctsTimeoutFired :: "transmission \<Rightarrow> Link \<Rightarrow> lt_effect list \<times> Link" where
  "ctsTimeoutFired tx l =
    (let l = l\<lparr>lstate := (lstate l)\<lparr>collisionHistory := collisionHistory (lstate l) OR 1, expectCTSFrom := 0, ctsCh := None\<rparr>\<rparr> in
     if txAttempt tx < maxRetries
     then ([], updTx (\<lambda>t. t\<lparr>txAttempt := txAttempt t + 1, localBackoff := min (max (localBackoff t * 2) 2) 16, txStage := WaitIdle\<rparr>) l)
     else finishTransmit (Some ''retry limit exceeded'') l)"

section \<open>Runs\<close>

datatype link_op =
    LFrame int bool bool Frame
  | LTick int bool
  | LUnicast u16 u8 Datagram
  | LBroadcast Datagram
  | LIdle int bool "(int \<times> int) list" nat
  | LArm
  | LCTS int bool
  | LTimeout
  | LGap int bool
  | LStop

text \<open>
  A step of the goroutine of a transmission happens only at the stage it belongs to; a transmission
  starts only when none is under way, which is what holding \<open>txMu\<close> means. The permutations of
  \<open>rand.Shuffle\<close> are one argument for the whole run.
\<close>

fun link_step :: "(u8 list \<Rightarrow> u8 list) \<Rightarrow> link_op \<Rightarrow> Link \<Rightarrow> lt_effect list \<times> Link" where
  "link_step sh (LFrame now ok hasRouter f) l = llapInboundFrame sh now ok hasRouter f l"
| "link_step sh (LTick now ok) l = snd (acquireLoop now ok l)"
| "link_step sh (LUnicast net n d) l = ([], if transmitting (lstate l) = None then TransmitUnicast net n d l else l)"
| "link_step sh (LBroadcast d) l = ([], if transmitting (lstate l) = None then TransmitBroadcast d l else l)"
| "link_step sh (LIdle now ok reads slots) l =
    (case transmitting (lstate l) of
       Some tx \<Rightarrow>
         if txStage tx = WaitIdle then
           (case waitForIdle (localBackoff tx) slots False reads of Some deferred \<Rightarrow> lineIdle now ok deferred tx l | None \<Rightarrow> ([], l))
         else ([], l)
     | None \<Rightarrow> ([], l))"
| "link_step sh LArm l =
    (case transmitting (lstate l) of Some tx \<Rightarrow> ([], if txStage tx = ArmCTS then armCTS tx l else l) | None \<Rightarrow> ([], l))"
| "link_step sh (LCTS now ok) l =
    (case transmitting (lstate l) of
       Some tx \<Rightarrow> if txStage tx = WaitCTS \<and> ctsCh (lstate l) = Some True then sendData now ok tx l else ([], l)
     | None \<Rightarrow> ([], l))"
| "link_step sh LTimeout l =
    (case transmitting (lstate l) of Some tx \<Rightarrow> if txStage tx = WaitCTS then ctsTimeoutFired tx l else ([], l) | None \<Rightarrow> ([], l))"
| "link_step sh (LGap now ok) l =
    (case transmitting (lstate l) of Some tx \<Rightarrow> if txStage tx = WaitGap then sendData now ok tx l else ([], l) | None \<Rightarrow> ([], l))"
| "link_step sh LStop l =
    (case transmitting (lstate l) of Some tx \<Rightarrow> if txStage tx = WaitCTS then finishTransmit (Some ''stopped'') l else ([], l) | None \<Rightarrow> ([], l))"

fun link_run :: "(u8 list \<Rightarrow> u8 list) \<Rightarrow> link_op list \<Rightarrow> Link \<Rightarrow> lt_effect list \<times> Link" where
  "link_run sh [] l = ([], l)"
| "link_run sh (op # ops) l = (let (out, l) = link_step sh op l; (more, l) = link_run sh ops l in (out @ more, l))"

definition link_perform :: "(u8 list \<Rightarrow> u8 list) \<Rightarrow> link_op \<Rightarrow> Link \<Rightarrow> Link" where
  "link_perform sh op l = snd (link_step sh op l)"

section \<open>Acquiring an address\<close>

lemma link_run_append: "link_run sh (xs @ ys) l =
    (fst (link_run sh xs l) @ fst (link_run sh ys (snd (link_run sh xs l))), snd (link_run sh ys (snd (link_run sh xs l))))"
  by (induction xs arbitrary: l) (simp_all add: case_prod_beta)

text \<open>A frame that says another node has, or is asking for, an address.\<close>

definition contests :: "u8 \<Rightarrow> link_op \<Rightarrow> bool" where
  "contests n op \<longleftrightarrow> (case op of LFrame _ _ _ f \<Rightarrow> Validate f = None \<and> (frameType f = TypeENQ \<or> frameType f = TypeACK) \<and> frameDestination f = n
     | _ \<Rightarrow> False)"

definition probes :: "u8 \<Rightarrow> lt_effect list \<Rightarrow> nat" where
  "probes n out = length (filter (\<lambda>x. x = SendFrame [n, n, TypeENQ]) out)"

lemma probes_append [simp]: "probes n (xs @ ys) = probes n xs + probes n ys"
  by (simp add: probes_def)

lemma sendLinkFrame_keeps [simp]:
  "lport (snd (snd (sendLinkFrame now ok f l))) = lport l" "claimed (lstate (snd (snd (sendLinkFrame now ok f l)))) = claimed (lstate l)"
  "probeAttempts (lstate (snd (snd (sendLinkFrame now ok f l)))) = probeAttempts (lstate l)"
  "transmitting (lstate (snd (snd (sendLinkFrame now ok f l)))) = transmitting (lstate l)"
  by (simp_all add: sendLinkFrame_def noteFrameActivity_def Let_def case_prod_beta)

lemma sendLinkFrame_out: "fst (snd (sendLinkFrame now ok f l)) = (if Validate f = None then [SendFrame (Bytes f)] else [])"
  by (simp add: sendLinkFrame_def SendRawLLAPFrame_def)

lemma controlFrame_valid [simp]:
  "t \<in> {TypeENQ, TypeACK, TypeRTS, TypeCTS} \<Longrightarrow> Validate (controlFrame d s t) = None" "Bytes (controlFrame d s t) = [d, s, t]"
  by (auto simp: Validate_def controlFrame_def IsControl_def Bytes_def)

lemma noteFrameActivity_keeps [simp]:
  "claimed (noteFrameActivity now f st) = claimed st" "probeAttempts (noteFrameActivity now f st) = probeAttempts st"
  "transmitting (noteFrameActivity now f st) = transmitting st" "backoff (noteFrameActivity now f st) = backoff st"
  "expectCTSFrom (noteFrameActivity now f st) = expectCTSFrom st" "ctsCh (noteFrameActivity now f st) = ctsCh st"
  by (simp_all add: noteFrameActivity_def Let_def)

text \<open>A link that has no address yet transmits nothing but probes.\<close>

definition searching :: "Link \<Rightarrow> bool" where
  "searching l \<longleftrightarrow> \<not> claimed (lstate l) \<and> ltNode (lport l) = 0 \<and> transmitting (lstate l) = None"

lemma frame_while_searching:
  assumes "searching l"
  shows "searching (snd (llapInboundFrame sh now ok r f l))" "probes n (fst (llapInboundFrame sh now ok r f l)) = 0"
    "if contests (desiredNode (lport l)) (LFrame now ok r f) then probeAttempts (lstate (snd (llapInboundFrame sh now ok r f l))) = 0
     else probeAttempts (lstate (snd (llapInboundFrame sh now ok r f l))) = probeAttempts (lstate l) \<and>
       lport (snd (llapInboundFrame sh now ok r f l)) = lport l"
  using assms
  by (auto simp: searching_def llapInboundFrame_def Let_def handleENQ_def handleACK_def handleRTS_def handleCTS_def rerollLink_def
      isClaimed_def contests_def IsData_def rerollDesiredNode_def probes_def split: sum.split)

lemma step_while_searching:
  assumes s: "searching l" "probeAttempts (lstate l) \<le> 8"
  obtains
      (claim) "\<not> searching (link_perform sh op l)" "probeAttempts (lstate l) = 8" "claimed (lstate (link_perform sh op l))"
        "ltNode (lport (link_perform sh op l)) = desiredNode (lport l)" "probes n (fst (link_step sh op l)) = 0" "\<not> contests (desiredNode (lport l)) op"
    | (probe) "searching (link_perform sh op l)" "probeAttempts (lstate (link_perform sh op l)) = Suc (probeAttempts (lstate l))"
        "probeAttempts (lstate l) < 8" "lport (link_perform sh op l) = lport l" "probes (desiredNode (lport l)) (fst (link_step sh op l)) = 1"
        "\<not> contests (desiredNode (lport l)) op"
    | (contest) "searching (link_perform sh op l)" "probeAttempts (lstate (link_perform sh op l)) = 0"
    | (other) "searching (link_perform sh op l)" "probeAttempts (lstate (link_perform sh op l)) = probeAttempts (lstate l)"
        "lport (link_perform sh op l) = lport l" "probes (desiredNode (lport l)) (fst (link_step sh op l)) = 0" "\<not> contests (desiredNode (lport l)) op"
proof (cases op)
  case (LFrame now ok r f)
  note fr = frame_while_searching(1) [OF s(1), of sh now ok r f] frame_while_searching(2) [OF s(1)]
    frame_while_searching(3) [OF s(1), of now ok r f sh]
  show thesis
  proof (cases "contests (desiredNode (lport l)) op")
    case True
    then show thesis using contest fr LFrame by (simp add: link_perform_def)
  next
    case False
    then show thesis using other fr LFrame by (simp add: link_perform_def)
  qed
next
  case (LTick now ok)
  have st: "\<not> claimed (lstate l)" "ltNode (lport l) = 0" "transmitting (lstate l) = None" using s(1) by (simp_all add: searching_def)
  show thesis
  proof (cases "probeAttempts (lstate l) \<ge> 8")
    case True
    then show thesis
      using claim s(2) LTick st
      by (simp add: link_perform_def acquireLoop_def Let_def case_prod_beta ClaimNode_def searching_def probes_def contests_def)
  next
    case False
    then show thesis
      using probe LTick st
      by (simp add: link_perform_def acquireLoop_def Let_def searching_def probes_def contests_def sendLinkFrame_out)
  qed
next
  case (LUnicast net m d)
  then show thesis using other s(1) by (simp add: link_perform_def searching_def TransmitUnicast_def isClaimed_def probes_def contests_def)
next
  case (LBroadcast d)
  then show thesis using other s(1) by (simp add: link_perform_def searching_def TransmitBroadcast_def isClaimed_def probes_def contests_def)
qed (use other s(1) in \<open>simp_all add: link_perform_def searching_def probes_def contests_def\<close>)

lemma finishTransmit_keeps [simp]:
  "lport (snd (finishTransmit er l)) = lport l" "claimed (lstate (snd (finishTransmit er l))) = claimed (lstate l)"
  by (simp_all add: finishTransmit_def)

lemma updTx_keeps [simp]: "lport (updTx g l) = lport l" "claimed (lstate (updTx g l)) = claimed (lstate l)"
  by (simp_all add: updTx_def)

lemma startTransmission_keeps [simp]:
  "lport (startTransmission k f l) = lport l" "claimed (lstate (startTransmission k f l)) = claimed (lstate l)"
  by (simp_all add: startTransmission_def beginTransmit_def Let_def)

text \<open>An address, once claimed, is kept.\<close>

lemma claimed_stays:
  assumes "claimed (lstate l)"
  shows "claimed (lstate (link_perform sh op l)) \<and> ltNode (lport (link_perform sh op l)) = ltNode (lport l)"
  using assms
  by (cases op) (auto simp: link_perform_def llapInboundFrame_def handleENQ_def handleACK_def handleRTS_def handleCTS_def rerollLink_def
      acquireLoop_def TransmitUnicast_def TransmitBroadcast_def lineIdle_def sendData_def armCTS_def ctsTimeoutFired_def Let_def case_prod_beta
      split: option.split sum.split transmitKind.split)

text \<open>A stretch of a run in which the address \<open>n\<close> was probed \<open>k\<close> times and nobody answered.\<close>

definition quiet_probes :: "(u8 list \<Rightarrow> u8 list) \<Rightarrow> u8 \<Rightarrow> nat \<Rightarrow> link_op list \<Rightarrow> Link \<Rightarrow> bool" where
  "quiet_probes sh n k ops l \<longleftrightarrow>
    (\<forall>op \<in> set ops. \<not> contests n op) \<and> probes n (fst (link_run sh ops l)) = k"

lemma quiet_probes_snoc:
  assumes "quiet_probes sh n k ops l" "\<not> contests n op" "probes n (fst (link_step sh op (snd (link_run sh ops l)))) = j"
  shows "quiet_probes sh n (k + j) (ops @ [op]) l"
  using assms by (auto simp: quiet_probes_def link_run_append case_prod_beta)

lemma link_run_snoc [simp]: "snd (link_run sh (ops @ [op]) l) = link_perform sh op (snd (link_run sh ops l))"
  by (simp add: link_run_append link_perform_def case_prod_beta)

lemma search_history:
  assumes "searching l" "probeAttempts (lstate l) = 0"
    and after_def: "after = (\<lambda>xs. snd (link_run sh xs l))"
  shows "(searching (after ops) \<and> probeAttempts (lstate (after ops)) \<le> 8 \<and>
      (\<exists>pre suf. ops = pre @ suf \<and> quiet_probes sh (desiredNode (lport (after ops))) (probeAttempts (lstate (after ops))) suf (after pre)))
    \<or> (claimed (lstate (after ops)) \<and> (\<exists>pre suf post. ops = pre @ suf @ post \<and> quiet_probes sh (ltNode (lport (after ops))) 8 suf (after pre)))"
  (is "?S ops \<or> ?C ops")
proof (induction ops rule: rev_induct)
  case Nil
  then show ?case using assms(1,2) by (simp add: after_def quiet_probes_def probes_def)
next
  case (snoc op ops)
  have next_st: "after (ops @ [op]) = link_perform sh op (after ops)" by (simp add: after_def)
  have out: "snd (link_run sh suf (after pre)) = after ops" if "ops = pre @ suf" for pre suf
    using that by (simp add: after_def link_run_append)
  from snoc show ?case
  proof
    assume S: "?S ops"
    then obtain pre suf where h: "ops = pre @ suf"
      "quiet_probes sh (desiredNode (lport (after ops))) (probeAttempts (lstate (after ops))) suf (after pre)" by blast
    have ext: "quiet_probes sh (desiredNode (lport (after ops))) (probeAttempts (lstate (after ops)) + j) (suf @ [op]) (after pre)"
      if "\<not> contests (desiredNode (lport (after ops))) op" "probes (desiredNode (lport (after ops))) (fst (link_step sh op (after ops))) = j" for j
      using quiet_probes_snoc [OF h(2)] that out [OF h(1)] by simp
    have split: "ops @ [op] = pre @ (suf @ [op])" "ops @ [op] = pre @ (suf @ [op]) @ []" "ops @ [op] = (ops @ [op]) @ []" using h(1) by simp_all
    from S have "searching (after ops)" "probeAttempts (lstate (after ops)) \<le> 8" by simp_all
    then show ?thesis
    proof (cases rule: step_while_searching [where sh = sh and op = op and n = "desiredNode (lport (after ops))"])
      case claim
      then have "quiet_probes sh (ltNode (lport (after (ops @ [op])))) 8 (suf @ [op]) (after pre)"
        using ext [of 0] by (simp add: next_st)
      then show ?thesis using claim split(2) by (metis next_st)
    next
      case probe
      then have "quiet_probes sh (desiredNode (lport (after (ops @ [op])))) (probeAttempts (lstate (after (ops @ [op])))) (suf @ [op]) (after pre)"
        using ext [of 1] by (simp add: next_st)
      moreover have "probeAttempts (lstate (after (ops @ [op]))) \<le> 8" using probe by (simp add: next_st)
      ultimately show ?thesis using probe split(1) by (metis next_st)
    next
      case contest
      then have "quiet_probes sh (desiredNode (lport (after (ops @ [op])))) (probeAttempts (lstate (after (ops @ [op])))) [] (after (ops @ [op]))"
        by (simp add: next_st quiet_probes_def probes_def)
      moreover have "probeAttempts (lstate (after (ops @ [op]))) \<le> 8" using contest by (simp add: next_st)
      ultimately show ?thesis using contest split(3) by (metis next_st)
    next
      case other
      then have "quiet_probes sh (desiredNode (lport (after (ops @ [op])))) (probeAttempts (lstate (after (ops @ [op])))) (suf @ [op]) (after pre)"
        using ext [of 0] by (simp add: next_st)
      moreover have "probeAttempts (lstate (after (ops @ [op]))) \<le> 8"
        using other \<open>probeAttempts (lstate (after ops)) \<le> 8\<close> by (simp add: next_st)
      ultimately show ?thesis using other split(1) by (metis next_st)
    qed
  next
    assume C: "?C ops"
    then have "claimed (lstate (after (ops @ [op]))) \<and> ltNode (lport (after (ops @ [op]))) = ltNode (lport (after ops))"
      using claimed_stays by (simp add: next_st)
    then show ?thesis using C by (metis append.assoc)
  qed
qed

lemma uncontested_search:
  assumes "searching l" "probeAttempts (lstate l) + length ts \<le> 8"
  shows "searching (snd (link_run sh (map (case_prod LTick) ts) l)) \<and>
    probeAttempts (lstate (snd (link_run sh (map (case_prod LTick) ts) l))) = probeAttempts (lstate l) + length ts \<and>
    lport (snd (link_run sh (map (case_prod LTick) ts) l)) = lport l"
  using assms
proof (induction ts rule: rev_induct)
  case (snoc t ts)
  obtain now ok where t: "t = (now, ok)" by (cases t)
  from snoc show ?case by (simp add: t link_perform_def acquireLoop_def Let_def searching_def)
qed simp

text \<open>
  C28. A LocalTalk node takes an address only after a quiet search: whatever the order of frames,
  ticks and transmissions, once the service has claimed an address for a freshly registered port,
  there is a stretch of the run in which exactly eight ENQ probes for it were handed to the sender and in
  which no ENQ and no ACK for it came in. Conversely, any nine ticks in a row claim the
  desired address.
\<close>

theorem lt_node_claim:
  assumes "l = \<lparr>lport = p, lstate = newPortState now\<rparr>" "ltNode p = 0"
  shows "(claimed (lstate (snd (link_run sh ops l))) \<longrightarrow>
      (\<exists>pre suf post. ops = pre @ suf @ post \<and>
        (\<forall>op \<in> set suf. \<not> contests (ltNode (lport (snd (link_run sh ops l)))) op) \<and>
        probes (ltNode (lport (snd (link_run sh ops l)))) (fst (link_run sh suf (snd (link_run sh pre l)))) = 8)) \<and>
    (length ts = 9 \<longrightarrow> ltNode (lport (snd (link_run sh (map (case_prod LTick) ts) l))) = desiredNode p)"
proof (intro conjI impI)
  have s: "searching l" "probeAttempts (lstate l) = 0" using assms by (simp_all add: searching_def newPortState_def)
  show "\<exists>pre suf post. ops = pre @ suf @ post \<and>
        (\<forall>op \<in> set suf. \<not> contests (ltNode (lport (snd (link_run sh ops l)))) op) \<and>
        probes (ltNode (lport (snd (link_run sh ops l)))) (fst (link_run sh suf (snd (link_run sh pre l)))) = 8"
    if c: "claimed (lstate (snd (link_run sh ops l)))"
    using search_history [OF s refl, of sh ops] c unfolding searching_def quiet_probes_def by blast
  show "ltNode (lport (snd (link_run sh (map (case_prod LTick) ts) l))) = desiredNode p" if n: "length ts = 9"
  proof -
    from n obtain us now ok where ts: "ts = us @ [(now, ok)]" "length us = 8"
      by (cases ts rule: rev_cases) auto
    then show ?thesis
      using uncontested_search [OF s(1), of us sh] s assms
      by (simp add: link_perform_def acquireLoop_def Let_def searching_def ClaimNode_def)
  qed
qed

theorem lt_node_claim_witness:
  "ltNode (lport (snd (link_run rev ([LTick 0 True, LFrame 1 True False (controlFrame 7 7 TypeACK)] @ replicate 9 (LTick 2 True))
     \<lparr>lport = (newLtPort rev 5 [] True 7)\<lparr>desiredNodeList := [1]\<rparr>, lstate = newPortState 0\<rparr>))) = 1 \<and>
   (\<exists>pre suf post. [LTick 0 True, LFrame 1 True False (controlFrame 7 7 TypeACK)] @ replicate 9 (LTick 2 True) = pre @ suf @ post \<and>
     (\<forall>op \<in> set suf. \<not> contests 1 op) \<and>
     probes 1 (fst (link_run rev suf (snd (link_run rev pre \<lparr>lport = (newLtPort rev 5 [] True 7)\<lparr>desiredNodeList := [1]\<rparr>, lstate = newPortState 0\<rparr>)))) = 8)"
proof -
  have n: "ltNode ((newLtPort rev 5 [] True 7)\<lparr>desiredNodeList := [1]\<rparr>) = 0" by (simp add: newLtPort_def)
  have r: "ltNode (lport (snd (link_run rev ([LTick 0 True, LFrame 1 True False (controlFrame 7 7 TypeACK)] @ replicate 9 (LTick 2 True))
     \<lparr>lport = (newLtPort rev 5 [] True 7)\<lparr>desiredNodeList := [1]\<rparr>, lstate = newPortState 0\<rparr>))) = 1"
   "claimed (lstate (snd (link_run rev ([LTick 0 True, LFrame 1 True False (controlFrame 7 7 TypeACK)] @ replicate 9 (LTick 2 True))
     \<lparr>lport = (newLtPort rev 5 [] True 7)\<lparr>desiredNodeList := [1]\<rparr>, lstate = newPortState 0\<rparr>)))"
    by (simp_all only: newLtPort_def LtPort.update_convs, code_simp+)
  show ?thesis using lt_node_claim [OF refl n, of rev] r by (metis (no_types, lifting))
qed

section \<open>The directed handshake\<close>

definition rts_sent :: "u8 \<Rightarrow> lt_effect list \<Rightarrow> nat" where
  "rts_sent d out = length (filter (\<lambda>x. case x of SendFrame b \<Rightarrow> length b = 3 \<and> b ! 0 = d \<and> b ! 2 = TypeRTS | _ \<Rightarrow> False) out)"

definition copies :: "Frame \<Rightarrow> lt_effect list \<Rightarrow> nat" where
  "copies f out = length (filter (\<lambda>x. x = SendFrame (Bytes f)) out)"

definition reports :: "lt_effect list \<Rightarrow> string option list" where
  "reports out = List.map_filter (\<lambda>x. case x of TransmitDone e \<Rightarrow> Some e | _ \<Rightarrow> None) out"

definition clears :: "u8 \<Rightarrow> link_op \<Rightarrow> bool" where
  "clears d op \<longleftrightarrow> (case op of LFrame _ _ _ f \<Rightarrow> Validate f = None \<and> frameType f = TypeCTS \<and> frameSource f = d | _ \<Rightarrow> False)"

definition starts_transmission :: "link_op \<Rightarrow> bool" where
  "starts_transmission op \<longleftrightarrow> (case op of LUnicast _ _ _ \<Rightarrow> True | LBroadcast _ \<Rightarrow> True | _ \<Rightarrow> False)"

lemma counters_append [simp]:
  "rts_sent d (xs @ ys) = rts_sent d xs + rts_sent d ys" "copies f (xs @ ys) = copies f xs + copies f ys" "reports (xs @ ys) = reports xs @ reports ys"
  by (simp_all add: rts_sent_def copies_def reports_def map_filter_def)

lemma counters_simps [simp]:
  "rts_sent d [] = 0" "copies f [] = 0" "reports [] = []"
  "rts_sent d (TransmitDone e # xs) = rts_sent d xs" "copies f (TransmitDone e # xs) = copies f xs" "reports (TransmitDone e # xs) = e # reports xs"
  "rts_sent d (NodeIDChange n # xs) = rts_sent d xs" "copies f (NodeIDChange n # xs) = copies f xs" "reports (NodeIDChange n # xs) = reports xs"
  "rts_sent d (RouterInbound g # xs) = rts_sent d xs" "copies f (RouterInbound g # xs) = copies f xs" "reports (RouterInbound g # xs) = reports xs"
  "reports (SendFrame b # xs) = reports xs"
  "rts_sent d (SendFrame [a, s, t] # xs) = (if a = d \<and> t = TypeRTS then 1 else 0) + rts_sent d xs"
  by (simp_all add: rts_sent_def copies_def reports_def map_filter_def)

lemma copies_control [simp]:
  "IsData f \<Longrightarrow> t \<in> {TypeENQ, TypeACK, TypeRTS, TypeCTS} \<Longrightarrow> copies f (SendFrame [a, s, t] # xs) = copies f xs"
  by (auto simp: copies_def Bytes_def IsData_def)

lemma data_counters [simp]: "IsData f \<Longrightarrow> rts_sent d [SendFrame (Bytes f)] = 0" "copies f [SendFrame (Bytes f)] = 1"
  by (auto simp: rts_sent_def copies_def Bytes_def IsData_def)

text \<open>Frames that come in and ticks leave a transmission alone; only a CTS may put a token into its channel.\<close>

lemma rerollLink_keeps [simp]:
  "transmitting (lstate (rerollLink sh n l)) = transmitting (lstate l)" "expectCTSFrom (lstate (rerollLink sh n l)) = expectCTSFrom (lstate l)"
  "ctsCh (lstate (rerollLink sh n l)) = ctsCh (lstate l)"
  by (simp_all add: rerollLink_def)

lemma sendLinkFrame_keeps_cts [simp]:
  "expectCTSFrom (lstate (snd (snd (sendLinkFrame now ok f l)))) = expectCTSFrom (lstate l)"
  "ctsCh (lstate (snd (snd (sendLinkFrame now ok f l)))) = ctsCh (lstate l)"
  by (simp_all add: sendLinkFrame_def case_prod_beta)

lemma frame_bystander:
  assumes "IsData f"
  shows "transmitting (lstate (snd (llapInboundFrame sh now ok r g l))) = transmitting (lstate l)"
    "rts_sent d (fst (llapInboundFrame sh now ok r g l)) = 0" "copies f (fst (llapInboundFrame sh now ok r g l)) = 0"
    "reports (fst (llapInboundFrame sh now ok r g l)) = []"
    "expectCTSFrom (lstate (snd (llapInboundFrame sh now ok r g l))) = expectCTSFrom (lstate l)"
  using assms
  by (simp_all add: llapInboundFrame_def handleENQ_def handleACK_def handleRTS_def handleCTS_def sendLinkFrame_out Let_def split: sum.split)

lemma tick_bystander:
  assumes "IsData f"
  shows "transmitting (lstate (snd (snd (acquireLoop now ok l)))) = transmitting (lstate l)"
    "rts_sent d (fst (snd (acquireLoop now ok l))) = 0" "copies f (fst (snd (acquireLoop now ok l))) = 0"
    "reports (fst (snd (acquireLoop now ok l))) = []"
    "expectCTSFrom (lstate (snd (snd (acquireLoop now ok l)))) = expectCTSFrom (lstate l)"
    "ctsCh (lstate (snd (snd (acquireLoop now ok l)))) = ctsCh (lstate l)"
  using assms
  by (simp_all add: acquireLoop_def ClaimNode_def sendLinkFrame_out Let_def)

lemma frame_token:
  "ctsCh (lstate (snd (llapInboundFrame sh now ok r g l))) = ctsCh (lstate l) \<or>
     clears (expectCTSFrom (lstate l)) (LFrame now ok r g) \<and> ctsCh (lstate l) \<noteq> None \<and> ctsCh (lstate (snd (llapInboundFrame sh now ok r g l))) = Some True"
  by (simp add: llapInboundFrame_def handleENQ_def handleACK_def handleRTS_def handleCTS_def clears_def Let_def split: sum.split)

text \<open>The last RTS of a run was answered by a CTS.\<close>

definition answered :: "(u8 list \<Rightarrow> u8 list) \<Rightarrow> u8 \<Rightarrow> link_op list \<Rightarrow> Link \<Rightarrow> bool" where
  "answered sh d ops l \<longleftrightarrow>
    (\<exists>pre c post. ops = pre @ c # post \<and> clears d c \<and> rts_sent d (fst (link_run sh pre l)) = rts_sent d (fst (link_run sh ops l)))"

definition directed_inv :: "Frame \<Rightarrow> bool \<Rightarrow> lt_effect list \<Rightarrow> Link \<Rightarrow> bool" where
  "directed_inv f ans out l \<longleftrightarrow>
    (case transmitting (lstate l) of
       Some tx \<Rightarrow>
         txKind tx = Directed \<and> txFrame tx = f \<and> 1 \<le> txAttempt tx \<and> txAttempt tx \<le> 32 \<and> txStage tx \<noteq> WaitGap \<and>
         reports out = [] \<and> copies f out = 0 \<and>
         rts_sent (frameDestination f) out = (if txStage tx = WaitIdle then txAttempt tx - 1 else txAttempt tx) \<and>
         (txStage tx = WaitCTS \<longrightarrow> expectCTSFrom (lstate l) = frameDestination f) \<and>
         (txStage tx = WaitCTS \<and> ctsCh (lstate l) = Some True \<longrightarrow> ans)
     | None \<Rightarrow>
         length (reports out) = 1 \<and> rts_sent (frameDestination f) out \<le> 32 \<and> copies f out \<le> 1 \<and>
         (copies f out = 1 \<longrightarrow> ans \<and> 1 \<le> rts_sent (frameDestination f) out) \<and> (reports out = [None] \<longrightarrow> copies f out = 1))"

lemma link_run_out_snoc [simp]:
  "fst (link_run sh (ops @ [op]) l) = fst (link_run sh ops l) @ fst (link_step sh op (snd (link_run sh ops l)))"
  by (simp add: link_run_append case_prod_beta)

lemma answered_snoc:
  assumes "rts_sent d (fst (link_step sh op (snd (link_run sh ops l)))) = 0" "answered sh d ops l \<or> clears d op"
  shows "answered sh d (ops @ [op]) l"
  using assms(2)
proof
  assume "answered sh d ops l"
  then obtain pre c post where h: "ops = pre @ c # post" "clears d c" "rts_sent d (fst (link_run sh pre l)) = rts_sent d (fst (link_run sh ops l))"
    by (auto simp: answered_def)
  have "ops @ [op] = pre @ c # (post @ [op])" using h(1) by simp
  moreover have "rts_sent d (fst (link_run sh pre l)) = rts_sent d (fst (link_run sh (ops @ [op]) l))" using h(3) assms(1) by simp
  ultimately show ?thesis unfolding answered_def using h(2) by blast
next
  assume "clears d op"
  moreover have "rts_sent d (fst (link_run sh ops l)) = rts_sent d (fst (link_run sh (ops @ [op]) l))" using assms(1) by simp
  ultimately show ?thesis unfolding answered_def by blast
qed

lemma finishTransmit_none [simp]:
  "transmitting (lstate (snd (finishTransmit er l))) = None" "fst (finishTransmit er l) = [TransmitDone er]"
  by (simp_all add: finishTransmit_def)

lemma sendLinkFrame_ok: "fst (sendLinkFrame now ok f l) \<longleftrightarrow> ok \<and> Validate f = None"
  by (simp add: sendLinkFrame_def SendRawLLAPFrame_def)

lemma directed_step_frame:
  assumes "directed_inv f ans out l" "IsData f" "ans \<or> clears (frameDestination f) (LFrame now ok r g) \<Longrightarrow> ans'"
  shows "directed_inv f ans' (out @ fst (link_step sh (LFrame now ok r g) l)) (link_perform sh (LFrame now ok r g) l)"
  using assms frame_token [of sh now ok r g l]
  by (auto simp: directed_inv_def link_perform_def frame_bystander split: option.splits)

lemma directed_step_tick:
  assumes "directed_inv f ans out l" "IsData f" "ans \<Longrightarrow> ans'"
  shows "directed_inv f ans' (out @ fst (link_step sh (LTick now ok) l)) (link_perform sh (LTick now ok) l)"
  using assms by (auto simp: directed_inv_def link_perform_def tick_bystander split: option.splits)

lemma directed_step_idle:
  assumes "directed_inv f ans out l" "IsData f" "transmitting (lstate l) = Some tx" "txStage tx = WaitIdle"
  shows "directed_inv f ans' (out @ fst (lineIdle now ok df tx l)) (snd (lineIdle now ok df tx l))"
  using assms
  by (auto simp: directed_inv_def lineIdle_def Let_def case_prod_beta sendLinkFrame_out sendLinkFrame_ok updTx_def)

lemma directed_step_cts:
  assumes "directed_inv f ans out l" "IsData f" "transmitting (lstate l) = Some tx" "txStage tx = WaitCTS" "ctsCh (lstate l) = Some True" "ans \<Longrightarrow> ans'"
  shows "directed_inv f ans' (out @ fst (sendData now ok tx l)) (snd (sendData now ok tx l))"
  using assms
  by (auto simp: directed_inv_def sendData_def Let_def case_prod_beta sendLinkFrame_out sendLinkFrame_ok)

lemma directed_step_timeout:
  assumes "directed_inv f ans out l" "transmitting (lstate l) = Some tx" "txStage tx = WaitCTS"
  shows "directed_inv f ans' (out @ fst (ctsTimeoutFired tx l)) (snd (ctsTimeoutFired tx l))"
  using assms
  by (auto simp: directed_inv_def ctsTimeoutFired_def Let_def updTx_def)

lemma timeout_no_rts [simp]: "rts_sent d (fst (ctsTimeoutFired tx l)) = 0"
  by (simp add: ctsTimeoutFired_def Let_def)

lemma directed_step_other:
  assumes "directed_inv f ans out l" "IsData f" "op = LIdle now ok rd sl \<or> op = LArm \<or> op = LCTS now ok \<or> op = LTimeout \<or> op = LGap now ok \<or> op = LStop"
    "rts_sent (frameDestination f) (fst (link_step sh op l)) = 0 \<Longrightarrow> ans \<Longrightarrow> ans'"
  shows "directed_inv f ans' (out @ fst (link_step sh op l)) (link_perform sh op l)"
proof (cases "transmitting (lstate l)")
  case None
  then show ?thesis using assms by (auto simp: directed_inv_def link_perform_def)
next
  case (Some tx)
  note upd = directed_step_idle [OF assms(1,2) Some] directed_step_cts [OF assms(1,2) Some] directed_step_timeout [OF assms(1) Some]
  have same: "directed_inv f ans' out l" if "ans \<Longrightarrow> ans'" using assms(1) that by (auto simp: directed_inv_def Some)
  from assms(3) consider "\<exists>now ok rd sl. op = LIdle now ok rd sl" | "op = LArm" | "\<exists>now ok. op = LCTS now ok" | "op = LTimeout" | "\<exists>now ok. op = LGap now ok" | "op = LStop"
    by blast
  then show ?thesis
  proof cases
    case 1
    then show ?thesis using upd(1) same assms(4) by (auto simp: link_perform_def Some split: option.split)
  next
    case 2
    then show ?thesis using assms(1,4) by (auto simp: link_perform_def directed_inv_def Some armCTS_def updTx_def)
  next
    case 3
    have "rts_sent (frameDestination f) (fst (sendData now ok tx l)) = 0" if "txStage tx = WaitCTS" for now ok
      using assms(1,2) by (simp add: directed_inv_def Some sendData_def Let_def case_prod_beta sendLinkFrame_out)
    with 3 show ?thesis using upd(2) same assms(4) by (auto simp: link_perform_def Some)
  next
    case 4
    then show ?thesis using upd(3) same assms(4) by (auto simp: link_perform_def Some)
  next
    case 5
    have "txStage tx \<noteq> WaitGap" using assms(1) by (simp add: directed_inv_def Some)
    with 5 show ?thesis using same assms(4) by (auto simp: link_perform_def Some)
  next
    case 6
    then show ?thesis using assms(1,4) by (auto simp: link_perform_def directed_inv_def Some)
  qed
qed

lemma directed_inv_run:
  assumes l: "l = startTransmission Directed f l0" and f: "IsData f" and ops: "\<forall>op \<in> set ops. \<not> starts_transmission op"
  shows "directed_inv f (answered sh (frameDestination f) ops l) (fst (link_run sh ops l)) (snd (link_run sh ops l))"
  using ops
proof (induction ops rule: rev_induct)
  case Nil
  then show ?case by (simp add: l directed_inv_def startTransmission_def case_prod_beta)
next
  case (snoc op ops)
  let ?d = "frameDestination f" and ?l = "snd (link_run sh ops l)"
  from snoc have IH: "directed_inv f (answered sh ?d ops l) (fst (link_run sh ops l)) ?l" by simp
  have keep: "answered sh ?d (ops @ [op]) l" if "rts_sent ?d (fst (link_step sh op ?l)) = 0" "answered sh ?d ops l \<or> clears ?d op"
    using answered_snoc that by blast
  have other: ?case if "op = LIdle now ok rd sl \<or> op = LArm \<or> op = LCTS now ok \<or> op = LTimeout \<or> op = LGap now ok \<or> op = LStop" for now ok rd sl
    using directed_step_other [OF IH f that, of sh "answered sh ?d (ops @ [op]) l"] keep by simp
  show ?case
  proof (cases op)
    case (LFrame now ok r g)
    then show ?thesis
      using directed_step_frame [OF IH f, of now ok r g "answered sh ?d (ops @ [op]) l" sh] keep f by (simp add: frame_bystander)
  next
    case (LTick now ok)
    then show ?thesis
      using directed_step_tick [OF IH f, of "answered sh ?d (ops @ [op]) l" sh now ok] keep f by (simp add: tick_bystander)
  qed (use other snoc.prems in \<open>auto simp: starts_transmission_def\<close>)
qed

text \<open>One attempt that nobody answers: the line is found idle, RTS goes out, the time for CTS runs out.\<close>

definition silent_attempt :: "int \<times> int \<Rightarrow> link_op list" where
  "silent_attempt r = [LIdle (fst r) True [(fst r, snd r)] 0, LArm, LTimeout]"

lemma silent_attempt_step:
  assumes "transmitting (lstate l) = Some tx" "txKind tx = Directed" "txStage tx = WaitIdle" "fst r - snd r \<ge> approxIDG"
  shows "reports (fst (link_run sh (silent_attempt r) l)) = (if txAttempt tx < 32 then [] else [Some ''retry limit exceeded''])"
    "rts_sent (frameDestination (txFrame tx)) (fst (link_run sh (silent_attempt r) l)) = 1"
    "txAttempt tx < 32 \<Longrightarrow> \<exists>tx'. transmitting (lstate (snd (link_run sh (silent_attempt r) l))) = Some tx' \<and> txKind tx' = Directed \<and>
       txStage tx' = WaitIdle \<and> txFrame tx' = txFrame tx \<and> txAttempt tx' = txAttempt tx + 1"
  by (use assms in \<open>cases r; simp add: silent_attempt_def lineIdle_def Let_def case_prod_beta sendLinkFrame_out sendLinkFrame_ok updTx_def armCTS_def ctsTimeoutFired_def\<close>)+

lemma silence_gives_up:
  assumes "transmitting (lstate l) = Some tx" "txKind tx = Directed" "txStage tx = WaitIdle" "txAttempt tx + length rs = 33" "rs \<noteq> []"
    "\<forall>r \<in> set rs. fst r - snd r \<ge> approxIDG"
  shows "reports (fst (link_run sh (concat (map silent_attempt rs)) l)) = [Some ''retry limit exceeded''] \<and>
    rts_sent (frameDestination (txFrame tx)) (fst (link_run sh (concat (map silent_attempt rs)) l)) = length rs"
  using assms
proof (induction rs arbitrary: l tx)
  case (Cons r rs)
  note step = silent_attempt_step [OF Cons.prems(1-3), of r sh]
  show ?case
  proof (cases rs)
    case Nil
    then show ?thesis using step Cons.prems by simp
  next
    case (Cons r' rs')
    with Cons.prems(4) have k: "txAttempt tx < 32" by simp
    then obtain tx' where tx': "transmitting (lstate (snd (link_run sh (silent_attempt r) l))) = Some tx'" "txKind tx' = Directed"
      "txStage tx' = WaitIdle" "txFrame tx' = txFrame tx" "txAttempt tx' = txAttempt tx + 1"
      using step(3) Cons.prems(6) by (meson list.set_intros(1))
    then show ?thesis
      using Cons.IH [OF tx'(1-3)] Cons.prems step k Cons by (simp add: link_run_append del: link_run.simps)
  qed
qed simp

text \<open>
  C29. The directed handshake: whatever frames, ticks and waits interleave with the transmission of
  a data frame, the frame itself goes out at most once, and only after an RTS to the destination
  that a CTS from that destination followed with no further RTS in between; at most 32 RTS are
  sent, the caller gets at most one result, and success is reported only for a frame that went
  out. When every attempt finds the line idle and no CTS comes, the caller gets the error of the
  retry limit after exactly 32 RTS.
\<close>

theorem lt_directed_handshake:
  assumes "l = startTransmission Directed f l0" "IsData f" "\<forall>op \<in> set ops. \<not> starts_transmission op"
  shows "rts_sent (frameDestination f) (fst (link_run sh ops l)) \<le> 32 \<and>
    copies f (fst (link_run sh ops l)) \<le> 1 \<and> length (reports (fst (link_run sh ops l))) \<le> 1 \<and>
    (copies f (fst (link_run sh ops l)) = 1 \<longrightarrow>
      (\<exists>pre c post. ops = pre @ c # post \<and> clears (frameDestination f) c \<and> 1 \<le> rts_sent (frameDestination f) (fst (link_run sh pre l)) \<and>
        rts_sent (frameDestination f) (fst (link_run sh pre l)) = rts_sent (frameDestination f) (fst (link_run sh ops l)))) \<and>
    (reports (fst (link_run sh ops l)) = [None] \<longrightarrow> copies f (fst (link_run sh ops l)) = 1) \<and>
    (length rs = 32 \<and> (\<forall>r \<in> set rs. fst r - snd r \<ge> 4000000) \<longrightarrow>
      reports (fst (link_run sh (concat (map silent_attempt rs)) l)) = [Some ''retry limit exceeded''] \<and>
      rts_sent (frameDestination f) (fst (link_run sh (concat (map silent_attempt rs)) l)) = 32)"
proof -
  define ans out where "ans = answered sh (frameDestination f) ops l" and "out = fst (link_run sh ops l)"
  have inv: "directed_inv f ans out (snd (link_run sh ops l))"
    using directed_inv_run [OF assms] by (simp add: ans_def out_def)
  then have safe: "rts_sent (frameDestination f) out \<le> 32 \<and> copies f out \<le> 1 \<and> length (reports out) \<le> 1 \<and>
      (copies f out = 1 \<longrightarrow> ans \<and> 1 \<le> rts_sent (frameDestination f) out) \<and> (reports out = [None] \<longrightarrow> copies f out = 1)"
    by (auto simp: directed_inv_def split: option.splits if_splits)
  have "reports (fst (link_run sh (concat (map silent_attempt rs)) l)) = [Some ''retry limit exceeded''] \<and>
      rts_sent (frameDestination f) (fst (link_run sh (concat (map silent_attempt rs)) l)) = 32"
    if rs: "length rs = 32" "\<forall>r \<in> set rs. fst r - snd r \<ge> 4000000"
  proof -
    obtain tx where tx: "transmitting (lstate l) = Some tx" "txKind tx = Directed" "txStage tx = WaitIdle" "txAttempt tx = 1" "txFrame tx = f"
      using assms(1) by (simp add: startTransmission_def case_prod_beta)
    moreover have "rs \<noteq> []" using rs(1) by auto
    ultimately show ?thesis using silence_gives_up [OF tx(1-3), of rs sh] rs by simp
  qed
  with safe show ?thesis unfolding ans_def answered_def out_def by metis
qed

theorem lt_directed_handshake_witness:
  "(let f = \<lparr>frameDestination = 9, frameSource = 1, frameType = TypeAppleTalkShortHeader, framePayload = [0, 5, 1, 2, 3]\<rparr>;
        l = startTransmission Directed f \<lparr>lport = (newLtPort rev 5 [] True 1)\<lparr>ltNode := 1, desiredNodeList := []\<rparr>, lstate = newPortState 0\<rparr>;
        out = fst (link_run rev [LIdle 5000000 True [(1, 0), (5000000, 0)] 0, LArm, LFrame 5500000 True True (controlFrame 1 9 TypeCTS),
          LTick 5600000 True, LCTS 5700000 True] l) in
     copies f out = 1 \<and> reports out = [None] \<and> rts_sent 9 out \<le> 32)"
proof -
  define f where "f = \<lparr>frameDestination = 9, frameSource = 1, frameType = TypeAppleTalkShortHeader, framePayload = [0, 5, 1, 2, 3]\<rparr>"
  define l0 where "l0 = \<lparr>lport = (newLtPort rev 5 [] True 1)\<lparr>ltNode := 1, desiredNodeList := []\<rparr>, lstate = newPortState 0\<rparr>"
  define ops where "ops = [LIdle 5000000 True [(1, 0), (5000000, 0)] 0, LArm, LFrame 5500000 True True (controlFrame 1 9 TypeCTS),
          LTick 5600000 True, LCTS 5700000 True]"
  have f: "IsData f" "frameDestination f = 9" by (simp_all add: f_def IsData_def)
  have ops: "\<forall>op \<in> set ops. \<not> starts_transmission op" by (simp add: ops_def starts_transmission_def)
  have "reports (fst (link_run rev ops (startTransmission Directed f l0))) = [None]"
    unfolding ops_def f_def l0_def newLtPort_def LtPort.update_convs by code_simp
  then show ?thesis
    using lt_directed_handshake [OF refl f(1) ops, of rev l0 "[]"] f(2) unfolding Let_def
    by (simp add: f_def [symmetric] l0_def [symmetric] ops_def [symmetric])
qed

text \<open>
  The wait for CTS is armed after RTS went out: a CTS that is quicker than that leaves no token, so
  the attempt can only time out.
\<close>

lemma early_cts_lost:
  assumes "transmitting (lstate l) = Some tx" "txStage tx = ArmCTS" "expectCTSFrom (lstate l) = 0"
    "Validate g = None" "frameType g = TypeCTS"
  shows "ctsCh (lstate (snd (link_run sh [LFrame now ok r g, LArm] l))) = Some False"
  using assms
  by (simp add: case_prod_beta llapInboundFrame_def IsData_def handleCTS_def armCTS_def updTx_def Let_def)

end
