(* ===== verification/Tashtalk.thy ===== *)
theory Tashtalk
  imports Localtalk
begin

text \<open>
  The transports under the LocalTalk port: the TashTalk serial adapter of
  \<^verbatim>\<open>port/localtalk/tashtalk.go\<close>, LocalTalk over UDP of \<^verbatim>\<open>port/localtalk/ltoudp.go\<close> and the
  in-memory network of \<^verbatim>\<open>port/localtalk/virtual.go\<close>. Bytes written to the serial line and to the
  socket are results of the functions; opening the line and joining the multicast group are left out.
\<close>

unbundle bit_operations_syntax

section \<open>The frame check sequence\<close>

definition crcShift :: "u16 \<Rightarrow> u16" where
  "crcShift crc = (if crc AND 1 \<noteq> 0 then drop_bit 1 crc XOR 0x8408 else drop_bit 1 crc)"

definition crcByte :: "u16 \<Rightarrow> u8 \<Rightarrow> u16" where
  "crcByte crc b = (crcShift ^^ 8) (crc XOR ucast b)"

definition fcsBytes :: "bytes \<Rightarrow> u8 \<times> u8" where
  "fcsBytes frame = (let crc = NOT (foldl crcByte 0xFFFF frame) in (ucast (crc AND 0xFF), ucast (drop_bit 8 crc)))"

definition appendFCS :: "bytes \<Rightarrow> bytes" where
  "appendFCS frame = (let (b1, b2) = fcsBytes frame in frame @ [b1, b2])"

definition fcsMatches :: "bytes \<Rightarrow> u8 \<Rightarrow> u8 \<Rightarrow> bool" where
  "fcsMatches frame b1 b2 = (let (e1, e2) = fcsBytes frame in b1 = e1 \<and> b2 = e2)"

section \<open>TashTalk\<close>

definition newTashTalkPort :: "(u8 list \<Rightarrow> u8 list) \<Rightarrow> u16 \<Rightarrow> bytes \<Rightarrow> LtPort" where
  "newTashTalkPort shuffle net zone =
    (newLtPort shuffle net zone False 0xFE)\<lparr>supportsRTSCTS := True, rtsctsManaged := True, ctsTimeout := 25000000, nodeHook := True\<rparr>"

definition parseInboundTashTalkFrame :: "bytes \<Rightarrow> bytes option" where
  "parseInboundTashTalkFrame frame =
    (if length frame < 5 then None
     else let data = take (length frame - 2) frame in
       if \<not> fcsMatches data (frame ! (length frame - 2)) (frame ! (length frame - 1)) then None else Some data)"

record TashRx =
  rxFrame :: bytes
  rxEscaped :: bool

text \<open>One byte of \<open>readRun\<close>: the frame handed to \<open>InboundFrame\<close>, if any.\<close>

definition readByte :: "u8 \<Rightarrow> TashRx \<Rightarrow> bytes list \<times> TashRx" where
  "readByte b rx =
    (if \<not> rxEscaped rx \<and> b = 0x00 then ([], rx\<lparr>rxEscaped := True\<rparr>)
     else if rxEscaped rx then
       let rx = rx\<lparr>rxEscaped := False\<rparr> in
       if b = 0xFF then ([], rx\<lparr>rxFrame := rxFrame rx @ [0x00]\<rparr>)
       else
         (if b = 0xFD \<and> length (rxFrame rx) \<ge> 5
          then case parseInboundTashTalkFrame (rxFrame rx) of Some llap \<Rightarrow> [llap] | None \<Rightarrow> []
          else [], rx\<lparr>rxFrame := []\<rparr>)
     else ([], rx\<lparr>rxFrame := rxFrame rx @ [b]\<rparr>))"

fun readBytes :: "bytes \<Rightarrow> TashRx \<Rightarrow> bytes list \<times> TashRx" where
  "readBytes [] rx = ([], rx)"
| "readBytes (b # bs) rx = (let (o1, rx) = readByte b rx; (o2, rx) = readBytes bs rx in (o1 @ o2, rx))"

text \<open>\<open>readRun\<close> on what the reads of the line return; a failed read and an empty one are skipped.\<close>

fun readRun :: "bytes option list \<Rightarrow> TashRx \<Rightarrow> bytes list \<times> TashRx" where
  "readRun [] rx = ([], rx)"
| "readRun (None # rs) rx = readRun rs rx"
| "readRun (Some chunk # rs) rx = (let (o1, rx) = readBytes chunk rx; (o2, rx) = readRun rs rx in (o1 @ o2, rx))"

definition tashSendFrame :: "bytes \<Rightarrow> bytes" where
  "tashSendFrame frame = 0x01 # appendFCS frame"

definition buildInitSequence :: bytes where
  "buildInitSequence = replicate 1024 0 @ [0x02] @ replicate 32 0 @ [0x03, 0x00]"

definition buildSetNodeAddressCmd :: "u8 \<Rightarrow> string + bytes" where
  "buildSetNodeAddressCmd n =
    (if n = 0 then Inr (0x02 # replicate 32 0)
     else if n < 1 \<or> n > 254 then Inl ''node address not between 1 and 254''
     else let idx = n div 8; b = n mod 8 in Inr ((0x02 # replicate 32 0)[unat idx + 1 := push_bit (unat b) 1]))"

text \<open>\<open>setNodeID\<close>, given whether the line is open: what is written to it.\<close>

definition setNodeID :: "bool \<Rightarrow> u8 \<Rightarrow> bytes list" where
  "setNodeID isOpen n =
    (if \<not> isOpen then [] else case buildSetNodeAddressCmd n of Inl _ \<Rightarrow> [] | Inr cmd \<Rightarrow> [cmd])"

section \<open>LocalTalk over UDP\<close>

definition newLtoudpPort :: "(u8 list \<Rightarrow> u8 list) \<Rightarrow> u16 \<Rightarrow> bytes \<Rightarrow> LtPort" where
  "newLtoudpPort shuffle net zone = newLtPort shuffle net zone True 0xFE"

definition ltoudpSendFrame :: "bytes \<Rightarrow> bytes \<Rightarrow> bytes" where
  "ltoudpSendFrame senderID frame = senderID @ frame"

definition ltoudpRun :: "bytes \<Rightarrow> bytes \<Rightarrow> bytes option" where
  "ltoudpRun senderID buf =
    (if length buf < 7 then None
     else if take 4 buf = senderID then None
     else Some (drop 4 buf))"

section \<open>The in-memory network\<close>

text \<open>
  \<open>Unplug\<close> and \<open>SendFrame\<close> compare the address of their loop variable with the address of their
  parameter; two variables never have the same address.
\<close>

abbreviation (input) same_variable :: bool where "same_variable \<equiv> False"

definition Plug :: "'h \<Rightarrow> 'h list \<Rightarrow> 'h list" where
  "Plug f plugged = plugged @ [f]"

primrec Unplug :: "'h \<Rightarrow> 'h list \<Rightarrow> 'h list" where
  "Unplug f [] = []"
| "Unplug f (x # xs) = (if same_variable then xs else x # Unplug f xs)"

definition vnSendFrame :: "bytes \<Rightarrow> 'h \<Rightarrow> 'h list \<Rightarrow> ('h \<times> bytes) list" where
  "vnSendFrame frame sender plugged = map (\<lambda>f. (f, frame)) (filter (\<lambda>f. \<not> same_variable) plugged)"

lemma Unplug_keeps_handler: "Unplug f ns = ns"
  by (induction ns) simp_all

lemma vnSendFrame_echoes: "f \<in> set ns \<Longrightarrow> (f, frame) \<in> set (vnSendFrame frame f ns)"
  by (auto simp: vnSendFrame_def)

section \<open>Integrity of the serial link\<close>

lemma xor_cancel: "(a :: 'a::len word) XOR c = b XOR c \<longleftrightarrow> a = b" "c XOR a = c XOR b \<longleftrightarrow> a = b"
  by (metis xor.assoc xor_self_eq xor.right_neutral) (metis xor.assoc xor_self_eq xor.left_neutral)

lemma crcShift_top: "bit (crcShift s) 15 \<longleftrightarrow> bit s 0"
  using bit_imp_le_length [of s 16]
  by (auto simp: crcShift_def bit_simps and_one_eq odd_iff_mod_2_eq_one bit_0)

lemma crcShift_inj: "crcShift s = crcShift t \<Longrightarrow> s = t"
proof (rule bit_word_eqI)
  fix n assume eq: "crcShift s = crcShift t" and n: "n < LENGTH(16)"
  have low: "bit s 0 = bit t 0" using crcShift_top [of s] crcShift_top [of t] eq by simp
  then have "s AND 1 = t AND 1" by (simp add: and_one_eq odd_iff_mod_2_eq_one [symmetric] bit_0 mod_2_eq_odd)
  then have "drop_bit 1 s = drop_bit 1 t"
    using eq by (simp add: crcShift_def xor_cancel split: if_splits)
  then have "bit (drop_bit 1 s) (n - 1) = bit (drop_bit 1 t) (n - 1)" by simp
  then show "bit s n = bit t n" using low by (cases n) (simp_all add: bit_drop_bit_eq)
qed

lemma crcByte_inj [simp]: "crcByte s b = crcByte t b \<longleftrightarrow> s = t" "crcByte s b = crcByte s c \<longleftrightarrow> b = c"
proof -
  have "inj (crcShift ^^ 8)" by (rule inj_fn) (simp add: inj_def crcShift_inj)
  then have e: "(crcShift ^^ 8) x = (crcShift ^^ 8) y \<longleftrightarrow> x = y" for x y by (simp add: inj_eq)
  have "lo8 (ucast x) = x" for x :: u8 by (rule bit_word_eqI) (simp add: lo8_def bit_simps)
  then have "(ucast b :: u16) = ucast c \<longleftrightarrow> b = c" by metis
  then show "crcByte s b = crcByte t b \<longleftrightarrow> s = t" "crcByte s b = crcByte s c \<longleftrightarrow> b = c"
    by (simp_all only: crcByte_def e xor_cancel)
qed

lemma foldl_crc_inj [simp]: "foldl crcByte s xs = foldl crcByte t xs \<longleftrightarrow> s = t"
  by (induction xs arbitrary: s t) simp_all

lemma fcsBytes_inj: "fcsBytes xs = fcsBytes ys \<longleftrightarrow> foldl crcByte 0xFFFF xs = foldl crcByte 0xFFFF ys"
proof -
  have pair: "fcsBytes zs = (lo8 (NOT (foldl crcByte 0xFFFF zs)), hi8 (NOT (foldl crcByte 0xFFFF zs)))" for zs
  proof -
    have m: "(0xFF :: u16) = mask 8" by (simp add: mask_eq_exp_minus_1)
    have "ucast (w AND 0xFF) = (ucast w :: u8)" for w :: u16
      unfolding m by (rule bit_word_eqI) (simp only: bit_simps, simp)
    then show ?thesis by (simp add: fcsBytes_def Let_def lo8_def hi8_def)
  qed
  show ?thesis unfolding pair by (metis be16_hi8_lo8 bit.double_compl prod.inject)
qed

text \<open>Changing one byte of a frame changes its check sequence.\<close>

lemma fcs_detects_byte:
  assumes "i < length frame" "b \<noteq> frame ! i"
  shows "fcsBytes (frame[i := b]) \<noteq> fcsBytes frame"
proof -
  obtain xs ys where f: "frame = xs @ frame ! i # ys" "length xs = i" "frame[i := b] = xs @ b # ys"
    using assms(1) id_take_nth_drop [OF assms(1)] upd_conv_take_nth_drop [OF assms(1), of b]
    by (metis length_take min.absorb4)
  have "foldl crcByte 0xFFFF (xs @ b # ys) = foldl crcByte 0xFFFF (xs @ frame ! i # ys) \<longleftrightarrow> b = frame ! i" by simp
  then show ?thesis unfolding fcsBytes_inj f(3) by (metis assms(2) f(1))
qed


text \<open>The framing that the adapter uses on the line: a zero byte is sent as 00 FF, and 00 FD ends a frame.\<close>

definition stuff :: "bytes \<Rightarrow> bytes" where
  "stuff bs = concat (map (\<lambda>b. if b = 0x00 then [0x00, 0xFF] else [b]) bs)"

lemma readBytes_append: "readBytes (xs @ ys) rx =
    (fst (readBytes xs rx) @ fst (readBytes ys (snd (readBytes xs rx))), snd (readBytes ys (snd (readBytes xs rx))))"
  by (induction xs arbitrary: rx) (simp_all add: case_prod_beta Let_def)

lemma readRun_chunks: "readRun rs rx = readBytes (concat (List.map_filter (\<lambda>r. r) rs)) rx"
proof (induction rs arbitrary: rx)
  case (Cons r rs)
  then show ?case by (cases r) (simp_all add: readBytes_append case_prod_beta Let_def map_filter_def)
qed (simp add: map_filter_def)

lemma readBytes_stuff: "readBytes (stuff bs) \<lparr>rxFrame = acc, rxEscaped = False\<rparr> = ([], \<lparr>rxFrame = acc @ bs, rxEscaped = False\<rparr>)"
  by (induction bs arbitrary: acc) (simp_all add: stuff_def readByte_def readBytes_append Let_def)

lemma readBytes_frame:
  "readBytes (stuff bs @ [0x00, 0xFD]) \<lparr>rxFrame = [], rxEscaped = False\<rparr> =
    (case parseInboundTashTalkFrame bs of Some llap \<Rightarrow> [llap] | None \<Rightarrow> [], \<lparr>rxFrame = [], rxEscaped = False\<rparr>)"
  by (simp add: readBytes_append readBytes_stuff readByte_def parseInboundTashTalkFrame_def Let_def)

lemma parse_appendFCS:
  "parseInboundTashTalkFrame (data @ [b1, b2]) = (if length data \<ge> 3 \<and> (b1, b2) = fcsBytes data then Some data else None)"
  by (auto simp: parseInboundTashTalkFrame_def fcsMatches_def nth_append Let_def case_prod_beta prod_eq_iff)

text \<open>A frame with one byte of it or of its check sequence changed.\<close>

lemma corrupt_rejected:
  assumes "i < length (appendFCS frame)" "b \<noteq> appendFCS frame ! i"
  shows "parseInboundTashTalkFrame ((appendFCS frame)[i := b]) = None"
proof -
  obtain b1 b2 where fcs: "fcsBytes frame = (b1, b2)" by (cases "fcsBytes frame")
  then have a: "appendFCS frame = frame @ [b1, b2]" by (simp add: appendFCS_def)
  consider "i < length frame" | "i = length frame" | "i = length frame + 1" using assms(1) a by fastforce
  then show ?thesis
  proof cases
    case 1
    then have "fcsBytes (frame[i := b]) \<noteq> (b1, b2)"
      using fcs_detects_byte [of i frame b] assms(2) by (simp add: a fcs nth_append)
    then have "(b1, b2) \<noteq> fcsBytes (frame[i := b])" by metis
    then show ?thesis using 1 by (simp add: a list_update_append parse_appendFCS)
  qed (use assms(2) in \<open>simp_all add: a nth_append list_update_append parse_appendFCS fcs\<close>)
qed

text \<open>
  C30. The TashTalk serial link delivers frames whole or not at all: however the line cuts the
  bytes into reads, with failed reads in between, a frame of at least three bytes that arrives with
  the check sequence \<open>sendFrame\<close> gives it is delivered exactly once and unchanged, and the receiver
  is ready for the next one; when any single byte of frame or check sequence is changed on the
  way, nothing is delivered and the receiver is ready as well.
\<close>

theorem tash_link_integrity:
  assumes "length frame \<ge> 3" "concat (List.map_filter (\<lambda>r. r) rs) = stuff wire @ [0x00, 0xFD]"
  shows "(wire = tl (tashSendFrame frame) \<longrightarrow>
      readRun rs \<lparr>rxFrame = [], rxEscaped = False\<rparr> = ([frame], \<lparr>rxFrame = [], rxEscaped = False\<rparr>)) \<and>
    (i < length (tl (tashSendFrame frame)) \<and> b \<noteq> tl (tashSendFrame frame) ! i \<and> wire = (tl (tashSendFrame frame))[i := b] \<longrightarrow>
      readRun rs \<lparr>rxFrame = [], rxEscaped = False\<rparr> = ([], \<lparr>rxFrame = [], rxEscaped = False\<rparr>))"
proof (intro conjI impI)
  have run: "readRun rs \<lparr>rxFrame = [], rxEscaped = False\<rparr> =
      (case parseInboundTashTalkFrame wire of Some llap \<Rightarrow> [llap] | None \<Rightarrow> [], \<lparr>rxFrame = [], rxEscaped = False\<rparr>)"
    by (simp add: readRun_chunks assms(2) readBytes_frame)
  show "readRun rs \<lparr>rxFrame = [], rxEscaped = False\<rparr> = ([frame], \<lparr>rxFrame = [], rxEscaped = False\<rparr>)" if "wire = tl (tashSendFrame frame)"
    using that assms(1) run by (simp add: tashSendFrame_def appendFCS_def case_prod_beta parse_appendFCS)
  show "readRun rs \<lparr>rxFrame = [], rxEscaped = False\<rparr> = ([], \<lparr>rxFrame = [], rxEscaped = False\<rparr>)"
    if "i < length (tl (tashSendFrame frame)) \<and> b \<noteq> tl (tashSendFrame frame) ! i \<and> wire = (tl (tashSendFrame frame))[i := b]"
    using that run corrupt_rejected [of i frame b] by (simp add: tashSendFrame_def)
qed

theorem tash_link_integrity_witness:
  "readRun [Some (take 4 (stuff (tl (tashSendFrame [9, 1, 0x84])))), None, Some (drop 4 (stuff (tl (tashSendFrame [9, 1, 0x84])))), Some [0, 0xFD]]
     \<lparr>rxFrame = [], rxEscaped = False\<rparr> = ([[9, 1, 0x84]], \<lparr>rxFrame = [], rxEscaped = False\<rparr>)"
  using tash_link_integrity [of "[9, 1, 0x84]" "[Some (take 4 (stuff (tl (tashSendFrame [9, 1, 0x84])))), None,
      Some (drop 4 (stuff (tl (tashSendFrame [9, 1, 0x84])))), Some [0, 0xFD]]" "tl (tashSendFrame [9, 1, 0x84])"]
  by (simp add: map_filter_def append.assoc [symmetric] del: append.assoc append_assoc)

text \<open>Every node address that can be claimed has its own bit in the adapter's address mask.\<close>

lemma setNodeAddress_cmd:
  assumes "buildSetNodeAddressCmd n = Inr cmd" "n \<noteq> 0"
  shows "length cmd = 33 \<and> cmd ! 0 = 2 \<and> (\<forall>m < 256. bit (cmd ! (m div 8 + 1)) (m mod 8) \<longleftrightarrow> m = unat n)"
proof -
  define k where "k = unat n"
  have k: "k < 256" "unat (n div 8) = k div 8" "unat (n mod 8) = k mod 8"
    using unsigned_less [of n] by (simp_all add: k_def unat_div unat_mod)
  have cmd: "cmd = (2 # replicate 32 0)[k div 8 + 1 := push_bit (k mod 8) 1]"
    using assms by (auto simp: buildSetNodeAddressCmd_def Let_def k split: if_splits)
  have "bit (cmd ! (m div 8 + 1)) (m mod 8) \<longleftrightarrow> m = k" if "m < 256" for m
  proof (cases "m div 8 = k div 8")
    case True
    then have "cmd ! (m div 8 + 1) = push_bit (k mod 8) 1" using k(1) by (simp add: cmd)
    moreover have "m = k \<longleftrightarrow> m mod 8 = k mod 8" using True by (metis div_mult_mod_eq)
    ultimately show ?thesis by (auto simp: bit_simps bit_1_iff)
  next
    case False
    then have "cmd ! (m div 8 + 1) = 0" using that by (simp add: cmd nth_Cons' nth_list_update)
    with False show ?thesis by auto
  qed
  then show ?thesis by (simp add: cmd k_def)
qed

text \<open>LocalTalk over UDP: the frame of another sender arrives as it was sent, our own is dropped.\<close>

lemma ltoudp_roundtrip:
  assumes "length sid = 4" "length frame \<ge> 3"
  shows "ltoudpRun me (ltoudpSendFrame sid frame) = (if sid = me then None else Some frame)"
  using assms by (simp add: ltoudpRun_def ltoudpSendFrame_def)

end
