(* ===== verification/Ipx.thy ===== *)
theory Ipx
  imports Go_Prelude
begin

text \<open>
  IPX: the datagram of \<^verbatim>\<open>protocol/ipx/datagram.go\<close>, the socket and node router of
  \<^verbatim>\<open>router/ipx/router.go\<close>, the Ethernet port of \<^verbatim>\<open>port/ipx/port.go\<close> and the RIP and SAP
  services of \<^verbatim>\<open>service/ipx\<close>.

  The fixed-size byte arrays of the addresses are byte lists; \<open>ipx_ok\<close> says that they have the
  size of the array. A datagram handed to a port is a result. Capture and metering are left out, the
  clock is an argument, and a broadcast loop is its body, once per tick.
\<close>

unbundle bit_operations_syntax

section \<open>The datagram\<close>

record IpxDatagram =
  ixChecksum :: bytes
  ixLength :: u16
  ixHops :: u8
  ixType :: u8
  DstNet :: bytes
  DstNode :: bytes
  DstSock :: bytes
  SrcNet :: bytes
  SrcNode :: bytes
  SrcSock :: bytes
  ixPayload :: bytes

datatype ipx_error = PayloadTooLarge | PacketTooShort | InvalidLength | PacketTruncated

definition EncodeIPX :: "IpxDatagram \<Rightarrow> ipx_error + bytes" where
  "EncodeIPX d =
    (let totalLen = 30 + length (ixPayload d) in
     if totalLen > 65535 then Inl PayloadTooLarge
     else Inr ((if ixChecksum d = [0, 0] then [0xFF, 0xFF] else ixChecksum d) @
       put16 (word_of_nat totalLen) @ [ixHops d, ixType d] @ DstNet d @ DstNode d @ DstSock d @
       SrcNet d @ SrcNode d @ SrcSock d @ ixPayload d))"

definition DecodeIPX :: "bytes \<Rightarrow> ipx_error + IpxDatagram" where
  "DecodeIPX b =
    (if length b < 30 then Inl PacketTooShort
     else let totalLen = int16 (b ! 2) (b ! 3) in
       if totalLen < 30 then Inl InvalidLength
       else if length b < totalLen then Inl PacketTruncated
       else Inr \<lparr>ixChecksum = take 2 b, ixLength = word_of_nat totalLen, ixHops = b ! 4, ixType = b ! 5,
         DstNet = take 4 (drop 6 b), DstNode = take 6 (drop 10 b), DstSock = take 2 (drop 16 b),
         SrcNet = take 4 (drop 18 b), SrcNode = take 6 (drop 22 b), SrcSock = take 2 (drop 28 b),
         ixPayload = take (totalLen - 30) (drop 30 b)\<rparr>)"

section \<open>The router\<close>

record ('h, 'p) IpxRouter =
  rtNetwork :: bytes
  rtNode :: bytes
  sockets :: "(bytes, 'h) gomap"
  nodes :: "(bytes, 'h) gomap"
  broadcastHandler :: "'h option"
  ixPorts :: "'p list"

abbreviation (input) BroadcastNode6 :: bytes where "BroadcastNode6 \<equiv> [0xFF, 0xFF, 0xFF, 0xFF, 0xFF, 0xFF]"

definition isZero4 :: "bytes \<Rightarrow> bool" where "isZero4 b \<longleftrightarrow> b = [0, 0, 0, 0]"

definition isZero6 :: "bytes \<Rightarrow> bool" where "isZero6 b \<longleftrightarrow> b = [0, 0, 0, 0, 0, 0]"

definition NewIpxRouter :: "('h, 'p) IpxRouter" where
  "NewIpxRouter = \<lparr>rtNetwork = [0, 0, 0, 0], rtNode = [0, 0, 0, 0, 0, 0], sockets = [], nodes = [], broadcastHandler = None, ixPorts = []\<rparr>"

definition SetIdentity :: "bytes \<Rightarrow> bytes \<Rightarrow> ('h, 'p) IpxRouter \<Rightarrow> ('h, 'p) IpxRouter" where
  "SetIdentity network n r = r\<lparr>rtNetwork := network, rtNode := n\<rparr>"

definition RegisterSocket :: "bytes \<Rightarrow> 'h \<Rightarrow> ('h, 'p) IpxRouter \<Rightarrow> string + ('h, 'p) IpxRouter" where
  "RegisterSocket s h r =
    (if map_of (sockets r) s \<noteq> None then Inl ''ipx: socket already registered''
     else Inr (r\<lparr>sockets := AList.update s h (sockets r)\<rparr>))"

definition UnregisterSocket :: "bytes \<Rightarrow> ('h, 'p) IpxRouter \<Rightarrow> ('h, 'p) IpxRouter" where
  "UnregisterSocket s r = (if map_of (sockets r) s = None then r else r\<lparr>sockets := AList.delete s (sockets r)\<rparr>)"

definition RegisterNode :: "bytes \<Rightarrow> 'h \<Rightarrow> ('h, 'p) IpxRouter \<Rightarrow> string + ('h, 'p) IpxRouter" where
  "RegisterNode n h r =
    (if map_of (nodes r) n \<noteq> None then Inl ''ipx: node already registered''
     else Inr (r\<lparr>nodes := AList.update n h (nodes r)\<rparr>))"

definition UnregisterNode :: "bytes \<Rightarrow> ('h, 'p) IpxRouter \<Rightarrow> ('h, 'p) IpxRouter" where
  "UnregisterNode n r = r\<lparr>nodes := AList.delete n (nodes r)\<rparr>"

definition RegisterBroadcast :: "'h \<Rightarrow> ('h, 'p) IpxRouter \<Rightarrow> string + ('h, 'p) IpxRouter" where
  "RegisterBroadcast h r =
    (if broadcastHandler r \<noteq> None then Inl ''ipx: broadcast handler already registered''
     else Inr (r\<lparr>broadcastHandler := Some h\<rparr>))"

definition UnregisterBroadcast :: "('h, 'p) IpxRouter \<Rightarrow> ('h, 'p) IpxRouter" where
  "UnregisterBroadcast r = r\<lparr>broadcastHandler := None\<rparr>"

definition AddIpxPort :: "'p \<Rightarrow> ('h, 'p) IpxRouter \<Rightarrow> ('h, 'p) IpxRouter" where
  "AddIpxPort p r = r\<lparr>ixPorts := ixPorts r @ [p]\<rparr>"

text \<open>\<open>Send\<close> up to the call of the port: the port and the datagram it is given.\<close>

definition SendIPX :: "IpxDatagram \<Rightarrow> ('h, 'p) IpxRouter \<Rightarrow> string + ('p \<times> IpxDatagram)" where
  "SendIPX d r =
    (case ixPorts r of
       [] \<Rightarrow> Inl ''ipx: no ports attached''
     | p # _ \<Rightarrow>
         let d = (if isZero4 (SrcNet d) then d\<lparr>SrcNet := rtNetwork r\<rparr> else d);
             d = (if isZero6 (SrcNode d) then d\<lparr>SrcNode := rtNode r\<rparr> else d) in
         Inr (p, d))"

definition acceptsDest :: "bytes \<Rightarrow> bytes \<Rightarrow> ('h, 'p) IpxRouter \<Rightarrow> bool" where
  "acceptsDest network n r \<longleftrightarrow>
    (if \<not> isZero4 network \<and> network \<noteq> rtNetwork r then False
     else if n = BroadcastNode6 then True
     else n = rtNode r \<or> map_of (nodes r) n \<noteq> None)"

text \<open>The calls \<open>Inbound\<close> makes: of a node or broadcast handler, or of a socket handler.\<close>

datatype 'h ipx_call = HandleNodeDatagram 'h IpxDatagram | HandleDatagram 'h IpxDatagram

definition InboundIPX :: "IpxDatagram \<Rightarrow> ('h, 'p) IpxRouter \<Rightarrow> 'h ipx_call list" where
  "InboundIPX d r =
    (if \<not> acceptsDest (DstNet d) (DstNode d) r then []
     else case map_of (nodes r) (DstNode d) of
       Some h \<Rightarrow> [HandleNodeDatagram h d]
     | None \<Rightarrow>
         (case map_of (sockets r) (DstSock d) of Some h \<Rightarrow> [HandleDatagram h d] | None \<Rightarrow> []) @
         (if DstNode d = BroadcastNode6
          then case broadcastHandler r of Some h \<Rightarrow> [HandleNodeDatagram h d] | None \<Rightarrow> []
          else []))"

section \<open>The port\<close>

datatype Framing = FramingEthernetII | FramingRaw8023 | FramingLLC | FramingSNAP | FramingOther u8

record IpxPort =
  framing :: Framing
  hasCallback :: bool
  linkOpen :: bool
  recentFrames :: "(64 word, int) gomap"
  running :: bool

definition newIpxPort :: "Framing \<Rightarrow> IpxPort" where
  "newIpxPort f = \<lparr>framing = f, hasCallback = False, linkOpen = False, recentFrames = [], running = False\<rparr>"

text \<open>\<open>Start\<close>, given whether the link factory succeeds, and \<open>Stop\<close>.\<close>

definition ipxStart :: "bool \<Rightarrow> IpxPort \<Rightarrow> string + IpxPort" where
  "ipxStart opens p =
    (if running p then Inr p else if \<not> opens then Inl ''open failed'' else Inr (p\<lparr>linkOpen := True, running := True\<rparr>))"

definition ipxStop :: "IpxPort \<Rightarrow> IpxPort" where
  "ipxStop p = (if \<not> running p then p else p\<lparr>linkOpen := False, running := False\<rparr>)"

abbreviation (input) inboundFrameDedupWindow :: int where "inboundFrameDedupWindow \<equiv> 25000000"
abbreviation (input) inboundFrameDedupTTL :: int where "inboundFrameDedupTTL \<equiv> 100000000"

text \<open>\<open>hash/fnv\<close>, 64 bits, variant 1a.\<close>

definition frameHash :: "bytes \<Rightarrow> 64 word" where
  "frameHash frame = foldl (\<lambda>h b. (h XOR ucast b) * 1099511628211) 14695981039346656037 frame"

definition isDuplicateFrame :: "int \<Rightarrow> bytes \<Rightarrow> IpxPort \<Rightarrow> bool \<times> IpxPort" where
  "isDuplicateFrame now frame p =
    (let key = frameHash frame in
     case map_of (recentFrames p) key of
       Some seenAt \<Rightarrow>
         if now - seenAt \<le> inboundFrameDedupWindow then (True, p)
         else (False, p\<lparr>recentFrames := filter (\<lambda>(k, ts). \<not> now - ts > inboundFrameDedupTTL) (AList.update key now (recentFrames p))\<rparr>)
     | None \<Rightarrow> (False, p\<lparr>recentFrames := filter (\<lambda>(k, ts). \<not> now - ts > inboundFrameDedupTTL) (AList.update key now (recentFrames p))\<rparr>))"

definition markFrameSeen :: "int \<Rightarrow> bytes \<Rightarrow> IpxPort \<Rightarrow> IpxPort" where
  "markFrameSeen now frame p = p\<lparr>recentFrames := AList.update (frameHash frame) now (recentFrames p)\<rparr>"

text \<open>What \<open>Send\<close> writes to the link.\<close>

definition sendEthernetII :: "int \<Rightarrow> IpxDatagram \<Rightarrow> bytes \<Rightarrow> IpxPort \<Rightarrow> (string + bytes) \<times> IpxPort" where
  "sendEthernetII now d payload p =
    (let frame = DstNode d @ SrcNode d @ [0x81, 0x37] @ payload in
     if \<not> linkOpen p then (Inl ''link closed'', p)
     else (Inr frame, markFrameSeen now frame p))"

definition ipxPortSend :: "int \<Rightarrow> IpxDatagram \<Rightarrow> IpxPort \<Rightarrow> (string + bytes) \<times> IpxPort" where
  "ipxPortSend now d p =
    (case EncodeIPX d of
       Inl _ \<Rightarrow> (Inl ''ipx: payload too large'', p)
     | Inr payload \<Rightarrow>
         (case framing p of
            FramingEthernetII \<Rightarrow> sendEthernetII now d payload p
          | FramingOther _ \<Rightarrow> (Inl ''ipx: unknown framing'', p)
          | _ \<Rightarrow> (Inl ''ipx: not implemented'', p)))"

definition deliverIPX :: "bytes \<Rightarrow> IpxPort \<Rightarrow> IpxDatagram option" where
  "deliverIPX payload p =
    (if \<not> hasCallback p then None else case DecodeIPX payload of Inl _ \<Rightarrow> None | Inr d \<Rightarrow> Some d)"

definition handleFrame :: "bytes \<Rightarrow> IpxPort \<Rightarrow> IpxDatagram option" where
  "handleFrame frame p =
    (if length frame < 14 then None
     else let etherType = be16 (frame ! 12) (frame ! 13) in
       if etherType = 0x8137 then deliverIPX (drop 14 frame) p
       else if etherType \<le> 0x05DC then
         if length frame < 14 + 3 then None
         else let body = drop 14 frame in
           if body ! 0 = 0xFF \<and> body ! 1 = 0xFF then deliverIPX body p
           else if body ! 0 = 0xE0 \<and> body ! 1 = 0xE0 \<and> body ! 2 = 0x03 then deliverIPX (drop 3 body) p
           else None
       else None)"

text \<open>One frame read by \<open>readLoop\<close>.\<close>

definition ipxReadFrame :: "int \<Rightarrow> bytes \<Rightarrow> IpxPort \<Rightarrow> IpxDatagram option \<times> IpxPort" where
  "ipxReadFrame now frame p =
    (let (dup, p) = isDuplicateFrame now frame p in
     if dup then (None, p) else (handleFrame frame p, p))"

section \<open>RIP\<close>

record RIPEntry =
  ripNetwork :: bytes
  ripHops :: u16
  ripTicks :: u16

record RIPPacket =
  ripOperation :: u16
  ripEntries :: "RIPEntry list"

abbreviation (input) RIPRequest :: u16 where "RIPRequest \<equiv> 1"
abbreviation (input) RIPResponse :: u16 where "RIPResponse \<equiv> 2"
abbreviation (input) RIPNetworkAny :: bytes where "RIPNetworkAny \<equiv> [0xFF, 0xFF, 0xFF, 0xFF]"
abbreviation (input) RIPSocket :: bytes where "RIPSocket \<equiv> [0x04, 0x53]"

definition ripEntryBytes :: "RIPEntry \<Rightarrow> bytes" where
  "ripEntryBytes e = ripNetwork e @ put16 (ripHops e) @ put16 (ripTicks e)"

definition EncodeRIP :: "RIPPacket \<Rightarrow> bytes" where
  "EncodeRIP p = put16 (ripOperation p) @ concat (map ripEntryBytes (ripEntries p))"

function decodeRIPEntries :: "bytes \<Rightarrow> RIPEntry list" where
  "decodeRIPEntries b =
    (if length b < 8 then []
     else \<lparr>ripNetwork = take 4 b, ripHops = be16 (b ! 4) (b ! 5), ripTicks = be16 (b ! 6) (b ! 7)\<rparr> # decodeRIPEntries (drop 8 b))"
  by pat_completeness auto
termination by (relation "measure length") auto

declare decodeRIPEntries.simps [simp del]

definition DecodeRIP :: "bytes \<Rightarrow> RIPPacket option" where
  "DecodeRIP b =
    (if length b < 2 then None
     else Some \<lparr>ripOperation = be16 (b ! 0) (b ! 1), ripEntries = decodeRIPEntries (drop 2 b)\<rparr>)"

definition ourRoute :: "('h, 'p) IpxRouter \<Rightarrow> RIPPacket" where
  "ourRoute r = \<lparr>ripOperation = RIPResponse, ripEntries = [\<lparr>ripNetwork = rtNetwork r, ripHops = 1, ripTicks = 1\<rparr>]\<rparr>"

definition respondToRequest :: "RIPPacket \<Rightarrow> ('h, 'p) IpxRouter \<Rightarrow> RIPPacket option" where
  "respondToRequest req r =
    (let wildcard = ripEntries req = [] \<or> (\<exists>e \<in> set (ripEntries req). ripNetwork e = RIPNetworkAny);
         matchesOurs = (\<exists>e \<in> set (ripEntries req). ripNetwork e = rtNetwork r) in
     if \<not> wildcard \<and> \<not> matchesOurs then None else Some (ourRoute r))"

definition serviceDatagram :: "u8 \<Rightarrow> bytes \<Rightarrow> bytes \<Rightarrow> bytes \<Rightarrow> bytes \<Rightarrow> bytes \<Rightarrow> IpxDatagram" where
  "serviceDatagram type dnet dnode dsock ssock body =
    \<lparr>ixChecksum = [0, 0], ixLength = 0, ixHops = 0, ixType = type, DstNet = dnet, DstNode = dnode, DstSock = dsock,
     SrcNet = [0, 0, 0, 0], SrcNode = [0, 0, 0, 0, 0, 0], SrcSock = ssock, ixPayload = body\<rparr>"

definition ripSendResponse :: "IpxDatagram \<Rightarrow> RIPPacket \<Rightarrow> ('h, 'p) IpxRouter \<Rightarrow> string + ('p \<times> IpxDatagram)" where
  "ripSendResponse req resp r =
    SendIPX (serviceDatagram 1 (SrcNet req) (SrcNode req) RIPSocket RIPSocket (EncodeRIP resp)) r"

text \<open>The datagrams a handler gives to ports.\<close>

definition sent_by :: "string + ('p \<times> IpxDatagram) \<Rightarrow> ('p \<times> IpxDatagram) list" where
  "sent_by res = (case res of Inl _ \<Rightarrow> [] | Inr pd \<Rightarrow> [pd])"

definition ripHandleDatagram :: "IpxDatagram \<Rightarrow> ('h, 'p) IpxRouter \<Rightarrow> ('p \<times> IpxDatagram) list" where
  "ripHandleDatagram d r =
    (case DecodeRIP (ixPayload d) of
       None \<Rightarrow> []
     | Some pkt \<Rightarrow>
         if ripOperation pkt \<noteq> RIPRequest then []
         else case respondToRequest pkt r of None \<Rightarrow> [] | Some resp \<Rightarrow> sent_by (ripSendResponse d resp r))"

definition ripBroadcast :: "('h, 'p) IpxRouter \<Rightarrow> ('p \<times> IpxDatagram) list" where
  "ripBroadcast r =
    sent_by (SendIPX (serviceDatagram 1 (rtNetwork r) BroadcastNode6 RIPSocket RIPSocket (EncodeRIP (ourRoute r))) r)"

definition ripStart :: "'h \<Rightarrow> ('h, 'p) IpxRouter \<Rightarrow> string + ('h, 'p) IpxRouter" where
  "ripStart h r = RegisterSocket RIPSocket h r"

definition ripStop :: "('h, 'p) IpxRouter \<Rightarrow> ('h, 'p) IpxRouter" where
  "ripStop r = UnregisterSocket RIPSocket r"

section \<open>SAP\<close>

record SAPEntry =
  ServiceType :: u16
  sapName :: bytes
  sapNetwork :: bytes
  sapNode :: bytes
  sapSocket :: bytes
  sapHops :: u16

record SAPPacket =
  sapOperation :: u16
  QueryServiceType :: u16
  sapEntries :: "SAPEntry list"

abbreviation (input) SAPGeneralQuery :: u16 where "SAPGeneralQuery \<equiv> 1"
abbreviation (input) SAPGeneralResponse :: u16 where "SAPGeneralResponse \<equiv> 2"
abbreviation (input) SAPNearestQuery :: u16 where "SAPNearestQuery \<equiv> 3"
abbreviation (input) SAPNearestResponse :: u16 where "SAPNearestResponse \<equiv> 4"
abbreviation (input) SAPServiceTypeWildcard :: u16 where "SAPServiceTypeWildcard \<equiv> 0xFFFF"
abbreviation (input) SAPNameLength :: nat where "SAPNameLength \<equiv> 48"
abbreviation (input) SAPEntrySize :: nat where "SAPEntrySize \<equiv> 64"
abbreviation (input) SAPMaxEntriesPerPacket :: nat where "SAPMaxEntriesPerPacket \<equiv> 7"
abbreviation (input) SAPSocket :: bytes where "SAPSocket \<equiv> [0x04, 0x52]"

definition sapEntryBytes :: "SAPEntry \<Rightarrow> bytes" where
  "sapEntryBytes e =
    (let name = (if length (sapName e) > SAPNameLength - 1 then take (SAPNameLength - 1) (sapName e) else sapName e) in
     put16 (ServiceType e) @ (name @ replicate (SAPNameLength - length name) 0) @
     sapNetwork e @ sapNode e @ sapSocket e @ put16 (sapHops e))"

datatype sap_error = TooManyEntries | UnknownSAPOperation | ErrShortSAP

definition EncodeSAP :: "SAPPacket \<Rightarrow> sap_error + bytes" where
  "EncodeSAP p =
    (if sapOperation p = SAPGeneralQuery \<or> sapOperation p = SAPNearestQuery then
       Inr (put16 (sapOperation p) @ put16 (QueryServiceType p))
     else if sapOperation p = SAPGeneralResponse \<or> sapOperation p = SAPNearestResponse then
       if length (sapEntries p) > SAPMaxEntriesPerPacket then Inl TooManyEntries
       else Inr (put16 (sapOperation p) @ concat (map sapEntryBytes (sapEntries p)))
     else Inl UnknownSAPOperation)"

function decodeSAPEntries :: "bytes \<Rightarrow> SAPEntry list" where
  "decodeSAPEntries b =
    (if length b < SAPEntrySize then []
     else \<lparr>ServiceType = be16 (b ! 0) (b ! 1), sapName = takeWhile (\<lambda>c. c \<noteq> 0) (take SAPNameLength (drop 2 b)),
       sapNetwork = take 4 (drop 50 b), sapNode = take 6 (drop 54 b), sapSocket = take 2 (drop 60 b),
       sapHops = be16 (b ! 62) (b ! 63)\<rparr> # decodeSAPEntries (drop SAPEntrySize b))"
  by pat_completeness auto
termination by (relation "measure length") auto

declare decodeSAPEntries.simps [simp del]

definition DecodeSAP :: "bytes \<Rightarrow> sap_error + SAPPacket" where
  "DecodeSAP b =
    (if length b < 2 then Inl ErrShortSAP
     else let op = be16 (b ! 0) (b ! 1) in
       if op = SAPGeneralQuery \<or> op = SAPNearestQuery then
         if length b < 4 then Inl ErrShortSAP
         else Inr \<lparr>sapOperation = op, QueryServiceType = be16 (b ! 2) (b ! 3), sapEntries = []\<rparr>
       else if op = SAPGeneralResponse \<or> op = SAPNearestResponse then
         Inr \<lparr>sapOperation = op, QueryServiceType = 0, sapEntries = decodeSAPEntries (drop 2 b)\<rparr>
       else Inl UnknownSAPOperation)"

text \<open>The registry: \<open>Register\<close> gives the identity with which its entry is withdrawn.\<close>

definition entryID :: "SAPEntry \<Rightarrow> u16 \<times> bytes \<times> bytes" where
  "entryID e = (ServiceType e, sapName e, sapSocket e)"

definition RegisterSAP :: "SAPEntry \<Rightarrow> ('h, 'p) IpxRouter \<Rightarrow> SAPEntry list \<Rightarrow> (u16 \<times> bytes \<times> bytes) \<times> SAPEntry list" where
  "RegisterSAP e r es =
    (let e = (if isZero4 (sapNetwork e) then e\<lparr>sapNetwork := rtNetwork r\<rparr> else e);
         e = (if isZero6 (sapNode e) then e\<lparr>sapNode := rtNode r\<rparr> else e);
         e = (if sapHops e = 0 then e\<lparr>sapHops := 1\<rparr> else e) in
     (entryID e, es @ [e]))"

primrec unregisterSAP :: "u16 \<times> bytes \<times> bytes \<Rightarrow> SAPEntry list \<Rightarrow> SAPEntry list" where
  "unregisterSAP i [] = []"
| "unregisterSAP i (e # es) = (if entryID e = i then es else e # unregisterSAP i es)"

definition matchingSAP :: "u16 \<Rightarrow> SAPEntry list \<Rightarrow> SAPEntry list" where
  "matchingSAP t es = filter (\<lambda>e. t = SAPServiceTypeWildcard \<or> ServiceType e = t) es"

definition handleSAPQuery :: "IpxDatagram \<Rightarrow> SAPPacket \<Rightarrow> SAPEntry list \<Rightarrow> ('h, 'p) IpxRouter \<Rightarrow> ('p \<times> IpxDatagram) list" where
  "handleSAPQuery req q es r =
    (let matches = matchingSAP (QueryServiceType q) es in
     if matches = [] then []
     else let nearest = sapOperation q = SAPNearestQuery;
              op = (if nearest then SAPNearestResponse else SAPGeneralResponse);
              matches = (if nearest then take 1 matches else matches) in
       case EncodeSAP \<lparr>sapOperation = op, QueryServiceType = 0, sapEntries = matches\<rparr> of
         Inl _ \<Rightarrow> []
       | Inr body \<Rightarrow> sent_by (SendIPX (serviceDatagram 4 (SrcNet req) (SrcNode req) (SrcSock req) SAPSocket body) r))"

definition sapHandleDatagram :: "IpxDatagram \<Rightarrow> SAPEntry list \<Rightarrow> ('h, 'p) IpxRouter \<Rightarrow> ('p \<times> IpxDatagram) list" where
  "sapHandleDatagram d es r =
    (case DecodeSAP (ixPayload d) of
       Inl _ \<Rightarrow> []
     | Inr pkt \<Rightarrow>
         if sapOperation pkt = SAPGeneralQuery \<or> sapOperation pkt = SAPNearestQuery then handleSAPQuery d pkt es r else [])"

function sapBroadcastFrom :: "SAPEntry list \<Rightarrow> ('h, 'p) IpxRouter \<Rightarrow> ('p \<times> IpxDatagram) list" where
  "sapBroadcastFrom es r =
    (if es = [] then []
     else case EncodeSAP \<lparr>sapOperation = SAPGeneralResponse, QueryServiceType = 0, sapEntries = take SAPMaxEntriesPerPacket es\<rparr> of
       Inl _ \<Rightarrow> []
     | Inr body \<Rightarrow>
         sent_by (SendIPX (serviceDatagram 4 (rtNetwork r) BroadcastNode6 SAPSocket SAPSocket body) r) @
         sapBroadcastFrom (drop SAPMaxEntriesPerPacket es) r)"
  by pat_completeness auto
termination by (relation "measure (length \<circ> fst)") auto

declare sapBroadcastFrom.simps [simp del]

definition sapBroadcast :: "SAPEntry list \<Rightarrow> ('h, 'p) IpxRouter \<Rightarrow> ('p \<times> IpxDatagram) list" where
  "sapBroadcast es r = (if es = [] then [] else sapBroadcastFrom es r)"

definition sapStart :: "'h \<Rightarrow> ('h, 'p) IpxRouter \<Rightarrow> string + ('h, 'p) IpxRouter" where
  "sapStart h r = RegisterSocket SAPSocket h r"

definition sapStop :: "('h, 'p) IpxRouter \<Rightarrow> ('h, 'p) IpxRouter" where
  "sapStop r = UnregisterSocket SAPSocket r"

section \<open>The wire formats\<close>

definition addresses_ok :: "IpxDatagram \<Rightarrow> bool" where
  "addresses_ok d \<longleftrightarrow> length (ixChecksum d) = 2 \<and> length (DstNet d) = 4 \<and> length (DstNode d) = 6 \<and> length (DstSock d) = 2 \<and>
    length (SrcNet d) = 4 \<and> length (SrcNode d) = 6 \<and> length (SrcSock d) = 2"

text \<open>What goes over the wire: the length is filled in, and an absent checksum is all ones.\<close>

definition on_wire :: "IpxDatagram \<Rightarrow> IpxDatagram" where
  "on_wire d = d\<lparr>ixChecksum := (if ixChecksum d = [0, 0] then [0xFF, 0xFF] else ixChecksum d),
     ixLength := word_of_nat (30 + length (ixPayload d))\<rparr>"

lemma list_of_length:
  "length xs = 2 \<longleftrightarrow> (\<exists>a b. xs = [a, b])" "length xs = 4 \<longleftrightarrow> (\<exists>a b c d. xs = [a, b, c, d])"
  "length xs = 6 \<longleftrightarrow> (\<exists>a b c d e f. xs = [a, b, c, d, e, f])"
  by (auto simp: length_Suc_conv eval_nat_numeral)

lemma int16_of_nat: "n < 65536 \<Longrightarrow> int16 (hi8 (word_of_nat n)) (lo8 (word_of_nat n)) = n"
  by (simp add: int16_eq hi8_def lo8_def unat_div unat_mod unat_of_nat drop_bit_eq_div take_bit_eq_mod unsigned_ucast_eq unsigned_drop_bit_eq)

lemma DecodeIPX_image:
  assumes "length c = 2" "length dn = 4" "length dd = 6" "length ds = 2" "length sn = 4" "length sd = 6" "length ss = 2"
    "length pl = n - 30" "30 \<le> n" "n < 65536"
  shows "DecodeIPX (c @ put16 (word_of_nat n) @ [h, t] @ dn @ dd @ ds @ sn @ sd @ ss @ pl) =
    Inr \<lparr>ixChecksum = c, ixLength = word_of_nat n, ixHops = h, ixType = t, DstNet = dn, DstNode = dd, DstSock = ds,
      SrcNet = sn, SrcNode = sd, SrcSock = ss, ixPayload = pl\<rparr>"
  using assms by (auto simp: list_of_length DecodeIPX_def Let_def put16_def int16_of_nat)

lemma ipx_decode_encode:
  assumes "addresses_ok d" "length (ixPayload d) \<le> 65505"
  shows "\<exists>b. EncodeIPX d = Inr b \<and> DecodeIPX b = Inr (on_wire d) \<and> length b = 30 + length (ixPayload d)"
proof -
  define n where "n = 30 + length (ixPayload d)"
  have n: "length (ixPayload d) = n - 30" "30 \<le> n" "n < 65536" using assms(2) by (simp_all add: n_def)
  define c where "c = (if ixChecksum d = [0, 0] then [0xFF, 0xFF] else ixChecksum d)"
  have "length c = 2" using assms(1) by (simp add: c_def addresses_ok_def)
  then show ?thesis
    using assms n DecodeIPX_image [of c "DstNet d" "DstNode d" "DstSock d" "SrcNet d" "SrcNode d" "SrcSock d" "ixPayload d" n "ixHops d" "ixType d"]
    by (simp add: EncodeIPX_def on_wire_def addresses_ok_def n_def [symmetric] c_def [symmetric])
qed

definition ipx_ok :: "IpxDatagram \<Rightarrow> bool" where
  "ipx_ok d \<longleftrightarrow> addresses_ok d \<and> length (ixPayload d) \<le> 65505 \<and> on_wire d = d"

interpretation ipx_wire: wire_codec ipx_ok EncodeIPX DecodeIPX 65535
proof
  fix d b
  assume ok: "ipx_ok d"
  then obtain b' where b': "EncodeIPX d = Inr b'" "DecodeIPX b' = Inr d" "length b' = 30 + length (ixPayload d)"
    using ipx_decode_encode [of d] by (auto simp: ipx_ok_def)
  then show "\<exists>b. EncodeIPX d = Inr b" by blast
  assume "EncodeIPX d = Inr b"
  with b' ok show "DecodeIPX b = Inr d" "length b \<le> 65535" by (auto simp: ipx_ok_def)
qed

lemma decodeRIP_entry: "length (ripNetwork e) = 4 \<Longrightarrow> decodeRIPEntries (ripEntryBytes e @ rest) = e # decodeRIPEntries rest"
  by (subst decodeRIPEntries.simps) (auto simp: ripEntryBytes_def list_of_length put16_def)

lemma decodeRIP_entries: "\<forall>e \<in> set es. length (ripNetwork e) = 4 \<Longrightarrow> length pad < 8 \<Longrightarrow>
    decodeRIPEntries (concat (map ripEntryBytes es) @ pad) = es"
  by (induction es) (simp_all add: decodeRIP_entry, simp add: decodeRIPEntries.simps)

lemma rip_roundtrip:
  assumes "\<forall>e \<in> set (ripEntries p). length (ripNetwork e) = 4" "length pad < 8"
  shows "DecodeRIP (EncodeRIP p @ pad) = Some p"
  using decodeRIP_entries [OF assms] by (simp add: DecodeRIP_def EncodeRIP_def put16_def)

text \<open>An entry that survives the fixed fields of the format: a name of at most 47 bytes without a zero.\<close>

definition sap_entry_ok :: "SAPEntry \<Rightarrow> bool" where
  "sap_entry_ok e \<longleftrightarrow> length (sapName e) \<le> 47 \<and> 0 \<notin> set (sapName e) \<and> length (sapNetwork e) = 4 \<and> length (sapNode e) = 6 \<and> length (sapSocket e) = 2"

lemma takeWhile_padded: "0 \<notin> set xs \<Longrightarrow> takeWhile (\<lambda>c. c \<noteq> 0) (xs @ replicate n (0 :: u8)) = xs"
  by (induction xs) (cases n; simp)+

lemma decodeSAP_entry:
  assumes "sap_entry_ok e"
  shows "decodeSAPEntries (sapEntryBytes e @ rest) = e # decodeSAPEntries rest"
proof -
  define name where "name = sapName e @ replicate (48 - length (sapName e)) 0"
  have e: "length (sapNetwork e) = 4" "length (sapNode e) = 6" "length (sapSocket e) = 2" "length name = 48"
    "takeWhile (\<lambda>c. c \<noteq> 0) name = sapName e"
    using assms by (simp_all add: sap_entry_ok_def name_def takeWhile_padded)
  have bytes: "sapEntryBytes e = put16 (ServiceType e) @ name @ sapNetwork e @ sapNode e @ sapSocket e @ put16 (sapHops e)"
    using assms by (simp add: sapEntryBytes_def name_def sap_entry_ok_def Let_def)
  show ?thesis
    by (subst decodeSAPEntries.simps) (use e in \<open>simp add: bytes put16_def nth_append nth_Cons'\<close>)
qed

lemma decodeSAP_entries: "\<forall>e \<in> set es. sap_entry_ok e \<Longrightarrow> decodeSAPEntries (concat (map sapEntryBytes es)) = es"
  by (induction es) (simp_all add: decodeSAP_entry, simp add: decodeSAPEntries.simps)

lemma sap_response_roundtrip:
  assumes "\<forall>e \<in> set es. sap_entry_ok e" "length es \<le> 7" "op = 2 \<or> op = 4"
  shows "\<exists>b. EncodeSAP \<lparr>sapOperation = op, QueryServiceType = 0, sapEntries = es\<rparr> = Inr b \<and>
    DecodeSAP b = Inr \<lparr>sapOperation = op, QueryServiceType = 0, sapEntries = es\<rparr>"
  using decodeSAP_entries [OF assms(1)] assms(2,3) by (auto simp: EncodeSAP_def DecodeSAP_def Let_def put16_def)

section \<open>Properties\<close>

lemma map_of_filter_kept: "map_of m k = Some v \<Longrightarrow> P v \<Longrightarrow> map_of (filter (\<lambda>(k, v). P v) m) k = Some v"
  by (induction m) (auto split: if_splits)

text \<open>A frame of the port's own making, read by any port.\<close>

lemma handleFrame_ethernetII:
  assumes "length dst' = 6" "length src' = 6"
  shows "handleFrame (dst' @ src' @ [0x81, 0x37] @ body) p = deliverIPX body p"
  using assms by (auto simp: list_of_length handleFrame_def be16_def)

lemma duplicate_dropped: "map_of (recentFrames p) (frameHash f) = Some seen \<Longrightarrow> t - seen \<le> 25000000 \<Longrightarrow> ipxReadFrame t f p = (None, p)"
  by (simp add: ipxReadFrame_def isDuplicateFrame_def)

lemma read_fresh:
  assumes "\<forall>seen. map_of (recentFrames p) (frameHash f) = Some seen \<longrightarrow> t - seen > 25000000"
  shows "fst (ipxReadFrame t f p) = handleFrame f p" "map_of (recentFrames (snd (ipxReadFrame t f p))) (frameHash f) = Some t"
proof -
  let ?m = "filter (\<lambda>(k, ts). \<not> t - ts > 100000000) (AList.update (frameHash f) t (recentFrames p))"
  have dup: "isDuplicateFrame t f p = (False, p\<lparr>recentFrames := ?m\<rparr>)"
    using assms by (auto simp: isDuplicateFrame_def Let_def split: option.split)
  have same: "handleFrame f (p\<lparr>recentFrames := m\<rparr>) = handleFrame f p" for m
    by (simp add: handleFrame_def deliverIPX_def cong: if_cong)
  show "fst (ipxReadFrame t f p) = handleFrame f p" by (simp add: ipxReadFrame_def dup same)
  show "map_of (recentFrames (snd (ipxReadFrame t f p))) (frameHash f) = Some t"
    using map_of_filter_kept [of "AList.update (frameHash f) t (recentFrames p)" "frameHash f" t "\<lambda>ts. \<not> t - ts > 100000000"]
    by (simp add: ipxReadFrame_def dup)
qed



lemma serviceDatagram_sel [simp]:
  "DstNet (serviceDatagram ty dn dd ds ss b) = dn" "DstNode (serviceDatagram ty dn dd ds ss b) = dd"
  "DstSock (serviceDatagram ty dn dd ds ss b) = ds" "SrcSock (serviceDatagram ty dn dd ds ss b) = ss"
  "ixPayload (serviceDatagram ty dn dd ds ss b) = b"
  by (simp_all add: serviceDatagram_def)

lemma sent_by_SendIPX: "ixPorts r = p # ps \<Longrightarrow>
    sent_by (SendIPX (serviceDatagram ty dn dd ds ss b) r) = [(p, (serviceDatagram ty dn dd ds ss b)\<lparr>SrcNet := rtNetwork r, SrcNode := rtNode r\<rparr>)]"
  by (simp add: sent_by_def SendIPX_def serviceDatagram_def isZero4_def isZero6_def)

text \<open>The entries in the payload of a datagram, as a client reads them.\<close>

definition heard_entries :: "IpxDatagram \<Rightarrow> SAPEntry list" where
  "heard_entries d = (case DecodeSAP (ixPayload d) of Inr p \<Rightarrow> sapEntries p | Inl _ \<Rightarrow> [])"

lemma sapBroadcast_heard:
  assumes "\<forall>e \<in> set es. sap_entry_ok e" "ixPorts r = p # ps"
  shows "concat (map (heard_entries \<circ> snd) (sapBroadcastFrom es r)) = es \<and>
    (\<forall>(q, d) \<in> set (sapBroadcastFrom es r). q = p \<and> DstNode d = BroadcastNode6 \<and> DstSock d = SAPSocket \<and> length (heard_entries d) \<le> 7)"
  using assms(1)
proof (induction "length es" arbitrary: es rule: less_induct)
  case less
  show ?case
  proof (cases "es = []")
    case False
    obtain b where b: "EncodeSAP \<lparr>sapOperation = 2, QueryServiceType = 0, sapEntries = take 7 es\<rparr> = Inr b"
        "DecodeSAP b = Inr \<lparr>sapOperation = 2, QueryServiceType = 0, sapEntries = take 7 es\<rparr>"
      using sap_response_roundtrip [of "take 7 es" 2] less.prems by (auto dest: in_set_takeD)
    have IH: "concat (map (heard_entries \<circ> snd) (sapBroadcastFrom (drop 7 es) r)) = drop 7 es \<and>
      (\<forall>(q, d) \<in> set (sapBroadcastFrom (drop 7 es) r). q = p \<and> DstNode d = BroadcastNode6 \<and> DstSock d = SAPSocket \<and> length (heard_entries d) \<le> 7)"
    proof (rule less.hyps)
      show "\<forall>e \<in> set (drop 7 es). sap_entry_ok e" using less.prems by (meson in_set_dropD)
    qed (use False in simp)
    then show ?thesis
      using False b by (subst (1 2) sapBroadcastFrom.simps)
        (simp add: sent_by_SendIPX [OF assms(2)] heard_entries_def)
  qed (simp add: sapBroadcastFrom.simps)
qed

text \<open>
  C34. Service advertising: the periodic broadcast of a registry whose entries fit the format tells
  a listener exactly the registered entries in their order, in broadcast packets of at most seven. A
  general query is answered, to the asking socket, with exactly the entries of the type asked for
  when there are between one and seven of them, a nearest query with the first of them; with no
  match there is no answer, and a general query with more than seven matches gets none either.
\<close>

theorem sap_advertises_registry:
  assumes "\<forall>e \<in> set es. sap_entry_ok e" "ixPorts r = p # ps" "length (ixPayload req) \<ge> 4"
    "q = be16 (ixPayload req ! 2) (ixPayload req ! 3)"
  shows "concat (map (heard_entries \<circ> snd) (sapBroadcast es r)) = es \<and>
    (\<forall>(port, d) \<in> set (sapBroadcast es r). port = p \<and> DstNode d = BroadcastNode6 \<and> DstSock d = SAPSocket \<and> length (heard_entries d) \<le> 7) \<and>
    (be16 (ixPayload req ! 0) (ixPayload req ! 1) = SAPGeneralQuery \<longrightarrow>
       (if matchingSAP q es = [] \<or> length (matchingSAP q es) > 7 then sapHandleDatagram req es r = []
        else \<exists>d. sapHandleDatagram req es r = [(p, d)] \<and> heard_entries d = matchingSAP q es \<and>
          DstNet d = SrcNet req \<and> DstNode d = SrcNode req \<and> DstSock d = SrcSock req)) \<and>
    (be16 (ixPayload req ! 0) (ixPayload req ! 1) = SAPNearestQuery \<longrightarrow>
       (if matchingSAP q es = [] then sapHandleDatagram req es r = []
        else \<exists>d. sapHandleDatagram req es r = [(p, d)] \<and> heard_entries d = [hd (matchingSAP q es)] \<and>
          DstNet d = SrcNet req \<and> DstNode d = SrcNode req \<and> DstSock d = SrcSock req))"
proof -
  have ok: "\<forall>e \<in> set (matchingSAP q es). sap_entry_ok e" using assms(1) by (simp add: matchingSAP_def)
  have query: "sapHandleDatagram req es r = handleSAPQuery req \<lparr>sapOperation = op, QueryServiceType = q, sapEntries = []\<rparr> es r"
    if "be16 (ixPayload req ! 0) (ixPayload req ! 1) = op" "op = 1 \<or> op = 3" for op
    using that assms(3,4) by (auto simp: sapHandleDatagram_def DecodeSAP_def Let_def)
  have answer: "\<exists>d. handleSAPQuery req \<lparr>sapOperation = op, QueryServiceType = q, sapEntries = []\<rparr> es r = [(p, d)] \<and> heard_entries d = ms \<and>
      DstNet d = SrcNet req \<and> DstNode d = SrcNode req \<and> DstSock d = SrcSock req"
    if m: "matchingSAP q es \<noteq> []" "ms = (if op = 3 then take 1 (matchingSAP q es) else matchingSAP q es)" "length ms \<le> 7" for op ms
  proof -
    let ?rop = "if op = 3 then 4 else 2 :: u16"
    have "\<forall>e \<in> set ms. sap_entry_ok e" using ok m(2) by (metis in_set_takeD)
    moreover have "?rop = 2 \<or> ?rop = 4" by simp
    ultimately obtain b where "EncodeSAP \<lparr>sapOperation = ?rop, QueryServiceType = 0, sapEntries = ms\<rparr> = Inr b"
        "DecodeSAP b = Inr \<lparr>sapOperation = ?rop, QueryServiceType = 0, sapEntries = ms\<rparr>"
      using sap_response_roundtrip [of ms ?rop] m(3) by blast
    then show ?thesis
      using m(1,2) by (auto simp: handleSAPQuery_def Let_def sent_by_SendIPX [OF assms(2)] heard_entries_def)
  qed
  have none: "handleSAPQuery req \<lparr>sapOperation = 1, QueryServiceType = q, sapEntries = []\<rparr> es r = []" if "length (matchingSAP q es) > 7"
    using that by (simp add: handleSAPQuery_def Let_def EncodeSAP_def)
  have empty: "handleSAPQuery req \<lparr>sapOperation = op, QueryServiceType = q, sapEntries = []\<rparr> es r = []" if "matchingSAP q es = []" for op
    using that by (simp add: handleSAPQuery_def Let_def)
  have hd: "take 1 (matchingSAP q es) = [hd (matchingSAP q es)]" if "matchingSAP q es \<noteq> []"
    using that by (simp add: take_Suc)
  show ?thesis
    using sapBroadcast_heard [OF assms(1,2)] query [of 1] query [of 3] answer [of "matchingSAP q es" 1] answer [of "[hd (matchingSAP q es)]" 3] none empty hd
    by (auto simp: sapBroadcast_def not_less)
qed

theorem sap_advertises_registry_witness:
  "(let r = AddIpxPort (3 :: nat) (SetIdentity [0, 0, 0, 16] [2, 0, 0, 0, 0, 1] (NewIpxRouter :: (nat, nat) IpxRouter));
        es = snd (RegisterSAP \<lparr>ServiceType = 0x640, sapName = [67, 83], sapNetwork = [0, 0, 0, 0], sapNode = [0, 0, 0, 0, 0, 0],
               sapSocket = [4, 85], sapHops = 0\<rparr> r []) in
     concat (map (heard_entries \<circ> snd) (sapBroadcast es r)) = es \<and> length es = 1)"
proof -
  define r where "r = AddIpxPort (3 :: nat) (SetIdentity [0, 0, 0, 16] [2, 0, 0, 0, 0, 1] (NewIpxRouter :: (nat, nat) IpxRouter))"
  define es where "es = snd (RegisterSAP \<lparr>ServiceType = 0x640, sapName = [67, 83], sapNetwork = [0, 0, 0, 0], sapNode = [0, 0, 0, 0, 0, 0],
               sapSocket = [4, 85], sapHops = 0\<rparr> r [])"
  have "\<forall>e \<in> set es. sap_entry_ok e" "length es = 1" "ixPorts r = [3]"
    by (simp_all add: es_def r_def RegisterSAP_def Let_def sap_entry_ok_def AddIpxPort_def SetIdentity_def NewIpxRouter_def)
  then show ?thesis
    using sap_advertises_registry [of es r 3 "[]" "serviceDatagram 4 [] [] [] [] [0, 1, 0, 0]" _, OF _ _ _ refl]
    by (simp add: r_def [symmetric] es_def [symmetric] Let_def)
qed

text \<open>A RIP request for our network, or for any, is answered to the asker with our route, one hop away; no other request is.\<close>

lemma rip_answers:
  assumes "length (rtNetwork r) = 4" "ixPorts r = p # ps" "DecodeRIP (ixPayload req) = Some pkt" "ripOperation pkt = RIPRequest"
  shows "if ripEntries pkt = [] \<or> (\<exists>e \<in> set (ripEntries pkt). ripNetwork e = RIPNetworkAny \<or> ripNetwork e = rtNetwork r)
    then \<exists>d. ripHandleDatagram req r = [(p, d)] \<and> DstNet d = SrcNet req \<and> DstNode d = SrcNode req \<and> DstSock d = RIPSocket \<and>
      DecodeRIP (ixPayload d) = Some \<lparr>ripOperation = RIPResponse, ripEntries = [\<lparr>ripNetwork = rtNetwork r, ripHops = 1, ripTicks = 1\<rparr>]\<rparr>
    else ripHandleDatagram req r = []"
  using assms rip_roundtrip [of "ourRoute r" "[]"]
  by (auto simp: ripHandleDatagram_def respondToRequest_def ripSendResponse_def sent_by_SendIPX ourRoute_def)

end
