(* ===== verification/Ipxgw.thy ===== *)
theory Ipxgw
  imports Ipx Nbp
begin

text \<open>
  The MacIPX gateway: the framing of \<^verbatim>\<open>protocol/macipx/frame.go\<close> and the service of
  \<^verbatim>\<open>service/ipxgw/ipxgw.go\<close>, over the models of the IPX router it shares with RIP and SAP, of the
  AppleTalk router and of the name registry.

  The gateway holds a reference to the IPX router, so its operations take the router as a second
  piece of state. Its calls of the AppleTalk router and the datagrams the IPX router gives to a port
  are effects. The map of listen sockets in an entry is a list of sockets: only membership is read.
\<close>

section \<open>Framing\<close>

abbreviation (input) OpcodeData :: u8 where "OpcodeData \<equiv> 0x00"
abbreviation (input) OpcodeListen :: u8 where "OpcodeListen \<equiv> 0x10"
abbreviation (input) OpcodeRegisterReq :: u8 where "OpcodeRegisterReq \<equiv> 0x20"
abbreviation (input) OpcodeRegisterRsp :: u8 where "OpcodeRegisterRsp \<equiv> 0x23"
abbreviation (input) MacIPXProtocol :: u8 where "MacIPXProtocol \<equiv> 0x4E"
abbreviation (input) MacIPXSocket :: u8 where "MacIPXSocket \<equiv> 78"
abbreviation (input) MacIPXNodePrefix :: bytes where "MacIPXNodePrefix \<equiv> [0x7A, 0x00, 0x00]"

definition DecodeFrame :: "bytes \<Rightarrow> (u8 \<times> bytes) option" where
  "DecodeFrame payload = (case payload of [] \<Rightarrow> None | op # rest \<Rightarrow> Some (op, rest))"

definition EncodeData :: "bytes \<Rightarrow> bytes" where
  "EncodeData b = OpcodeData # b"

definition EncodeRegisterReply :: "bytes \<Rightarrow> bytes \<Rightarrow> bytes" where
  "EncodeRegisterReply request assignedNode = OpcodeRegisterRsp # request @ take 3 (drop 3 assignedNode)"

definition DecodeRegisterRequest :: "bytes \<Rightarrow> bytes option" where
  "DecodeRegisterRequest rest = (if length rest < 6 then None else Some (take 6 rest))"

definition DecodeRegisterReply :: "bytes \<Rightarrow> bytes option" where
  "DecodeRegisterReply rest = (if length rest < 9 then None else Some (MacIPXNodePrefix @ take 3 (drop 6 rest)))"

fun listenEntries :: "bytes \<Rightarrow> (bytes \<times> bytes) list" where
  "listenEntries (n1 # n2 # n3 # n4 # n5 # n6 # s1 # s2 # rest) = ([n1, n2, n3, n4, n5, n6], [s1, s2]) # listenEntries rest"
| "listenEntries _ = []"

definition DecodeListen :: "bytes \<Rightarrow> (bytes \<times> bytes) list option" where
  "DecodeListen rest = (if length rest mod 8 \<noteq> 0 then None else Some (listenEntries rest))"

definition AssignedNodeForDDP :: "u16 \<Rightarrow> u8 \<Rightarrow> bytes" where
  "AssignedNodeForDDP atNetwork atNode = MacIPXNodePrefix @ [0x00, ucast (atNetwork AND 0xFF), atNode]"

section \<open>The gateway\<close>

datatype ipx_handler = RIPHandler | SAPHandler | GatewayHandler | NetBIOSHandler

type_synonym ipx_router = "(ipx_handler, nat) IpxRouter"

record clientEntry =
  cIPXNode :: bytes
  DDPNetwork :: u16
  DDPNode :: u8
  DDPSocket :: u8
  listenSockets :: "bytes list"

record IpxGw =
  bindings :: "(bytes \<times> bytes) list"
  cfgNetwork :: u32
  atRouter :: bool
  hasIpxRouter :: bool
  clients :: "(u32, clientEntry) gomap"
  byIPXNode :: "(bytes, clientEntry) gomap"

datatype gw_effect =
    GwReply Datagram port u8 bytes
  | GwRoute Datagram
  | GwPortSend nat IpxDatagram

definition NewIpxGw :: "(bytes \<times> bytes) list \<Rightarrow> u32 \<Rightarrow> IpxGw" where
  "NewIpxGw bs net = \<lparr>bindings = bs, cfgNetwork = (if net = 0 then 0x10 else net), atRouter = False, hasIpxRouter = False,
     clients = [], byIPXNode = []\<rparr>"

text \<open>\<open>SetIPXRouter\<close> with a router; an error of \<open>RegisterBroadcast\<close> is only logged.\<close>

definition SetIPXRouter :: "IpxGw \<times> ipx_router \<Rightarrow> IpxGw \<times> ipx_router" where
  "SetIPXRouter s =
    (let (g, rt) = s in
     (g\<lparr>hasIpxRouter := True\<rparr>, case RegisterBroadcast GatewayHandler rt of Inl _ \<Rightarrow> rt | Inr rt' \<Rightarrow> rt'))"

definition NBPType :: bytes where
  "NBPType = [73, 80, 88, 32, 71, 97, 116, 101, 119, 97, 121]"

definition gwStart :: "(nat \<Rightarrow> nat \<Rightarrow> bool) \<Rightarrow> bytes list \<Rightarrow> NBPRegisteredName list \<Rightarrow> IpxGw \<Rightarrow> NBPRegisteredName list \<times> IpxGw" where
  "gwStart orbit zones names g =
    (let bs = (if bindings g = [] then map (\<lambda>z. (z, z)) zones else bindings g) in
     (fold (\<lambda>b. RegisterName orbit (fst b) NBPType (snd b) MacIPXSocket) bs names, g\<lparr>atRouter := True, bindings := bs\<rparr>))"

definition gwStop :: "(nat \<Rightarrow> nat \<Rightarrow> bool) \<Rightarrow> NBPRegisteredName list \<Rightarrow> IpxGw \<times> ipx_router \<Rightarrow> NBPRegisteredName list \<times> IpxGw \<times> ipx_router" where
  "gwStop orbit names s =
    (let (g, rt) = s in
     (fold (\<lambda>b. UnregisterName orbit (fst b) NBPType (snd b)) (bindings g) names, g,
      if hasIpxRouter g then UnregisterBroadcast (fold UnregisterNode (map fst (byIPXNode g)) rt) else rt))"

definition clientKey :: "u16 \<Rightarrow> u8 \<Rightarrow> u32" where
  "clientKey net n = push_bit 8 (ucast net) OR ucast n"

definition recordClient :: "Datagram \<Rightarrow> bytes \<Rightarrow> IpxGw \<times> ipx_router \<Rightarrow> clientEntry \<times> IpxGw \<times> ipx_router" where
  "recordClient d ipxNode s =
    (let (g, rt) = s;
         key = clientKey (SourceNetwork d) (SourceNode d);
         prior = map_of (clients g) key;
         fresh = \<lparr>cIPXNode = ipxNode, DDPNetwork = SourceNetwork d, DDPNode = SourceNode d, DDPSocket = SourceSocket d,
           listenSockets = (case prior of Some e \<Rightarrow> listenSockets e | None \<Rightarrow> [])\<rparr>;
         entry = (case prior of Some e \<Rightarrow> if cIPXNode e \<noteq> ipxNode then fresh else e | None \<Rightarrow> fresh);
         g = (if prior = Some entry then g
              else g\<lparr>clients := AList.update key entry (clients g), byIPXNode := AList.update ipxNode entry (byIPXNode g)\<rparr>);
         rt = (if prior = None \<and> hasIpxRouter g
               then case RegisterNode ipxNode GatewayHandler rt of Inl _ \<Rightarrow> rt | Inr rt' \<Rightarrow> rt'
               else rt) in
     (entry, g, rt))"

definition learnClient :: "Datagram \<Rightarrow> IpxGw \<times> ipx_router \<Rightarrow> clientEntry \<times> IpxGw \<times> ipx_router" where
  "learnClient d s = recordClient d (AssignedNodeForDDP (SourceNetwork d) (SourceNode d)) s"

definition handleRegisterReq :: "Datagram \<Rightarrow> port \<Rightarrow> bytes \<Rightarrow> IpxGw \<times> ipx_router \<Rightarrow> gw_effect list \<times> IpxGw \<times> ipx_router" where
  "handleRegisterReq d rxPort rest s =
    (case DecodeRegisterRequest rest of
       None \<Rightarrow> ([], s)
     | Some req \<Rightarrow>
         let (entry, g, rt) = learnClient d s in
         (if atRouter g then [GwReply d rxPort MacIPXProtocol (EncodeRegisterReply req (cIPXNode entry))] else [], g, rt))"

definition handleEncapsulatedIPX :: "Datagram \<Rightarrow> bytes \<Rightarrow> IpxGw \<times> ipx_router \<Rightarrow> gw_effect list \<times> IpxGw \<times> ipx_router" where
  "handleEncapsulatedIPX d rest s =
    (case DecodeIPX rest of
       Inl _ \<Rightarrow> ([], s)
     | Inr dg \<Rightarrow>
         let (_, g, rt) = recordClient d (SrcNode dg) s in
         (if hasIpxRouter g then map (case_prod GwPortSend) (sent_by (SendIPX dg rt)) else [], g, rt))"

definition handleListen :: "Datagram \<Rightarrow> bytes \<Rightarrow> IpxGw \<times> ipx_router \<Rightarrow> IpxGw \<times> ipx_router" where
  "handleListen d rest s =
    (case DecodeListen rest of
       None \<Rightarrow> s
     | Some entries \<Rightarrow>
         let (entry, g, rt) = learnClient d s;
             key = clientKey (SourceNetwork d) (SourceNode d);
             entry = (case map_of (clients g) key of Some c \<Rightarrow> c | None \<Rightarrow> entry);
             entry = entry\<lparr>listenSockets := listenSockets entry @ map snd entries\<rparr> in
         (g\<lparr>clients := AList.update key entry (clients g), byIPXNode := AList.update (cIPXNode entry) entry (byIPXNode g)\<rparr>, rt))"

definition gwInbound :: "Datagram \<Rightarrow> port \<Rightarrow> IpxGw \<times> ipx_router \<Rightarrow> gw_effect list \<times> IpxGw \<times> ipx_router" where
  "gwInbound d rxPort s =
    (if DDPType d \<noteq> MacIPXProtocol then ([], s)
     else case DecodeFrame (Data d) of
       None \<Rightarrow> ([], s)
     | Some (op, rest) \<Rightarrow>
         if op = OpcodeRegisterReq then handleRegisterReq d rxPort rest s
         else if op = OpcodeData then handleEncapsulatedIPX d rest s
         else if op = OpcodeListen then ([], handleListen d rest s)
         else ([], s))"

definition deliverToClient :: "clientEntry \<Rightarrow> IpxDatagram \<Rightarrow> gw_effect list" where
  "deliverToClient entry dg =
    (case EncodeIPX dg of
       Inl _ \<Rightarrow> []
     | Inr b \<Rightarrow> [GwRoute \<lparr>HopCount = 0, DestinationNetwork = DDPNetwork entry, SourceNetwork = 0,
         DestinationNode = DDPNode entry, SourceNode = 0, DestinationSocket = DDPSocket entry, SourceSocket = MacIPXSocket,
         DDPType = MacIPXProtocol, Data = EncodeData b\<rparr>])"

text \<open>The clients a broadcast is for.\<close>

definition fanoutTargets :: "IpxDatagram \<Rightarrow> IpxGw \<Rightarrow> clientEntry list" where
  "fanoutTargets dg g =
    filter (\<lambda>c. DstSock dg \<in> set (listenSockets c) \<and>
      (case map_of (byIPXNode g) (SrcNode dg) of Some originator \<Rightarrow> cIPXNode c \<noteq> cIPXNode originator | None \<Rightarrow> True))
      (map snd (clients g))"

definition fanoutBroadcast :: "IpxDatagram \<Rightarrow> IpxGw \<Rightarrow> gw_effect list" where
  "fanoutBroadcast dg g =
    (let targets = fanoutTargets dg g in
     if \<not> atRouter g \<or> targets = [] then [] else concat (map (\<lambda>t. deliverToClient t dg) targets))"

definition gwHandleNodeDatagram :: "IpxDatagram \<Rightarrow> IpxGw \<Rightarrow> gw_effect list" where
  "gwHandleNodeDatagram dg g =
    (if DstNode dg = BroadcastNode6 then fanoutBroadcast dg g
     else case map_of (byIPXNode g) (DstNode dg) of
       None \<Rightarrow> []
     | Some entry \<Rightarrow> if \<not> atRouter g then [] else deliverToClient entry dg)"

section \<open>The IPX side together\<close>

record IpxStack =
  gw :: IpxGw
  ipxRt :: ipx_router
  sapTable :: "SAPEntry list"

text \<open>A datagram that comes in from a port, through the router, into whatever handlers it has; NetBIOS is a client of its own.\<close>

fun stackCall :: "IpxStack \<Rightarrow> ipx_handler ipx_call \<Rightarrow> gw_effect list" where
  "stackCall st (HandleDatagram RIPHandler d) = map (case_prod GwPortSend) (ripHandleDatagram d (ipxRt st))"
| "stackCall st (HandleDatagram SAPHandler d) = map (case_prod GwPortSend) (sapHandleDatagram d (sapTable st) (ipxRt st))"
| "stackCall st (HandleNodeDatagram GatewayHandler d) = gwHandleNodeDatagram d (gw st)"
| "stackCall st _ = []"

definition stackInbound :: "IpxDatagram \<Rightarrow> IpxStack \<Rightarrow> gw_effect list" where
  "stackInbound d st = concat (map (stackCall st) (InboundIPX d (ipxRt st)))"

definition stackFromMac :: "Datagram \<Rightarrow> port \<Rightarrow> IpxStack \<Rightarrow> gw_effect list \<times> IpxStack" where
  "stackFromMac d rxPort st =
    (let (out, g, rt) = gwInbound d rxPort (gw st, ipxRt st) in (out, st\<lparr>gw := g, ipxRt := rt\<rparr>))"

section \<open>Runs\<close>

datatype stack_op =
    FromMac Datagram port
  | StartRIP | StopRIP | StartSAP | StopSAP
  | AdvertiseSAP SAPEntry
  | WithdrawSAP "u16 \<times> bytes \<times> bytes"

definition orKeep :: "string + 'a \<Rightarrow> 'a \<Rightarrow> 'a" where
  "orKeep res a = (case res of Inl _ \<Rightarrow> a | Inr b \<Rightarrow> b)"

fun stackPerform :: "stack_op \<Rightarrow> IpxStack \<Rightarrow> IpxStack" where
  "stackPerform (FromMac d rxPort) st = snd (stackFromMac d rxPort st)"
| "stackPerform StartRIP st = st\<lparr>ipxRt := orKeep (ripStart RIPHandler (ipxRt st)) (ipxRt st)\<rparr>"
| "stackPerform StopRIP st = st\<lparr>ipxRt := ripStop (ipxRt st)\<rparr>"
| "stackPerform StartSAP st = st\<lparr>ipxRt := orKeep (sapStart SAPHandler (ipxRt st)) (ipxRt st)\<rparr>"
| "stackPerform StopSAP st = st\<lparr>ipxRt := sapStop (ipxRt st)\<rparr>"
| "stackPerform (AdvertiseSAP e) st = st\<lparr>sapTable := snd (RegisterSAP e (ipxRt st) (sapTable st))\<rparr>"
| "stackPerform (WithdrawSAP i) st = st\<lparr>sapTable := unregisterSAP i (sapTable st)\<rparr>"

text \<open>A started gateway on a router with an identity and a port.\<close>

definition newStack :: "bytes \<Rightarrow> bytes \<Rightarrow> nat \<Rightarrow> IpxStack" where
  "newStack net n p =
    (let (g, rt) = SetIPXRouter ((NewIpxGw [] 0)\<lparr>atRouter := True\<rparr>, AddIpxPort p (SetIdentity net n NewIpxRouter)) in
     \<lparr>gw = g, ipxRt = rt, sapTable = []\<rparr>)"

definition stackRun :: "bytes \<Rightarrow> bytes \<Rightarrow> nat \<Rightarrow> stack_op list \<Rightarrow> IpxStack" where
  "stackRun net n p ops = fold stackPerform ops (newStack net n p)"

section \<open>The tables agree\<close>

lemma clientKey_eq [simp]: "clientKey n a = clientKey m b \<longleftrightarrow> n = m \<and> a = b"
proof
  assume eq: "clientKey n a = clientKey m b"
  have "ucast (clientKey n a) = (a :: u8)" "ucast (drop_bit 8 (clientKey n a)) = (n :: u16)" for n a
    by (rule bit_word_eqI; auto simp: clientKey_def bit_simps dest: bit_imp_le_length)+
  then show "n = m \<and> a = b" using eq by metis
qed simp

definition gw_inv :: "IpxStack \<Rightarrow> bool" where
  "gw_inv st \<longleftrightarrow>
    atRouter (gw st) \<and> hasIpxRouter (gw st) \<and> wf_gomap (clients (gw st)) \<and>
    (\<forall>k e. map_of (clients (gw st)) k = Some e \<longrightarrow>
       k = clientKey (DDPNetwork e) (DDPNode e) \<and> map_of (byIPXNode (gw st)) (cIPXNode e) \<noteq> None) \<and>
    (\<forall>n e. map_of (byIPXNode (gw st)) n = Some e \<longrightarrow> cIPXNode e = n) \<and>
    (\<forall>n h. map_of (nodes (ipxRt st)) n = Some h \<longrightarrow> h = GatewayHandler \<and> map_of (byIPXNode (gw st)) n \<noteq> None) \<and>
    broadcastHandler (ipxRt st) = Some GatewayHandler"

lemma gw_invD:
  assumes "gw_inv st"
  shows "atRouter (gw st)" "hasIpxRouter (gw st)" "wf_gomap (clients (gw st))"
    "map_of (clients (gw st)) k = Some e \<Longrightarrow> k = clientKey (DDPNetwork e) (DDPNode e)"
    "map_of (clients (gw st)) k = Some e \<Longrightarrow> map_of (byIPXNode (gw st)) (cIPXNode e) \<noteq> None"
    "map_of (byIPXNode (gw st)) n = Some e \<Longrightarrow> cIPXNode e = n"
    "map_of (nodes (ipxRt st)) n = Some h \<Longrightarrow> h = GatewayHandler \<and> map_of (byIPXNode (gw st)) n \<noteq> None"
    "broadcastHandler (ipxRt st) = Some GatewayHandler"
  using assms by (auto simp: gw_inv_def)

text \<open>Storing an entry under its keys keeps the tables consistent.\<close>

lemma gw_inv_store:
  assumes "gw_inv st" "nodes rt' = nodes (ipxRt st) \<or> nodes rt' = AList.update (cIPXNode e) GatewayHandler (nodes (ipxRt st))"
    "broadcastHandler rt' = broadcastHandler (ipxRt st)"
  shows "gw_inv (st\<lparr>gw := (gw st)\<lparr>clients := AList.update (clientKey (DDPNetwork e) (DDPNode e)) e (clients (gw st)),
    byIPXNode := AList.update (cIPXNode e) e (byIPXNode (gw st))\<rparr>, ipxRt := rt'\<rparr>)"
proof -
  note inv = gw_invD [OF assms(1)]
  show ?thesis
    using assms(2) unfolding gw_inv_def
    by (auto simp: inv(1,2,3,8) assms(3) dest: inv(4,5,6,7) split: if_splits)
qed

lemma AssignedNodeForDDP_length [simp]: "length (AssignedNodeForDDP n a) = 6"
  by (simp add: AssignedNodeForDDP_def)

lemma gw_inv_same: "gw_inv st \<Longrightarrow> gw_inv (st\<lparr>gw := gw st, ipxRt := ipxRt st\<rparr>)"
  by (simp add: gw_inv_def)

lemma gw_inv_recordClient:
  assumes inv: "gw_inv st" and r: "recordClient d n (gw st, ipxRt st) = (e, g, rt)"
  shows "gw_inv (st\<lparr>gw := g, ipxRt := rt\<rparr>) \<and> cIPXNode e = n \<and> DDPNetwork e = SourceNetwork d \<and> DDPNode e = SourceNode d \<and>
    map_of (clients g) (clientKey (SourceNetwork d) (SourceNode d)) = Some e"
proof (cases "map_of (clients (gw st)) (clientKey (SourceNetwork d) (SourceNode d))")
  case None
  have rt: "nodes (orKeep (RegisterNode n GatewayHandler (ipxRt st)) (ipxRt st)) = nodes (ipxRt st) \<or>
      nodes (orKeep (RegisterNode n GatewayHandler (ipxRt st)) (ipxRt st)) = AList.update n GatewayHandler (nodes (ipxRt st))"
    "broadcastHandler (orKeep (RegisterNode n GatewayHandler (ipxRt st)) (ipxRt st)) = broadcastHandler (ipxRt st)"
    by (auto simp: RegisterNode_def orKeep_def)
  have "e = \<lparr>cIPXNode = n, DDPNetwork = SourceNetwork d, DDPNode = SourceNode d, DDPSocket = SourceSocket d, listenSockets = []\<rparr>"
    "g = (gw st)\<lparr>clients := AList.update (clientKey (SourceNetwork d) (SourceNode d)) e (clients (gw st)),
      byIPXNode := AList.update n e (byIPXNode (gw st))\<rparr>"
    "rt = orKeep (RegisterNode n GatewayHandler (ipxRt st)) (ipxRt st)"
    using r None gw_invD(2) [OF inv] by (auto simp: recordClient_def Let_def orKeep_def)
  then show ?thesis using gw_inv_store [OF inv, of _ e] rt by simp
next
  case (Some old)
  then have old: "DDPNetwork old = SourceNetwork d" "DDPNode old = SourceNode d"
    using gw_invD(4) [OF inv Some] by simp_all
  show ?thesis
  proof (cases "cIPXNode old = n")
    case True
    then have "e = old" "g = gw st" "rt = ipxRt st" using r Some by (simp_all add: recordClient_def Let_def)
    then show ?thesis using inv Some old True gw_inv_same by simp
  next
    case False
    then have ne: "old \<noteq> \<lparr>cIPXNode = n, DDPNetwork = SourceNetwork d, DDPNode = SourceNode d, DDPSocket = SourceSocket d, listenSockets = listenSockets old\<rparr>"
      by (metis clientEntry.select_convs(1))
    from False have "e = \<lparr>cIPXNode = n, DDPNetwork = SourceNetwork d, DDPNode = SourceNode d, DDPSocket = SourceSocket d, listenSockets = listenSockets old\<rparr>"
      "g = (gw st)\<lparr>clients := AList.update (clientKey (SourceNetwork d) (SourceNode d)) e (clients (gw st)),
        byIPXNode := AList.update n e (byIPXNode (gw st))\<rparr>" "rt = ipxRt st"
      using r Some ne by (auto simp: recordClient_def Let_def)
    then show ?thesis using gw_inv_store [OF inv, of "ipxRt st" e] by simp
  qed
qed

lemma gw_inv_handleListen: "gw_inv st \<Longrightarrow> handleListen d rest (gw st, ipxRt st) = (g, rt) \<Longrightarrow> gw_inv (st\<lparr>gw := g, ipxRt := rt\<rparr>)"
proof (cases "DecodeListen rest")
  case (Some es)
  assume inv: "gw_inv st" and l: "handleListen d rest (gw st, ipxRt st) = (g, rt)"
  obtain e g' rt' where r: "learnClient d (gw st, ipxRt st) = (e, g', rt')" by (metis prod_cases3)
  note rc = gw_inv_recordClient [OF inv r [unfolded learnClient_def]]
  let ?e = "e\<lparr>listenSockets := listenSockets e @ map snd es\<rparr>"
  have "g = g'\<lparr>clients := AList.update (clientKey (DDPNetwork ?e) (DDPNode ?e)) ?e (clients g'),
      byIPXNode := AList.update (cIPXNode ?e) ?e (byIPXNode g')\<rparr>" "rt = rt'"
    using l rc by (auto simp: handleListen_def Some r Let_def)
  then show ?thesis using gw_inv_store [of "st\<lparr>gw := g', ipxRt := rt'\<rparr>" rt' ?e] rc by simp
qed (use gw_inv_same in \<open>auto simp: handleListen_def\<close>)

lemma gw_inv_fromMac: "gw_inv st \<Longrightarrow> gw_inv (snd (stackFromMac d rxPort st))"
proof -
  assume inv: "gw_inv st"
  obtain out g rt where r: "gwInbound d rxPort (gw st, ipxRt st) = (out, g, rt)" by (metis prod_cases3)
  have rc: "gw_inv (st\<lparr>gw := g, ipxRt := rt\<rparr>)" if "recordClient d n (gw st, ipxRt st) = (e, g, rt)" for n e
    using gw_inv_recordClient [OF inv that] by simp
  have "gw_inv (st\<lparr>gw := g, ipxRt := rt\<rparr>)"
    using r inv rc gw_inv_handleListen [OF inv, of d _ g rt]
    by (auto simp: gwInbound_def handleRegisterReq_def handleEncapsulatedIPX_def learnClient_def gw_inv_same Let_def
        split: if_splits option.splits sum.splits prod.splits)
  then show ?thesis by (simp add: stackFromMac_def r)
qed

lemma gw_inv_sockets: "gw_inv st \<Longrightarrow> nodes rt = nodes (ipxRt st) \<Longrightarrow> broadcastHandler rt = broadcastHandler (ipxRt st) \<Longrightarrow> gw_inv (st\<lparr>ipxRt := rt\<rparr>)"
  by (simp add: gw_inv_def)

lemma gw_inv_perform: "gw_inv st \<Longrightarrow> gw_inv (stackPerform op st)"
  by (cases op) (auto simp: gw_inv_fromMac ripStart_def ripStop_def sapStart_def sapStop_def orKeep_def RegisterSocket_def UnregisterSocket_def
      intro!: gw_inv_sockets, simp_all add: gw_inv_def)

lemma gw_inv_new: "gw_inv (newStack net n p)"
  by (simp add: newStack_def SetIPXRouter_def NewIpxGw_def RegisterBroadcast_def AddIpxPort_def SetIdentity_def NewIpxRouter_def gw_inv_def)

interpretation ipx_runs: guarded_component "newStack net n p" stackPerform gw_inv for net n p
  by unfold_locales (simp_all add: gw_inv_new gw_inv_perform)

lemma gw_inv_run: "gw_inv (stackRun net n p ops)"
  unfolding stackRun_def by (rule ipx_runs.invar_run)

section \<open>Properties\<close>

text \<open>The AppleTalk datagram in which a client gets an IPX datagram.\<close>

definition tunnelled :: "clientEntry \<Rightarrow> bytes \<Rightarrow> Datagram" where
  "tunnelled e b = \<lparr>HopCount = 0, DestinationNetwork = DDPNetwork e, SourceNetwork = 0, DestinationNode = DDPNode e, SourceNode = 0,
     DestinationSocket = DDPSocket e, SourceSocket = MacIPXSocket, DDPType = MacIPXProtocol, Data = EncodeData b\<rparr>"

lemma deliverToClient_eq: "EncodeIPX dg = Inr b \<Longrightarrow> deliverToClient e dg = [GwRoute (tunnelled e b)]"
  by (simp add: deliverToClient_def tunnelled_def)

lemma stackInbound_node:
  assumes "gw_inv st" "map_of (nodes (ipxRt st)) (DstNode dg) = Some GatewayHandler" "isZero4 (DstNet dg) \<or> DstNet dg = rtNetwork (ipxRt st)"
    "DstNode dg \<noteq> BroadcastNode6" "map_of (byIPXNode (gw st)) (DstNode dg) = Some e" "EncodeIPX dg = Inr b"
  shows "stackInbound dg st = [GwRoute (tunnelled e b)]"
  using assms gw_invD(1) [OF assms(1)]
  by (auto simp: stackInbound_def InboundIPX_def acceptsDest_def gwHandleNodeDatagram_def deliverToClient_eq)

text \<open>A client that announces itself is entered with its assigned node, which is claimed on the IPX router.\<close>

lemma register_learns:
  assumes inv: "gw_inv st" and new: "map_of (clients (gw st)) (clientKey (SourceNetwork d) (SourceNode d)) = None"
    and d: "DDPType d = MacIPXProtocol" "Data d = OpcodeRegisterReq # blob" "length blob = 6"
    and free: "map_of (nodes (ipxRt st)) (AssignedNodeForDDP (SourceNetwork d) (SourceNode d)) = None"
  obtains g rt where
    "stackFromMac d rxPort st = ([GwReply d rxPort MacIPXProtocol (EncodeRegisterReply blob (AssignedNodeForDDP (SourceNetwork d) (SourceNode d)))],
      st\<lparr>gw := g, ipxRt := rt\<rparr>)"
    "map_of (byIPXNode g) (AssignedNodeForDDP (SourceNetwork d) (SourceNode d)) =
      Some \<lparr>cIPXNode = AssignedNodeForDDP (SourceNetwork d) (SourceNode d), DDPNetwork = SourceNetwork d, DDPNode = SourceNode d,
        DDPSocket = SourceSocket d, listenSockets = []\<rparr>"
    "map_of (nodes rt) (AssignedNodeForDDP (SourceNetwork d) (SourceNode d)) = Some GatewayHandler"
    "rtNetwork rt = rtNetwork (ipxRt st)" "ixPorts rt = ixPorts (ipxRt st)" "hasIpxRouter g"
    "map_of (clients g) (clientKey (SourceNetwork d) (SourceNode d)) =
      Some \<lparr>cIPXNode = AssignedNodeForDDP (SourceNetwork d) (SourceNode d), DDPNetwork = SourceNetwork d, DDPNode = SourceNode d,
        DDPSocket = SourceSocket d, listenSockets = []\<rparr>"
  using that d new free gw_invD(1,2) [OF inv]
  by (simp add: stackFromMac_def gwInbound_def DecodeFrame_def handleRegisterReq_def DecodeRegisterRequest_def learnClient_def
      recordClient_def RegisterNode_def Let_def)

lemma assigned_node_reply:
  "length blob = 6 \<Longrightarrow> DecodeRegisterReply (tl (EncodeRegisterReply blob (AssignedNodeForDDP n a))) = Some (AssignedNodeForDDP n a)"
  by (simp add: DecodeRegisterReply_def EncodeRegisterReply_def AssignedNodeForDDP_def)

lemma AssignedNode_not_broadcast: "AssignedNodeForDDP n a \<noteq> BroadcastNode6" "\<not> isZero6 (AssignedNodeForDDP n a)"
  by (simp_all add: AssignedNodeForDDP_def isZero6_def)



definition routes :: "gw_effect list \<Rightarrow> Datagram list" where
  "routes out = List.map_filter (\<lambda>x. case x of GwRoute d \<Rightarrow> Some d | _ \<Rightarrow> None) out"

lemma routes_append [simp]: "routes (xs @ ys) = routes xs @ routes ys"
  by (simp add: routes_def map_filter_def)

lemma routes_ports [simp]: "routes (map (case_prod GwPortSend) xs) = []"
  by (induction xs) (simp_all add: routes_def map_filter_def case_prod_beta)

lemma routes_routed [simp]: "routes (map (\<lambda>e. GwRoute (f e)) es) = map f es"
  by (induction es) (simp_all add: routes_def map_filter_def)

lemma routes_socket: "routes (stackCall st (HandleDatagram h d)) = []"
  by (cases h) (simp_all, simp_all add: routes_def map_filter_def)

lemma broadcast_routes:
  assumes inv: "gw_inv st" and free: "map_of (nodes (ipxRt st)) BroadcastNode6 = None" and dst': "DstNode dg = BroadcastNode6"
    and net: "isZero4 (DstNet dg) \<or> DstNet dg = rtNetwork (ipxRt st)" and b: "EncodeIPX dg = Inr b"
  shows "routes (stackInbound dg st) = map (\<lambda>e. tunnelled e b) (fanoutTargets dg (gw st))"
proof -
  have "InboundIPX dg (ipxRt st) = (case map_of (sockets (ipxRt st)) (DstSock dg) of Some h \<Rightarrow> [HandleDatagram h dg] | None \<Rightarrow> []) @
      [HandleNodeDatagram GatewayHandler dg]"
    using net gw_invD(8) [OF inv] by (auto simp: InboundIPX_def acceptsDest_def dst' free)
  moreover have "concat (map (\<lambda>e. deliverToClient e dg) es) = map (\<lambda>e. GwRoute (tunnelled e b)) es" for es
    by (induction es) (simp_all add: deliverToClient_eq [OF b])
  ultimately show ?thesis
    using gw_invD(1) [OF inv]
    by (simp add: stackInbound_def gwHandleNodeDatagram_def dst' fanoutBroadcast_def Let_def routes_socket split: option.split) (simp add: routes_def)
qed

lemma fanoutTargets_iff:
  assumes inv: "gw_inv st"
  shows "e \<in> set (fanoutTargets dg (gw st)) \<longleftrightarrow>
    map_of (clients (gw st)) (clientKey (DDPNetwork e) (DDPNode e)) = Some e \<and> DstSock dg \<in> set (listenSockets e) \<and> cIPXNode e \<noteq> SrcNode dg"
proof -
  have mem: "e \<in> set (map snd (clients (gw st))) \<longleftrightarrow> map_of (clients (gw st)) (clientKey (DDPNetwork e) (DDPNode e)) = Some e"
  proof
    assume "e \<in> set (map snd (clients (gw st)))"
    then obtain k where "(k, e) \<in> set (clients (gw st))" by auto
    then have "map_of (clients (gw st)) k = Some e" using gw_invD(3) [OF inv] by (simp add: map_of_eq_Some_iff)
    then show "map_of (clients (gw st)) (clientKey (DDPNetwork e) (DDPNode e)) = Some e" using gw_invD(4) [OF inv] by metis
  qed (auto dest!: map_of_SomeD simp: image_iff intro!: bexI)
  have "(case map_of (byIPXNode (gw st)) (SrcNode dg) of Some originator \<Rightarrow> cIPXNode e \<noteq> cIPXNode originator | None \<Rightarrow> True) \<longleftrightarrow> cIPXNode e \<noteq> SrcNode dg"
    if "map_of (clients (gw st)) (clientKey (DDPNetwork e) (DDPNode e)) = Some e"
    using gw_invD(5) [OF inv that] gw_invD(6) [OF inv] by (auto split: option.split)
  then show ?thesis unfolding fanoutTargets_def using mem by auto
qed

lemma fanoutTargets_distinct:
  assumes inv: "gw_inv st"
  shows "distinct (map (\<lambda>e. (DDPNetwork e, DDPNode e)) (fanoutTargets dg (gw st)))"
proof -
  have "map fst (clients (gw st)) = map (\<lambda>e. clientKey (DDPNetwork e) (DDPNode e)) (map snd (clients (gw st)))"
    using gw_invD(3,4) [OF inv] by (auto simp: map_of_eq_Some_iff)
  then have "distinct (map (\<lambda>e. clientKey (DDPNetwork e) (DDPNode e)) (map snd (clients (gw st))))"
    using gw_invD(3) [OF inv] by (simp only:)
  then have "distinct (map (\<lambda>e. (DDPNetwork e, DDPNode e)) (map snd (clients (gw st))))"
    by (simp add: distinct_map inj_on_def del: map_map)
  then show ?thesis unfolding fanoutTargets_def by (rule distinct_map_filter)
qed

text \<open>
  C32. A broadcast on the IPX network reaches exactly the clients that listen to its socket: whatever
  happened before, provided no client has taken the broadcast address for its own node, every client
  that has registered the destination socket and does not own the source node gets the broadcast,
  once and as it was sent, and nobody else gets anything.
\<close>

theorem ipxgw_broadcast_exact:
  assumes "st = stackRun net own p ops" "map_of (nodes (ipxRt st)) BroadcastNode6 = None" "DstNode dg = BroadcastNode6"
    "isZero4 (DstNet dg) \<or> DstNet dg = rtNetwork (ipxRt st)" "addresses_ok dg" "length (ixPayload dg) \<le> 65505"
  shows "distinct (map (\<lambda>x. (DestinationNetwork x, DestinationNode x)) (routes (stackInbound dg st))) \<and>
    (\<forall>x \<in> set (routes (stackInbound dg st)). \<exists>b. Data x = EncodeData b \<and> DecodeIPX b = Inr (on_wire dg)) \<and>
    (\<forall>n a. (n, a) \<in> (\<lambda>x. (DestinationNetwork x, DestinationNode x)) ` set (routes (stackInbound dg st)) \<longleftrightarrow>
      (\<exists>e. map_of (clients (gw st)) (clientKey n a) = Some e \<and> DstSock dg \<in> set (listenSockets e) \<and> cIPXNode e \<noteq> SrcNode dg))"
proof -
  have inv: "gw_inv st" using gw_inv_run assms(1) by simp
  obtain b where b: "EncodeIPX dg = Inr b" "DecodeIPX b = Inr (on_wire dg)" using ipx_decode_encode [OF assms(5,6)] by blast
  have r: "routes (stackInbound dg st) = map (\<lambda>e. tunnelled e b) (fanoutTargets dg (gw st))"
    by (rule broadcast_routes [OF inv assms(2,3,4) b(1)])
  have addr: "(\<lambda>x. (DestinationNetwork x, DestinationNode x)) \<circ> (\<lambda>e. tunnelled e b) = (\<lambda>e. (DDPNetwork e, DDPNode e))"
    by (auto simp: tunnelled_def)
  have "(n, a) \<in> (\<lambda>e. (DDPNetwork e, DDPNode e)) ` set (fanoutTargets dg (gw st)) \<longleftrightarrow>
      (\<exists>e. map_of (clients (gw st)) (clientKey n a) = Some e \<and> DstSock dg \<in> set (listenSockets e) \<and> cIPXNode e \<noteq> SrcNode dg)" for n a
    using fanoutTargets_iff [OF inv] gw_invD(4) [OF inv, of "clientKey n a"] by (auto simp: image_iff)
  then show ?thesis
    using fanoutTargets_distinct [OF inv] b(2)
    by (simp add: r addr image_image [symmetric] image_comp del: image_image) (auto simp: tunnelled_def)
qed

theorem ipxgw_broadcast_exact_witness:
  "(let d = \<lparr>HopCount = 0, DestinationNetwork = 3, SourceNetwork = 3, DestinationNode = 1, SourceNode = 62, DestinationSocket = 78,
        SourceSocket = 78, DDPType = 0x4E, Data = [0x10, 0xFF, 0xFF, 0xFF, 0xFF, 0xFF, 0xFF, 0xDE, 0xAD]\<rparr>;
      dg = \<lparr>ixChecksum = [0, 0], ixLength = 0, ixHops = 0, ixType = 4, DstNet = [0, 0, 0, 0], DstNode = BroadcastNode6, DstSock = [0xDE, 0xAD],
        SrcNet = [0, 0, 0, 16], SrcNode = [2, 0, 0, 0, 0, 9], SrcSock = [4, 86], ixPayload = [1, 2, 3]\<rparr>;
      st = stackRun [0, 0, 0, 16] [2, 0, 0, 0, 0, 1] 7 [FromMac d lt0] in
    (3, 62) \<in> (\<lambda>x. (DestinationNetwork x, DestinationNode x)) ` set (routes (stackInbound dg st)))"
proof -
  define d where "d = \<lparr>HopCount = 0, DestinationNetwork = 3, SourceNetwork = 3, DestinationNode = 1, SourceNode = 62, DestinationSocket = 78,
        SourceSocket = 78, DDPType = 0x4E, Data = [0x10, 0xFF, 0xFF, 0xFF, 0xFF, 0xFF, 0xFF, 0xDE, 0xAD]\<rparr>"
  define dg where "dg = \<lparr>ixChecksum = [0, 0], ixLength = 0, ixHops = 0, ixType = 4, DstNet = [0, 0, 0, 0], DstNode = BroadcastNode6, DstSock = [0xDE, 0xAD],
        SrcNet = [0, 0, 0, 16], SrcNode = [2, 0, 0, 0, 0, 9], SrcSock = [4, 86], ixPayload = [1, 2, 3 :: u8]\<rparr>"
  define st where "st = stackRun [0, 0, 0, 16] [2, 0, 0, 0, 0, 1] 7 [FromMac d lt0]"
  have st: "map_of (clients (gw st)) (clientKey 3 62) = Some \<lparr>cIPXNode = [0x7A, 0, 0, 0, 3, 62], DDPNetwork = 3, DDPNode = 62, DDPSocket = 78, listenSockets = [[0xDE, 0xAD]]\<rparr>"
    "nodes (ipxRt st) = [([0x7A, 0, 0, 0, 3, 62], GatewayHandler)]"
    by (simp_all add: st_def stackRun_def newStack_def SetIPXRouter_def NewIpxGw_def RegisterBroadcast_def AddIpxPort_def SetIdentity_def NewIpxRouter_def
        stackFromMac_def gwInbound_def DecodeFrame_def handleListen_def DecodeListen_def learnClient_def recordClient_def AssignedNodeForDDP_def
        RegisterNode_def d_def Let_def)
  have "(3, 62) \<in> (\<lambda>x. (DestinationNetwork x, DestinationNode x)) ` set (routes (stackInbound dg st))"
    using ipxgw_broadcast_exact [OF st_def, of dg] st by (simp add: dg_def isZero4_def addresses_ok_def)
  then show ?thesis by (simp add: d_def [symmetric] dg_def [symmetric] st_def [symmetric] Let_def)
qed

section \<open>Shortcomings\<close>

text \<open>
  A known client that changes its node is entered under the new node, but the new node is not
  claimed on the IPX router: nothing sent to it is accepted.
\<close>

lemma changed_node_unreachable:
  assumes "gw_inv st" "map_of (clients (gw st)) (clientKey (SourceNetwork d) (SourceNode d)) = Some old" "map_of (nodes (ipxRt st)) n = None"
    "recordClient d n (gw st, ipxRt st) = (e, g, rt)" "DstNode dg = n" "n \<noteq> rtNode (ipxRt st)" "n \<noteq> BroadcastNode6"
  shows "InboundIPX dg rt = []"
  using assms by (auto simp: recordClient_def Let_def InboundIPX_def acceptsDest_def split: if_splits)

text \<open>
  A client that sends with the broadcast address as its node takes all broadcasts: the handlers of
  RIP, SAP and NetBIOS get none from then on.
\<close>

lemma broadcast_node_taken:
  assumes "gw_inv st" "map_of (clients (gw st)) (clientKey (SourceNetwork d) (SourceNode d)) = None" "map_of (nodes (ipxRt st)) BroadcastNode6 = None"
    "recordClient d BroadcastNode6 (gw st, ipxRt st) = (e, g, rt)" "DstNode dg = BroadcastNode6" "isZero4 (DstNet dg)"
  shows "InboundIPX dg rt = [HandleNodeDatagram GatewayHandler dg]"
  using assms gw_invD(2) [OF assms(1)] by (auto simp: recordClient_def Let_def InboundIPX_def acceptsDest_def RegisterNode_def)

end
