(* ===== verification/Macip_Pool.thy ===== *)
theory Macip_Pool
  imports Go_Prelude
begin

text \<open>
  The address pool of the MacIP gateway, \<^verbatim>\<open>service/macip/pool.go\<close>: static leases, DHCP
  leases, and the pins with which file sessions keep a lease alive. An IPv4 address is a 32-bit
  word; an address that is not IPv4 cannot be asked for. Time is a number of nanoseconds given to
  the operations that read the clock. Each operation holds the pool's locks, so it is one step.
\<close>

declare split_paired_All [simp del] split_paired_Ex [simp del]

section \<open>State\<close>

abbreviation leaseDuration :: int where "leaseDuration \<equiv> 300000000000"
abbreviation pinnedLeaseHardTimeout :: int where "pinnedLeaseHardTimeout \<equiv> 1800000000000"

record leaseEntry =
  used :: bool
  atNetwork :: u16
  atNode :: u8
  lastSeen :: int

type_synonym at_endpoint = "u8 \<times> u8 \<times> u8"

record ipPool =
  base :: u32
  entries :: "leaseEntry list"
  pinBySession :: "(u8, at_endpoint) gomap"
  pinCountByAT :: "(at_endpoint, int) gomap"
  pinSeenByAT :: "(at_endpoint, int) gomap"
  dhcpByAT :: "(at_endpoint, u32) gomap"
  dhcpByIP :: "(u32, at_endpoint) gomap"
  dhcpSeen :: "(at_endpoint, int) gomap"

datatype pool_error = InvalidEndpoint u16 u8 | NoFreeAddress

definition validATEndpoint :: "u16 \<Rightarrow> u8 \<Rightarrow> bool" where
  "validATEndpoint net nd \<longleftrightarrow> net \<noteq> 0 \<and> nd \<noteq> 0 \<and> nd \<noteq> 0xFF"

definition emptyLease :: leaseEntry where
  "emptyLease = \<lparr>used = False, atNetwork = 0, atNode = 0, lastSeen = 0\<rparr>"

definition newIPPool :: "u32 \<Rightarrow> u32 \<Rightarrow> ipPool" where
  "newIPPool net msk =
    (let size = int (unat (NOT msk)) - 1;
         size = (if size < 1 then 1 else size);
         es = (replicate (nat size) emptyLease)[0 := emptyLease\<lparr>used := True\<rparr>] in
     \<lparr>base = net, entries = es, pinBySession = [], pinCountByAT = [], pinSeenByAT = [], dhcpByAT = [], dhcpByIP = [],
      dhcpSeen = []\<rparr>)"

definition atKey :: "u16 \<Rightarrow> u8 \<Rightarrow> at_endpoint" where
  "atKey net nd = (hi8 net, lo8 net, nd)"

definition indexToIP :: "ipPool \<Rightarrow> nat \<Rightarrow> u32" where
  "indexToIP p i = base p + word_of_nat i + 1"

definition ipToIndex :: "ipPool \<Rightarrow> u32 \<Rightarrow> nat option" where
  "ipToIndex p v =
    (if v \<le> base p then None
     else let i = unat (v - base p - 1) in if i \<ge> length (entries p) then None else Some i)"

section \<open>Leases\<close>

text \<open>The first slot from 1 on that satisfies a condition.\<close>

definition firstSlot :: "(leaseEntry \<Rightarrow> bool) \<Rightarrow> ipPool \<Rightarrow> nat option" where
  "firstSlot P p = find (\<lambda>i. P (entries p ! i)) [1..<length (entries p)]"

definition heldBy :: "u16 \<Rightarrow> u8 \<Rightarrow> leaseEntry \<Rightarrow> bool" where
  "heldBy net nd e \<longleftrightarrow> used e \<and> atNetwork e = net \<and> atNode e = nd"

definition setSlot :: "nat \<Rightarrow> leaseEntry \<Rightarrow> ipPool \<Rightarrow> ipPool" where
  "setSlot i e p = p\<lparr>entries := (entries p)[i := e]\<rparr>"

definition requestedSlot :: "ipPool \<Rightarrow> u32 option \<Rightarrow> nat option" where
  "requestedSlot p requested =
    (case requested of
       None \<Rightarrow> None
     | Some v \<Rightarrow>
         if v = 0 then None
         else case ipToIndex p v of
           Some i \<Rightarrow> if i > 0 \<and> \<not> used (entries p ! i) then Some i else None
         | None \<Rightarrow> None)"

definition assign :: "u32 option \<Rightarrow> u16 \<Rightarrow> u8 \<Rightarrow> int \<Rightarrow> ipPool \<Rightarrow> (pool_error + u32) \<times> ipPool" where
  "assign requested net nd now p =
    (if \<not> validATEndpoint net nd then (Inl (InvalidEndpoint net nd), p)
     else
       let lease = \<lparr>used = True, atNetwork = net, atNode = nd, lastSeen = now\<rparr> in
       case firstSlot (heldBy net nd) p of
         Some i \<Rightarrow> (Inr (indexToIP p i), setSlot i ((entries p ! i)\<lparr>lastSeen := now\<rparr>) p)
       | None \<Rightarrow>
           case requestedSlot p requested of
             Some i \<Rightarrow> (Inr (indexToIP p i), setSlot i lease p)
           | None \<Rightarrow>
               case firstSlot (\<lambda>e. \<not> used e) p of
                 Some i \<Rightarrow> (Inr (indexToIP p i), setSlot i lease p)
               | None \<Rightarrow> (Inl NoFreeAddress, p))"

definition updateSeen :: "u16 \<Rightarrow> u8 \<Rightarrow> int \<Rightarrow> ipPool \<Rightarrow> ipPool" where
  "updateSeen net nd now p =
    (if \<not> validATEndpoint net nd then p
     else
       let p = (case firstSlot (heldBy net nd) p of
                  Some i \<Rightarrow> setSlot i ((entries p ! i)\<lparr>lastSeen := now\<rparr>) p
                | None \<Rightarrow> p);
           k = atKey net nd in
       if map_of (dhcpByAT p) k \<noteq> None then p\<lparr>dhcpSeen := AList.update k now (dhcpSeen p)\<rparr> else p)"

definition lookupByIP :: "ipPool \<Rightarrow> u32 \<Rightarrow> (u16 \<times> u8) option" where
  "lookupByIP p v =
    (case (case ipToIndex p v of
             Some i \<Rightarrow> (let e = entries p ! i in
                        if used e \<and> validATEndpoint (atNetwork e) (atNode e) then Some (atNetwork e, atNode e) else None)
           | None \<Rightarrow> None) of
       Some r \<Rightarrow> Some r
     | None \<Rightarrow>
         case map_of (dhcpByIP p) v of
           Some (h, l, nd) \<Rightarrow> if validATEndpoint (be16 h l) nd then Some (be16 h l, nd) else None
         | None \<Rightarrow> None)"

definition registerDHCP :: "u32 \<Rightarrow> u16 \<Rightarrow> u8 \<Rightarrow> int \<Rightarrow> ipPool \<Rightarrow> ipPool" where
  "registerDHCP n net nd now p =
    (if \<not> validATEndpoint net nd then p
     else
       let k = atKey net nd;
           byIP = (case map_of (dhcpByAT p) k of Some old \<Rightarrow> AList.delete old (dhcpByIP p) | None \<Rightarrow> dhcpByIP p) in
       p\<lparr>dhcpByAT := AList.update k n (dhcpByAT p), dhcpByIP := AList.update n k byIP,
         dhcpSeen := AList.update k now (dhcpSeen p)\<rparr>)"

definition lookupIPByAT :: "ipPool \<Rightarrow> u16 \<Rightarrow> u8 \<Rightarrow> u32 option" where
  "lookupIPByAT p net nd = (if \<not> validATEndpoint net nd then None else map_of (dhcpByAT p) (atKey net nd))"

section \<open>Pins\<close>

definition pinCount :: "ipPool \<Rightarrow> at_endpoint \<Rightarrow> int" where
  "pinCount p k = (case map_of (pinCountByAT p) k of Some c \<Rightarrow> c | None \<Rightarrow> 0)"

text \<open>The two places that give a pin up.\<close>

definition dropPin :: "at_endpoint \<Rightarrow> ipPool \<Rightarrow> ipPool" where
  "dropPin k p =
    (if pinCount p k \<le> 1
     then p\<lparr>pinCountByAT := AList.delete k (pinCountByAT p), pinSeenByAT := AList.delete k (pinSeenByAT p)\<rparr>
     else p\<lparr>pinCountByAT := AList.update k (pinCount p k - 1) (pinCountByAT p)\<rparr>)"

definition pinSessionLease :: "u16 \<Rightarrow> u8 \<Rightarrow> u8 \<Rightarrow> int \<Rightarrow> ipPool \<Rightarrow> ipPool" where
  "pinSessionLease net nd sid now p =
    (if \<not> validATEndpoint net nd \<or> sid = 0 then p
     else
       let k = atKey net nd;
           add = (\<lambda>p. p\<lparr>pinBySession := AList.update sid k (pinBySession p),
                        pinCountByAT := AList.update k (pinCount p k + 1) (pinCountByAT p),
                        pinSeenByAT := AList.update k now (pinSeenByAT p)\<rparr>) in
       case map_of (pinBySession p) sid of
         Some prev \<Rightarrow> if prev = k then p\<lparr>pinSeenByAT := AList.update k now (pinSeenByAT p)\<rparr> else add (dropPin prev p)
       | None \<Rightarrow> add p)"

definition unpinSessionLease :: "u8 \<Rightarrow> ipPool \<Rightarrow> ipPool" where
  "unpinSessionLease sid p =
    (if sid = 0 then p
     else case map_of (pinBySession p) sid of
       None \<Rightarrow> p
     | Some k \<Rightarrow> dropPin k (p\<lparr>pinBySession := AList.delete sid (pinBySession p)\<rparr>))"

definition markSessionActivity :: "u8 \<Rightarrow> int \<Rightarrow> ipPool \<Rightarrow> ipPool" where
  "markSessionActivity sid now p =
    (if sid = 0 then p
     else case map_of (pinBySession p) sid of
       None \<Rightarrow> p
     | Some k \<Rightarrow> p\<lparr>pinSeenByAT := AList.update k now (pinSeenByAT p)\<rparr>)"

text \<open>One turn of the loop of \<open>cleanupExpiredPins\<close>, and the loop.\<close>

definition cleanupPin :: "int \<Rightarrow> at_endpoint \<times> int \<Rightarrow> ipPool \<Rightarrow> ipPool" where
  "cleanupPin now = (\<lambda>(k, seen) p.
    if now - seen \<le> pinnedLeaseHardTimeout then p
    else p\<lparr>pinCountByAT := AList.delete k (pinCountByAT p), pinSeenByAT := AList.delete k (pinSeenByAT p),
           pinBySession := filter (\<lambda>(sid, k'). k' \<noteq> k) (pinBySession p)\<rparr>)"

definition cleanupExpiredPins :: "int \<Rightarrow> ipPool \<Rightarrow> ipPool" where
  "cleanupExpiredPins now p = fold (cleanupPin now) (pinSeenByAT p) p"

definition isPinnedLocked :: "ipPool \<Rightarrow> u16 \<Rightarrow> u8 \<Rightarrow> bool" where
  "isPinnedLocked p net nd \<longleftrightarrow> validATEndpoint net nd \<and> pinCount p (atKey net nd) > 0"

section \<open>Expiry\<close>

definition expireSlot :: "int \<Rightarrow> ipPool \<Rightarrow> leaseEntry \<Rightarrow> leaseEntry" where
  "expireSlot cutoff p e =
    (if used e \<and> lastSeen e < cutoff \<and> \<not> isPinnedLocked p (atNetwork e) (atNode e) then emptyLease else e)"

definition expireDHCP :: "int \<Rightarrow> at_endpoint \<times> int \<Rightarrow> ipPool \<Rightarrow> ipPool" where
  "expireDHCP cutoff = (\<lambda>((h, l, nd), t) p.
    if t < cutoff \<and> \<not> isPinnedLocked p (be16 h l) nd
    then p\<lparr>dhcpByIP := (case map_of (dhcpByAT p) (h, l, nd) of Some n \<Rightarrow> AList.delete n (dhcpByIP p) | None \<Rightarrow> dhcpByIP p),
           dhcpByAT := AList.delete (h, l, nd) (dhcpByAT p), dhcpSeen := AList.delete (h, l, nd) (dhcpSeen p)\<rparr>
    else p)"

definition expireLeases :: "int \<Rightarrow> ipPool \<Rightarrow> ipPool" where
  "expireLeases now p =
    (let cutoff = now - leaseDuration;
         p = cleanupExpiredPins now p;
         p = p\<lparr>entries := (case entries p of [] \<Rightarrow> [] | e # es \<Rightarrow> e # map (expireSlot cutoff p) es)\<rparr> in
     fold (expireDHCP cutoff) (dhcpSeen p) p)"

section \<open>Pins count sessions\<close>

definition sessionsOf :: "at_endpoint \<Rightarrow> (u8, at_endpoint) gomap \<Rightarrow> nat" where
  "sessionsOf k m = length (filter (\<lambda>(sid, k'). k' = k) m)"

lemma sessionsOf_delete:
  "wf_gomap m \<Longrightarrow> map_of m sid = Some prev \<Longrightarrow>
   sessionsOf k m = sessionsOf k (AList.delete sid m) + (if prev = k then 1 else 0)"
proof (induction m)
  case (Cons a m)
  show ?case
  proof (cases "fst a = sid")
    case True
    then have "map_of m sid = None" using Cons.prems by (auto simp: map_of_eq_None_iff)
    then have "AList.delete sid m = m" by (rule map_of_eq_None_delete)
    then show ?thesis using True Cons.prems by (cases a) (auto simp: sessionsOf_def)
  next
    case False
    then show ?thesis using Cons by (cases a) (auto simp: sessionsOf_def)
  qed
qed simp

lemma sessionsOf_update:
  "wf_gomap m \<Longrightarrow> sessionsOf k (AList.update sid k' m) = sessionsOf k (AList.delete sid m) + (if k' = k then 1 else 0)"
proof (induction m)
  case (Cons a m)
  show ?case
  proof (cases "fst a = sid")
    case True
    then have "map_of m sid = None" using Cons.prems by (auto simp: map_of_eq_None_iff)
    then have "AList.delete sid m = m" by (rule map_of_eq_None_delete)
    then show ?thesis using True by (cases a) (auto simp: sessionsOf_def)
  next
    case False
    then show ?thesis using Cons by (cases a) (auto simp: sessionsOf_def)
  qed
qed (simp add: sessionsOf_def)

lemma sessionsOf_filter: "sessionsOf k (filter (\<lambda>(sid, k'). k' \<noteq> x) m) = (if k = x then 0 else sessionsOf k m)"
  by (induction m) (auto simp: sessionsOf_def)

lemma sessionsOf_pos:
  assumes "wf_gomap m"
  shows "0 < sessionsOf k m \<longleftrightarrow> (\<exists>sid. map_of m sid = Some k)"
proof -
  have "0 < sessionsOf k m \<longleftrightarrow> (\<exists>sid. (sid, k) \<in> set m)"
    by (auto simp: sessionsOf_def filter_empty_conv)
  also have "\<dots> \<longleftrightarrow> (\<exists>sid. map_of m sid = Some k)"
    using wf_gomap_mem_iff [OF assms] by blast
  finally show ?thesis .
qed

definition pins_ok :: "ipPool \<Rightarrow> bool" where
  "pins_ok p \<longleftrightarrow> wf_gomap (pinBySession p) \<and> wf_gomap (pinSeenByAT p) \<and>
     (\<forall>k. map_of (pinCountByAT p) k =
        (if sessionsOf k (pinBySession p) = 0 then None else Some (int (sessionsOf k (pinBySession p))))) \<and>
     (\<forall>k. map_of (pinSeenByAT p) k = None \<longleftrightarrow> sessionsOf k (pinBySession p) = 0)"

lemma pins_ok_count: "pins_ok p \<Longrightarrow> pinCount p k = int (sessionsOf k (pinBySession p))"
  by (simp add: pins_ok_def pinCount_def)

lemma pins_ok_dropPin:
  assumes ok: "pins_ok p" and sid: "map_of (pinBySession p) sid = Some k"
  shows "pins_ok (dropPin k (p\<lparr>pinBySession := AList.delete sid (pinBySession p)\<rparr>))"
proof -
  have wf: "wf_gomap (pinBySession p)" using ok by (simp add: pins_ok_def)
  have n: "sessionsOf x (pinBySession p) = sessionsOf x (AList.delete sid (pinBySession p)) + (if k = x then 1 else 0)" for x
    by (rule sessionsOf_delete [OF wf sid])
  have c: "pinCount (p\<lparr>pinBySession := m\<rparr>) k = int (sessionsOf k (AList.delete sid (pinBySession p))) + 1" for m
    using pins_ok_count [OF ok, of k] n [of k] by (simp add: pinCount_def)
  show ?thesis
    using ok n unfolding dropPin_def c by (auto simp: pins_ok_def)
qed


lemma pins_ok_pinSession:
  assumes ok: "pins_ok p"
  shows "pins_ok (pinSessionLease net nd sid now p)"
proof -
  let ?k = "atKey net nd"
  have touch: "pins_ok (p\<lparr>pinSeenByAT := AList.update k t (pinSeenByAT p)\<rparr>)" if "map_of (pinBySession p) sid = Some k" for k t
  proof -
    have "0 < sessionsOf k (pinBySession p)" using that ok sessionsOf_pos [of "pinBySession p" k] by (auto simp: pins_ok_def)
    then show ?thesis using ok by (auto simp: pins_ok_def)
  qed
  have add: "pins_ok (q\<lparr>pinBySession := AList.update sid k m, pinCountByAT := AList.update k (pinCount q k + 1) (pinCountByAT q),
        pinSeenByAT := AList.update k now (pinSeenByAT q)\<rparr>)"
    if q: "pins_ok q" "pinBySession q = AList.delete sid m" "wf_gomap m" for q k m
    using q pins_ok_count [OF q(1), of k] sessionsOf_update [OF q(3), of _ sid k] by (auto simp: pins_ok_def)
  show ?thesis
  proof (cases "map_of (pinBySession p) sid")
    case None
    then have "pinBySession p = AList.delete sid (pinBySession p)" by (simp add: map_of_eq_None_delete)
    from add [OF ok this] ok None show ?thesis by (simp add: pinSessionLease_def Let_def pins_ok_def)
  next
    case (Some prev)
    have "dropPin prev (p\<lparr>pinBySession := m\<rparr>) = (dropPin prev p)\<lparr>pinBySession := m\<rparr>" for m
      by (simp add: dropPin_def pinCount_def)
    with pins_ok_dropPin [OF ok Some] have q: "pins_ok ((dropPin prev p)\<lparr>pinBySession := AList.delete sid (pinBySession p)\<rparr>)" by simp
    have same: "pinBySession (dropPin prev p) = pinBySession p" by (simp add: dropPin_def)
    from add [OF q _, of "pinBySession p" ?k] ok have
      "pins_ok ((dropPin prev p)\<lparr>pinBySession := AList.update sid ?k (pinBySession p),
        pinCountByAT := AList.update ?k (pinCount (dropPin prev p) ?k + 1) (pinCountByAT (dropPin prev p)),
        pinSeenByAT := AList.update ?k now (pinSeenByAT (dropPin prev p))\<rparr>)"
      by (simp add: pins_ok_def pinCount_def)
    with touch [OF Some] ok Some same show ?thesis by (auto simp: pinSessionLease_def Let_def)
  qed
qed

lemma pins_ok_unpin: "pins_ok p \<Longrightarrow> pins_ok (unpinSessionLease sid p)"
  by (simp add: unpinSessionLease_def pins_ok_dropPin split: option.split)

lemma pins_ok_mark:
  assumes ok: "pins_ok p"
  shows "pins_ok (markSessionActivity sid now p)"
proof (cases "map_of (pinBySession p) sid")
  case (Some k)
  then have "0 < sessionsOf k (pinBySession p)" using ok sessionsOf_pos [of "pinBySession p" k] by (auto simp: pins_ok_def)
  then show ?thesis using ok Some by (auto simp: markSessionActivity_def pins_ok_def)
qed (simp add: markSessionActivity_def ok)

lemma pins_ok_cleanupPin: "pins_ok p \<Longrightarrow> pins_ok (cleanupPin now a p)"
  by (cases a) (auto simp: cleanupPin_def pins_ok_def sessionsOf_filter)

text \<open>The clean-up forgets exactly the endpoints whose sessions have been idle too long.\<close>

lemma cleanupPin_simps [simp]:
  "map_of (pinSeenByAT (cleanupPin now (k', t) p)) k =
     (if k = k' \<and> \<not> now - t \<le> pinnedLeaseHardTimeout then None else map_of (pinSeenByAT p) k)"
  "entries (cleanupPin now a p) = entries p" "base (cleanupPin now a p) = base p"
  by (cases a; simp add: cleanupPin_def)+

lemma cleanup_fold:
  "entries (fold (cleanupPin now) xs p) = entries p" "base (fold (cleanupPin now) xs p) = base p"
  by (induction xs arbitrary: p) auto

lemma cleanup_seen:
  "wf_gomap xs \<Longrightarrow> map_of (pinSeenByAT (fold (cleanupPin now) xs p)) k =
      (case map_of xs k of Some t \<Rightarrow> if now - t \<le> pinnedLeaseHardTimeout then map_of (pinSeenByAT p) k else None
       | None \<Rightarrow> map_of (pinSeenByAT p) k)"
proof (induction xs arbitrary: p)
  case (Cons a xs)
  obtain k' t where a: "a = (k', t)" by fastforce
  have "map_of xs k' = None" using Cons.prems by (auto simp: a map_of_eq_None_iff)
  then show ?case using Cons.IH [of "cleanupPin now a p"] Cons.prems by (auto simp: a split: option.split)
qed simp

section \<open>Leases\<close>

definition leases_ok :: "ipPool \<Rightarrow> bool" where
  "leases_ok p \<longleftrightarrow> entries p \<noteq> [] \<and> used (entries p ! 0) \<and> atNetwork (entries p ! 0) = 0 \<and>
     unat (base p) + length (entries p) < 2 ^ 32 \<and>
     (\<forall>i. 1 \<le> i \<and> i < length (entries p) \<and> used (entries p ! i) \<longrightarrow>
        validATEndpoint (atNetwork (entries p ! i)) (atNode (entries p ! i))) \<and>
     (\<forall>i j net nd. 1 \<le> i \<and> i < length (entries p) \<and> 1 \<le> j \<and> j < length (entries p) \<and>
        heldBy net nd (entries p ! i) \<and> heldBy net nd (entries p ! j) \<longrightarrow> i = j)"

lemma leases_ok_unique:
  assumes "leases_ok p" "1 \<le> i" "i < length (entries p)" "1 \<le> j" "j < length (entries p)"
    "heldBy net nd (entries p ! i)" "heldBy net nd (entries p ! j)"
  shows "i = j"
  using assms unfolding leases_ok_def by blast

lemma firstSlot_Some:
  "firstSlot P p = Some i \<Longrightarrow> 1 \<le> i \<and> i < length (entries p) \<and> P (entries p ! i)"
  by (auto simp: firstSlot_def find_Some_iff)

lemma firstSlot_None: "firstSlot P p = None \<longleftrightarrow> (\<forall>i. 1 \<le> i \<and> i < length (entries p) \<longrightarrow> \<not> P (entries p ! i))"
  by (auto simp: firstSlot_def find_None_iff)

lemma requestedSlot_Some:
  "requestedSlot p req = Some i \<Longrightarrow> 1 \<le> i \<and> i < length (entries p) \<and> \<not> used (entries p ! i) \<and>
     (\<exists>v. req = Some v \<and> ipToIndex p v = Some i)"
  by (auto simp: requestedSlot_def ipToIndex_def Let_def split: option.splits if_splits)

lemma ipToIndex_indexToIP:
  assumes "unat (base p) + length (entries p) < 2 ^ 32" "i < length (entries p)"
  shows "ipToIndex p (indexToIP p i) = Some i"
proof -
  have i: "i < 2 ^ 32" using assms by linarith
  have u: "unat (base p + word_of_nat i + 1) = unat (base p) + i + 1"
    using assms by (simp add: unat_word_ariths unat_of_nat take_bit_eq_mod)
  then have "\<not> indexToIP p i \<le> base p" by (simp add: indexToIP_def word_le_nat_alt)
  moreover have "unat (indexToIP p i - base p - 1) = i"
    using i by (simp add: indexToIP_def unat_of_nat take_bit_eq_mod)
  ultimately show ?thesis using assms(2) by (simp add: ipToIndex_def)
qed

lemma indexToIP_ipToIndex: "ipToIndex p v = Some i \<Longrightarrow> v = indexToIP p i \<and> i < length (entries p)"
  by (auto simp: ipToIndex_def indexToIP_def Let_def split: if_splits)

lemma setSlot_simps [simp]:
  "length (entries (setSlot i e p)) = length (entries p)" "base (setSlot i e p) = base p"
  "indexToIP (setSlot i e p) j = indexToIP p j" "ipToIndex (setSlot i e p) v = ipToIndex p v"
  "i < length (entries p) \<Longrightarrow> entries (setSlot i e p) ! j = (if j = i then e else entries p ! j)"
  "dhcpByIP (setSlot i e p) = dhcpByIP p" "pins_ok (setSlot i e p) = pins_ok p"
  by (auto simp: setSlot_def indexToIP_def ipToIndex_def pins_ok_def nth_list_update)

text \<open>Who holds an address by a static lease.\<close>

definition staticHolder :: "ipPool \<Rightarrow> u32 \<Rightarrow> (u16 \<times> u8) option" where
  "staticHolder p v =
    (case ipToIndex p v of
       Some i \<Rightarrow> (let e = entries p ! i in
                  if used e \<and> validATEndpoint (atNetwork e) (atNode e) then Some (atNetwork e, atNode e) else None)
     | None \<Rightarrow> None)"

lemma lookupByIP_eq:
  "lookupByIP p v = (case staticHolder p v of Some r \<Rightarrow> Some r | None \<Rightarrow>
     case map_of (dhcpByIP p) v of
       Some (h, l, nd) \<Rightarrow> if validATEndpoint (be16 h l) nd then Some (be16 h l, nd) else None
     | None \<Rightarrow> None)"
  by (simp only: lookupByIP_def staticHolder_def)

lemma staticHolder_iff:
  assumes "leases_ok p"
  shows "staticHolder p v = Some (net, nd) \<longleftrightarrow>
    validATEndpoint net nd \<and> (\<exists>i. 1 \<le> i \<and> i < length (entries p) \<and> v = indexToIP p i \<and> heldBy net nd (entries p ! i))"
proof
  assume h: "staticHolder p v = Some (net, nd)"
  then obtain i where i: "ipToIndex p v = Some i" "heldBy net nd (entries p ! i)" "validATEndpoint net nd"
    by (auto simp: staticHolder_def heldBy_def Let_def split: option.splits if_splits)
  have "i \<noteq> 0" using i assms by (auto simp: leases_ok_def heldBy_def validATEndpoint_def)
  with i indexToIP_ipToIndex [OF i(1)] show "validATEndpoint net nd \<and>
      (\<exists>i. 1 \<le> i \<and> i < length (entries p) \<and> v = indexToIP p i \<and> heldBy net nd (entries p ! i))" by (auto simp: Suc_le_eq)
next
  assume "validATEndpoint net nd \<and> (\<exists>i. 1 \<le> i \<and> i < length (entries p) \<and> v = indexToIP p i \<and> heldBy net nd (entries p ! i))"
  then show "staticHolder p v = Some (net, nd)"
    using assms by (auto simp: staticHolder_def ipToIndex_indexToIP leases_ok_def heldBy_def Let_def)
qed

text \<open>Giving a slot to an endpoint that holds none, or refreshing a lease, keeps the leases in order.\<close>

lemma leases_ok_setSlot:
  assumes ok: "leases_ok p" and i: "1 \<le> i" "i < length (entries p)" and e: "heldBy net nd e" "validATEndpoint net nd"
    and only: "\<And>j. 1 \<le> j \<Longrightarrow> j < length (entries p) \<Longrightarrow> j \<noteq> i \<Longrightarrow> \<not> heldBy net nd (entries p ! j)"
  shows "leases_ok (setSlot i e p)"
proof -
  let ?q = "setSlot i e p"
  have zero: "entries ?q ! 0 = entries p ! 0" using i by simp
  have held: "heldBy net' nd' e \<longleftrightarrow> net' = net \<and> nd' = nd" for net' nd' using e by (auto simp: heldBy_def)
  have valid: "validATEndpoint (atNetwork (entries ?q ! j)) (atNode (entries ?q ! j))"
    if "1 \<le> j" "j < length (entries p)" "used (entries ?q ! j)" for j
    using that i e ok by (auto simp: leases_ok_def heldBy_def)
  have unique: "j = k" if "1 \<le> j" "j < length (entries p)" "1 \<le> k" "k < length (entries p)"
    "heldBy net' nd' (entries ?q ! j)" "heldBy net' nd' (entries ?q ! k)" for j k net' nd'
  proof (cases "j = i \<or> k = i")
    case True
    then show ?thesis using that i only held by (auto split: if_splits)
  next
    case False
    then have "heldBy net' nd' (entries p ! j)" "heldBy net' nd' (entries p ! k)" using that(5,6) i by auto
    then show ?thesis by (rule leases_ok_unique [OF ok that(1-4)])
  qed
  have ne: "entries ?q \<noteq> []" using i by (metis setSlot_simps(1) length_0_conv not_less_zero)
  show ?thesis
    unfolding leases_ok_def setSlot_simps(1,2) zero
    using ok ne valid unique unfolding leases_ok_def by blast
qed


lemma assign_cases:
  assumes ok: "leases_ok p" and a: "assign req net nd now p = (Inr ip, p')"
  obtains i where "1 \<le> i" "i < length (entries p)" "ip = indexToIP p i" "validATEndpoint net nd"
    "p' = setSlot i \<lparr>used = True, atNetwork = net, atNode = nd, lastSeen = now\<rparr> p"
    "heldBy net nd (entries p ! i) \<or> \<not> used (entries p ! i) \<and>
       (\<forall>j. 1 \<le> j \<and> j < length (entries p) \<longrightarrow> \<not> heldBy net nd (entries p ! j))"
proof (cases "firstSlot (heldBy net nd) p")
  case (Some i)
  have v: "validATEndpoint net nd" using a by (auto simp: assign_def split: if_splits)
  note s = firstSlot_Some [OF Some]
  have "(entries p ! i)\<lparr>lastSeen := now\<rparr> = \<lparr>used = True, atNetwork = net, atNode = nd, lastSeen = now\<rparr>"
    using s by (simp add: heldBy_def)
  then show thesis using that [of i] a v s Some by (simp add: assign_def)
next
  case None
  have v: "validATEndpoint net nd" using a by (auto simp: assign_def split: if_splits)
  have none: "\<forall>j. 1 \<le> j \<and> j < length (entries p) \<longrightarrow> \<not> heldBy net nd (entries p ! j)" using None firstSlot_None by blast
  obtain i where "requestedSlot p req = Some i \<or> requestedSlot p req = None \<and> firstSlot (\<lambda>e. \<not> used e) p = Some i"
    "ip = indexToIP p i" "p' = setSlot i \<lparr>used = True, atNetwork = net, atNode = nd, lastSeen = now\<rparr> p"
    using a v None by (auto simp: assign_def Let_def split: option.splits)
  then show thesis using that [of i] v none requestedSlot_Some firstSlot_Some by blast
qed

lemma leases_ok_assign: "leases_ok p \<Longrightarrow> leases_ok (snd (assign req net nd now p))"
proof (cases "fst (assign req net nd now p)")
  case (Inl er)
  then have "snd (assign req net nd now p) = p" by (auto simp: assign_def Let_def split: option.splits if_splits)
  then show "leases_ok p \<Longrightarrow> ?thesis" by simp
next
  case (Inr ip)
  assume ok: "leases_ok p"
  obtain p' where a: "assign req net nd now p = (Inr ip, p')" using Inr by (metis prod.collapse)
  from ok a show ?thesis
  proof (cases rule: assign_cases)
    case (1 i)
    have "leases_ok (setSlot i \<lparr>used = True, atNetwork = net, atNode = nd, lastSeen = now\<rparr> p)"
      using 1 leases_ok_unique [OF ok _ _ 1(1,2)] by (intro leases_ok_setSlot [OF ok 1(1,2), of net nd]) (auto simp: heldBy_def)
    then show ?thesis by (simp add: a 1(5))
  qed
qed


lemma leases_ok_cong: "entries q = entries p \<Longrightarrow> base q = base p \<Longrightarrow> leases_ok q = leases_ok p"
  by (simp add: leases_ok_def)

lemma leases_ok_updateSeen:
  assumes ok: "leases_ok p"
  shows "leases_ok (updateSeen net nd now p)"
proof -
  let ?q = "case firstSlot (heldBy net nd) p of
      Some i \<Rightarrow> setSlot i ((entries p ! i)\<lparr>lastSeen := now\<rparr>) p | None \<Rightarrow> p"
  have "leases_ok ?q"
  proof (cases "firstSlot (heldBy net nd) p")
    case (Some i)
    note s = firstSlot_Some [OF Some]
    have "validATEndpoint net nd" using ok s by (auto simp: leases_ok_def heldBy_def)
    then have "leases_ok (setSlot i ((entries p ! i)\<lparr>lastSeen := now\<rparr>) p)"
      using s leases_ok_unique [OF ok, of _ i] by (intro leases_ok_setSlot [OF ok, of i net nd]) (auto simp: heldBy_def)
    then show ?thesis by (simp add: Some)
  qed (simp add: ok)
  then show ?thesis using ok by (simp add: updateSeen_def Let_def) (simp add: leases_ok_def)
qed

lemma expireDHCP_fold [simp]:
  "entries (fold (expireDHCP cutoff) xs p) = entries p" "base (fold (expireDHCP cutoff) xs p) = base p"
  "pinBySession (fold (expireDHCP cutoff) xs p) = pinBySession p" "pinSeenByAT (fold (expireDHCP cutoff) xs p) = pinSeenByAT p"
  "pinCountByAT (fold (expireDHCP cutoff) xs p) = pinCountByAT p"
  by (induction xs arbitrary: p) (auto simp: expireDHCP_def split: prod.split)

lemma entries_expireLeases:
  "entries (expireLeases now p) =
    (case entries p of [] \<Rightarrow> [] | e # es \<Rightarrow> e # map (expireSlot (now - leaseDuration) (cleanupExpiredPins now p)) es)"
  "base (expireLeases now p) = base p" "pins_ok (expireLeases now p) = pins_ok (cleanupExpiredPins now p)"
  by (simp_all add: expireLeases_def Let_def cleanupExpiredPins_def cleanup_fold pins_ok_def split: list.split)

lemma nth_expireLeases:
  "i < length (entries p) \<Longrightarrow> entries (expireLeases now p) ! i =
     (if i = 0 then entries p ! 0 else expireSlot (now - leaseDuration) (cleanupExpiredPins now p) (entries p ! i))"
  by (cases "entries p") (auto simp: entries_expireLeases nth_Cons')

lemma length_expireLeases [simp]: "length (entries (expireLeases now p)) = length (entries p)"
  by (cases "entries p") (simp_all add: entries_expireLeases)

lemma heldBy_expireSlot: "heldBy net nd (expireSlot c q e) \<Longrightarrow> heldBy net nd e"
  by (auto simp: expireSlot_def emptyLease_def heldBy_def split: if_splits)

lemma leases_ok_expire:
  assumes ok: "leases_ok p"
  shows "leases_ok (expireLeases now p)"
proof -
  let ?q = "expireLeases now p"
  have zero: "entries ?q ! 0 = entries p ! 0" and ne: "entries ?q \<noteq> []"
    using ok by (auto simp: leases_ok_def nth_expireLeases simp flip: length_greater_0_conv)
  have valid: "validATEndpoint (atNetwork (entries ?q ! i)) (atNode (entries ?q ! i))"
    if "1 \<le> i" "i < length (entries p)" "used (entries ?q ! i)" for i
    using that ok by (auto simp: nth_expireLeases expireSlot_def emptyLease_def leases_ok_def split: if_splits)
  have unique: "i = j" if "1 \<le> i" "i < length (entries p)" "1 \<le> j" "j < length (entries p)"
    "heldBy net nd (entries ?q ! i)" "heldBy net nd (entries ?q ! j)" for i j net nd
  proof -
    have "heldBy net nd (entries p ! i)" "heldBy net nd (entries p ! j)"
      using that heldBy_expireSlot by (auto simp: nth_expireLeases split: if_splits)
    then show ?thesis by (rule leases_ok_unique [OF ok that(1-4)])
  qed
  show ?thesis
    unfolding leases_ok_def length_expireLeases entries_expireLeases(2) zero
    using ok ne valid unique unfolding leases_ok_def by blast
qed

section \<open>Runs\<close>

datatype pool_op = Assign "u32 option" u16 u8 int | Seen u16 u8 int | DHCP u32 u16 u8 int
  | Pin u16 u8 u8 int | Unpin u8 | Activity u8 int | Expire int

fun pool_perform :: "pool_op \<Rightarrow> ipPool \<Rightarrow> ipPool" where
  "pool_perform (Assign req net nd now) p = snd (assign req net nd now p)"
| "pool_perform (Seen net nd now) p = updateSeen net nd now p"
| "pool_perform (DHCP ip net nd now) p = registerDHCP ip net nd now p"
| "pool_perform (Pin net nd sid now) p = pinSessionLease net nd sid now p"
| "pool_perform (Unpin sid) p = unpinSessionLease sid p"
| "pool_perform (Activity sid now) p = markSessionActivity sid now p"
| "pool_perform (Expire now) p = expireLeases now p"

definition pool_inv :: "ipPool \<Rightarrow> bool" where
  "pool_inv p \<longleftrightarrow> leases_ok p \<and> pins_ok p"

lemma pin_ops_keep [simp]:
  "entries (dropPin k p) = entries p" "base (dropPin k p) = base p"
  "entries (pinSessionLease net nd sid now p) = entries p" "base (pinSessionLease net nd sid now p) = base p"
  "entries (unpinSessionLease sid p) = entries p" "base (unpinSessionLease sid p) = base p"
  "entries (markSessionActivity sid now p) = entries p" "base (markSessionActivity sid now p) = base p"
  "entries (registerDHCP ip net nd now p) = entries p" "base (registerDHCP ip net nd now p) = base p"
  "pins_ok (registerDHCP ip net nd now p) = pins_ok p"
  by (simp_all add: dropPin_def pinSessionLease_def unpinSessionLease_def markSessionActivity_def registerDHCP_def Let_def
      pins_ok_def split: option.split)

lemma pins_ok_lease_ops [simp]:
  "pins_ok (snd (assign req net nd now p)) = pins_ok p" "pins_ok (updateSeen net nd now p) = pins_ok p"
proof -
  show "pins_ok (snd (assign req net nd now p)) = pins_ok p"
    by (simp add: assign_def Let_def split: option.split)
  have "pins_ok (q\<lparr>dhcpSeen := m\<rparr>) = pins_ok q" for q m by (simp add: pins_ok_def)
  then show "pins_ok (updateSeen net nd now p) = pins_ok p"
    by (simp add: updateSeen_def Let_def split: option.split)
qed

lemma pins_ok_cleanup: "pins_ok p \<Longrightarrow> pins_ok (fold (cleanupPin now) xs p)"
  by (induction xs arbitrary: p) (auto intro: pins_ok_cleanupPin)

lemma pool_inv_perform: "pool_inv p \<Longrightarrow> pool_inv (pool_perform op p)"
proof (cases op)
  case (Expire now)
  then show "pool_inv p \<Longrightarrow> ?thesis"
    by (simp add: pool_inv_def leases_ok_expire entries_expireLeases(3) cleanupExpiredPins_def pins_ok_cleanup)
qed (auto simp: pool_inv_def leases_ok_assign leases_ok_updateSeen pins_ok_pinSession pins_ok_unpin pins_ok_mark
    cong: leases_ok_cong intro: leases_ok_cong [THEN iffD2])


definition subnet_ok :: "u32 \<Rightarrow> u32 \<Rightarrow> bool" where
  "subnet_ok net msk \<longleftrightarrow> unat net + max 1 (unat (NOT msk)) < 2 ^ 32"

definition pool_after :: "u32 \<Rightarrow> u32 \<Rightarrow> pool_op list \<Rightarrow> ipPool" where
  "pool_after net msk ops = fold pool_perform ops (newIPPool net msk)"

lemma pool_inv_new:
  assumes "subnet_ok net msk"
  shows "pool_inv (newIPPool net msk)"
proof -
  have le: "1 \<le> nat (if int m - 1 < 1 then 1 else int m - 1) \<and> nat (if int m - 1 < 1 then 1 else int m - 1) \<le> max 1 m" for m
    by auto
  obtain n where es: "entries (newIPPool net msk) = (replicate n emptyLease)[0 := emptyLease\<lparr>used := True\<rparr>]"
    and n: "1 \<le> n" "n \<le> max 1 (unat (NOT msk))"
    using le [of "unat (NOT msk)"] by (simp only: newIPPool_def Let_def ipPool.select_convs)
  have b: "base (newIPPool net msk) = net" by (simp add: newIPPool_def Let_def)
  have cell: "(replicate n emptyLease)[0 := e] ! i = (if i = 0 then e else emptyLease)" if "i < n" for e i
    using that by (simp add: nth_list_update)
  have size: "unat net + n < 2 ^ 32" using n assms unfolding subnet_ok_def by linarith
  have "pins_ok (newIPPool net msk)" by (simp add: newIPPool_def Let_def pins_ok_def sessionsOf_def)
  moreover have "leases_ok (newIPPool net msk)"
    unfolding leases_ok_def es b length_list_update length_replicate
    using n(1) size by (auto simp: cell emptyLease_def heldBy_def)
  ultimately show ?thesis by (simp add: pool_inv_def)
qed

lemma pool_after_inv: "subnet_ok net msk \<Longrightarrow> pool_inv (pool_after net msk ops)"
proof -
  have "pool_inv p \<Longrightarrow> pool_inv (fold pool_perform ops p)" for p
    by (induction ops arbitrary: p) (auto intro: pool_inv_perform)
  then show "subnet_ok net msk \<Longrightarrow> ?thesis" by (simp add: pool_after_def pool_inv_new)
qed


lemma assign_granted:
  assumes ok: "leases_ok p" and a: "assign req n nd now p = (Inr ip, p')"
  shows "lookupByIP p' ip = Some (n, nd) \<and> staticHolder p ip \<in> {None, Some (n, nd)} \<and>
    (\<forall>v. v \<noteq> ip \<longrightarrow> lookupByIP p' v = lookupByIP p v) \<and> (\<forall>v. staticHolder p' v = Some (n, nd) \<longrightarrow> v = ip)"
  using ok a
proof (cases rule: assign_cases)
  case (1 i)
  let ?e = "\<lparr>used = True, atNetwork = n, atNode = nd, lastSeen = now\<rparr>"
  have ok': "leases_ok p'" using leases_ok_assign [OF ok, of req n nd now] a by simp
  have bound: "unat (base p) + length (entries p) < 2 ^ 32" using ok by (simp add: leases_ok_def)
  have e: "entries p' ! i = ?e" "length (entries p') = length (entries p)" "indexToIP p' = indexToIP p" "dhcpByIP p' = dhcpByIP p"
    using 1 by auto
  have mine: "staticHolder p' ip = Some (n, nd)"
    unfolding staticHolder_iff [OF ok'] e(2,3) using 1 e(1) by (auto simp: heldBy_def)
  then have "lookupByIP p' ip = Some (n, nd)" unfolding lookupByIP_eq by simp
  moreover have "staticHolder p ip \<in> {None, Some (n, nd)}"
    using 1 ipToIndex_indexToIP [OF bound 1(2)] by (auto simp: staticHolder_def heldBy_def Let_def)
  moreover have "lookupByIP p' v = lookupByIP p v" if "v \<noteq> ip" for v
  proof -
    have "ipToIndex p v \<noteq> Some i" using that indexToIP_ipToIndex [of p v i] 1(3) by auto
    then have "staticHolder p' v = staticHolder p v" using 1(2,5) by (auto simp: staticHolder_def split: option.split)
    then show ?thesis unfolding lookupByIP_eq e(4) by simp
  qed
  moreover have "v = ip" if "staticHolder p' v = Some (n, nd)" for v
    using that mine leases_ok_unique [OF ok'] unfolding staticHolder_iff [OF ok'] by blast
  ultimately show ?thesis by blast
qed

text \<open>
  C40. Address assignment: whatever happened before, an endpoint that is given an address becomes its
  holder, and so does nobody else: the address was free or already its own, no other address
  changes hands, and the endpoint holds no second one. An endpoint without an address gets the
  one it asks for when that is free. Assignment fails only for an invalid endpoint, or when the
  endpoint holds nothing and every client address is taken, and then nothing changes.
\<close>

theorem macip_assign:
  assumes subnet: "subnet_ok net msk" and p: "p = pool_after net msk ops" and a: "assign req n nd now p = (res, p')"
  shows "(res = Inl (InvalidEndpoint n nd) \<longleftrightarrow> \<not> validATEndpoint n nd) \<and>
    (res = Inl NoFreeAddress \<longleftrightarrow> validATEndpoint n nd \<and> (\<forall>v. staticHolder p v \<noteq> Some (n, nd)) \<and>
       requestedSlot p req = None \<and> (\<forall>i. 1 \<le> i \<and> i < length (entries p) \<longrightarrow> used (entries p ! i))) \<and>
    (\<forall>er. res = Inl er \<longrightarrow> p' = p) \<and>
    (\<forall>ip. res = Inr ip \<longrightarrow>
       lookupByIP p' ip = Some (n, nd) \<and> staticHolder p ip \<in> {None, Some (n, nd)} \<and>
       (\<forall>v. v \<noteq> ip \<longrightarrow> lookupByIP p' v = lookupByIP p v) \<and>
       (\<forall>v. staticHolder p' v = Some (n, nd) \<longrightarrow> v = ip)) \<and>
    (\<forall>i. validATEndpoint n nd \<and> (\<forall>v. staticHolder p v \<noteq> Some (n, nd)) \<and> requestedSlot p req = Some i \<longrightarrow>
       req = Some (indexToIP p i) \<and> res = Inr (indexToIP p i))"
proof -
  have ok: "leases_ok p" using pool_after_inv [OF subnet] p by (simp add: pool_inv_def)
  have held: "firstSlot (heldBy n nd) p = None \<longleftrightarrow> (\<forall>v. staticHolder p v \<noteq> Some (n, nd))" if "validATEndpoint n nd"
    unfolding firstSlot_None staticHolder_iff [OF ok] using that by blast
  have free: "firstSlot (\<lambda>e. \<not> used e) p = None \<longleftrightarrow> (\<forall>i. 1 \<le> i \<and> i < length (entries p) \<longrightarrow> used (entries p ! i))"
    unfolding firstSlot_None by blast
  have errors: "(res = Inl (InvalidEndpoint n nd) \<longleftrightarrow> \<not> validATEndpoint n nd)" "(\<forall>er. res = Inl er \<longrightarrow> p' = p)"
    using a by (auto simp: assign_def Let_def split: option.splits if_splits)
  have full: "res = Inl NoFreeAddress \<longleftrightarrow> validATEndpoint n nd \<and> firstSlot (heldBy n nd) p = None \<and>
      requestedSlot p req = None \<and> firstSlot (\<lambda>e. \<not> used e) p = None"
    using a by (auto simp: assign_def Let_def split: option.splits if_splits)
  have granted: "lookupByIP p' ip = Some (n, nd) \<and> staticHolder p ip \<in> {None, Some (n, nd)} \<and>
      (\<forall>v. v \<noteq> ip \<longrightarrow> lookupByIP p' v = lookupByIP p v) \<and> (\<forall>v. staticHolder p' v = Some (n, nd) \<longrightarrow> v = ip)"
    if "res = Inr ip" for ip
    using assign_granted [OF ok] a that by simp
  have asked: "req = Some (indexToIP p i) \<and> res = Inr (indexToIP p i)"
    if "validATEndpoint n nd" "firstSlot (heldBy n nd) p = None" "requestedSlot p req = Some i" for i
    using that a requestedSlot_Some [OF that(3)] indexToIP_ipToIndex [of p _ i] by (auto simp: assign_def Let_def)
  show ?thesis using errors full granted asked held free by blast
qed

abbreviation sample_net :: u32 where "sample_net \<equiv> 0xC0A86400"
abbreviation sample_mask :: u32 where "sample_mask \<equiv> 0xFFFFFFFC"

lemma sample_new:
  "pool_after sample_net sample_mask [] =
    \<lparr>base = sample_net, entries = [emptyLease\<lparr>used := True\<rparr>, emptyLease], pinBySession = [], pinCountByAT = [],
     pinSeenByAT = [], dhcpByAT = [], dhcpByIP = [], dhcpSeen = []\<rparr>"
proof -
  have "unat (NOT sample_mask) = 3" by simp
  moreover have "replicate 2 x = [x, x]" for x :: leaseEntry by (simp add: numeral_2_eq_2)
  ultimately show ?thesis by (simp only: pool_after_def newIPPool_def Let_def) simp
qed

lemma sample_pool:
  "assign None 5 7 0 (pool_after sample_net sample_mask []) =
    (Inr 0xC0A86402, setSlot 1 \<lparr>used = True, atNetwork = 5, atNode = 7, lastSeen = 0\<rparr> (pool_after sample_net sample_mask []))"
  unfolding sample_new
  by (simp add: assign_def validATEndpoint_def firstSlot_def heldBy_def emptyLease_def requestedSlot_def indexToIP_def Let_def)

theorem macip_assign_witness:
  "lookupByIP (snd (assign None 5 7 0 (pool_after sample_net sample_mask []))) 0xC0A86402 = Some (5, 7)"
proof -
  have "subnet_ok sample_net sample_mask" by (simp add: subnet_ok_def)
  from macip_assign [OF this refl sample_pool] show ?thesis unfolding sample_pool by simp
qed

text \<open>
  Expiry is exact: a pass empties exactly the client slots that have been silent for more than five
  minutes and are not protected by a session that showed activity within the last half hour; the
  gateway's own slot and every other lease stay as they are.
\<close>

theorem macip_expiry_exact:
  assumes subnet: "subnet_ok net msk" and p: "p = pool_after net msk ops" and i: "i < length (entries p)"
    and e: "e = entries p ! i" and k: "k = atKey (atNetwork e) (atNode e)"
  shows "entries (expireLeases now p) ! i =
    (if i \<noteq> 0 \<and> used e \<and> lastSeen e < now - leaseDuration \<and>
        \<not> (\<exists>sid t. map_of (pinBySession p) sid = Some k \<and> map_of (pinSeenByAT p) k = Some t \<and>
             now - t \<le> pinnedLeaseHardTimeout)
     then emptyLease else e)"
proof -
  have ok: "leases_ok p" and pins: "pins_ok p" using pool_after_inv [OF subnet] p by (auto simp: pool_inv_def)
  let ?c = "cleanupExpiredPins now p"
  have pins': "pins_ok ?c" unfolding cleanupExpiredPins_def by (rule pins_ok_cleanup [OF pins])
  have wf: "wf_gomap (pinSeenByAT p)" "wf_gomap (pinBySession p)" using pins by (auto simp: pins_ok_def)
  have "pinCount ?c k > 0 \<longleftrightarrow> sessionsOf k (pinBySession ?c) \<noteq> 0" using pins_ok_count [OF pins', of k] by simp
  also have "\<dots> \<longleftrightarrow> map_of (pinSeenByAT ?c) k \<noteq> None" using pins' unfolding pins_ok_def by simp
  also have "\<dots> \<longleftrightarrow> (\<exists>t. map_of (pinSeenByAT p) k = Some t \<and> now - t \<le> pinnedLeaseHardTimeout)"
    unfolding cleanupExpiredPins_def cleanup_seen [OF wf(1)] by (simp split: option.split)
  also have "\<dots> \<longleftrightarrow> (\<exists>sid t. map_of (pinBySession p) sid = Some k \<and> map_of (pinSeenByAT p) k = Some t \<and>
             now - t \<le> pinnedLeaseHardTimeout)"
  proof -
    have "map_of (pinSeenByAT p) k \<noteq> None \<longleftrightarrow> (\<exists>sid. map_of (pinBySession p) sid = Some k)"
      using pins sessionsOf_pos [OF wf(2), of k] unfolding pins_ok_def by simp
    then show ?thesis by auto
  qed
  finally have count: "pinCount ?c k > 0 \<longleftrightarrow> (\<exists>sid t. map_of (pinBySession p) sid = Some k \<and>
      map_of (pinSeenByAT p) k = Some t \<and> now - t \<le> pinnedLeaseHardTimeout)" .
  have valid: "i \<noteq> 0 \<Longrightarrow> used e \<Longrightarrow> validATEndpoint (atNetwork e) (atNode e)"
    using ok i e by (simp add: leases_ok_def Suc_le_eq)
  show ?thesis
    using nth_expireLeases [OF i, of now] valid count unfolding expireSlot_def isPinnedLocked_def k [symmetric] e [symmetric]
    by (auto simp: e)
qed

theorem macip_expiry_exact_witness:
  "entries (expireLeases 600000000000 (pool_after sample_net sample_mask [Assign None 5 7 0])) ! 1 = emptyLease"
proof -
  let ?p = "pool_after sample_net sample_mask [Assign None 5 7 0]"
  have subnet: "subnet_ok sample_net sample_mask" by (simp add: subnet_ok_def)
  have p: "?p = setSlot 1 \<lparr>used = True, atNetwork = 5, atNode = 7, lastSeen = 0\<rparr> (pool_after sample_net sample_mask [])"
    using sample_pool by (simp add: pool_after_def)
  have len: "length (entries (pool_after sample_net sample_mask [])) = 2" "pinBySession ?p = []"
    unfolding p by (simp_all add: pool_after_def newIPPool_def Let_def setSlot_def)
  have "1 < length (entries ?p)" "entries ?p ! 1 = \<lparr>used = True, atNetwork = 5, atNode = 7, lastSeen = 0\<rparr>"
    unfolding p using len(1) by simp_all
  from macip_expiry_exact [OF subnet refl this(1) refl refl, of 600000000000] this(2) len(2) show ?thesis by simp
qed

text \<open>
  DHCP leases can get lost: when the DHCP server gives an address to a second client, the record of
  the first still names it, and when the first client's record expires, the address of the second
  is forgotten with it.
\<close>

lemma dhcp_takeover_lost:
  assumes "validATEndpoint n1 d1" "validATEndpoint n2 d2" "atKey n1 d1 \<noteq> atKey n2 d2" "t1 < cutoff"
    "\<not> isPinnedLocked p n1 d1" "map_of (dhcpByAT p) (atKey n1 d1) = None" "map_of (dhcpByAT p) (atKey n2 d2) = None"
  shows "map_of (dhcpByIP (expireDHCP cutoff (atKey n1 d1, t1) (registerDHCP ip n2 d2 t2 (registerDHCP ip n1 d1 t1 p)))) ip = None"
  using assms by (simp add: registerDHCP_def Let_def expireDHCP_def atKey_def isPinnedLocked_def pinCount_def)

end
