(* ===== verification/Ipv4.thy ===== *)
theory Ipv4
  imports Go_Prelude
begin

text \<open>
  The IPv4 helpers of \<^verbatim>\<open>port/nat/iputil.go\<close>: the ones-complement checksums, construction of
  packets and fragmentation to the size of an AppleTalk datagram. Sums are 32 bits wide as in the
  code; slices are byte lists.
\<close>

unbundle bit_operations_syntax

abbreviation (input) MaxIPPerDDP :: nat where "MaxIPPerDDP \<equiv> 586"

section \<open>Checksums\<close>

text \<open>The sum of the 16-bit words of a slice, the last byte of an odd one in the upper half.\<close>

fun addWords :: "u32 \<Rightarrow> bytes \<Rightarrow> u32" where
  "addWords s (a # b # rest) = addWords (s + ucast (be16 a b)) rest"
| "addWords s [a] = s + push_bit 8 (ucast a)"
| "addWords s [] = s"

lemma unat_halves: "unat (s AND 0xFFFF) = unat s mod 65536" "unat (drop_bit 16 s) = unat s div 65536" for s :: u32
proof -
  have m: "(0xFFFF :: u32) = mask 16" by (simp add: mask_eq_exp_minus_1)
  show "unat (s AND 0xFFFF) = unat s mod 65536" unfolding m take_bit_eq_mask [symmetric] by (simp add: take_bit_eq_mod unat_mod)
  show "unat (drop_bit 16 s) = unat s div 65536" by (simp add: drop_bit_eq_div unat_div)
qed

lemma unat_carry: "unat ((s AND 0xFFFF) + drop_bit 16 s) = unat s mod 65536 + unat s div 65536" for s :: u32
proof -
  have "unat s < 2 ^ 32" using unsigned_less [of s] by simp
  then have "unat s mod 65536 + unat s div 65536 < 2 ^ 32" by simp
  then show ?thesis by (simp add: unat_word_ariths unat_halves)
qed

lemma fold_carry_decreases:
  assumes "drop_bit 16 s \<noteq> (0 :: u32)"
  shows "unat ((s AND 0xFFFF) + drop_bit 16 s) < unat s"
proof -
  have "unat s div 65536 \<noteq> 0" using assms unat_halves(2) [of s] by (metis unat_eq_0)
  then have "unat s mod 65536 + unat s div 65536 < unat s" using div_mult_mod_eq [of "unat s" 65536] by linarith
  then show ?thesis unfolding unat_carry .
qed

function foldCarry :: "u32 \<Rightarrow> u32" where
  "foldCarry s = (if drop_bit 16 s \<noteq> 0 then foldCarry ((s AND 0xFFFF) + drop_bit 16 s) else s)"
  by pat_completeness auto
termination by (relation "measure unat") (auto dest: fold_carry_decreases)

declare foldCarry.simps [simp del]

definition RawChecksum :: "bytes \<Rightarrow> u16" where
  "RawChecksum d = NOT (ucast (foldCarry (addWords 0 d)))"

definition TransportChecksum :: "bytes \<Rightarrow> bytes \<Rightarrow> u8 \<Rightarrow> bytes \<Rightarrow> u16" where
  "TransportChecksum srcIP dstIP proto segment =
    (let s = ucast (be16 (srcIP ! 0) (srcIP ! 1)) + ucast (be16 (srcIP ! 2) (srcIP ! 3)) +
             ucast (be16 (dstIP ! 0) (dstIP ! 1)) + ucast (be16 (dstIP ! 2) (dstIP ! 3)) +
             ucast proto + word_of_nat (length segment) in
     NOT (ucast (foldCarry (addWords s segment))))"

section \<open>Packets\<close>

text \<open>\<open>copy(xs[i:], b)\<close> where \<open>b\<close> fits.\<close>

definition splice :: "nat \<Rightarrow> bytes \<Rightarrow> bytes \<Rightarrow> bytes" where
  "splice i b xs = take i xs @ b @ drop (i + length b) xs"

definition BuildIPv4Packet :: "bytes \<Rightarrow> bytes \<Rightarrow> u8 \<Rightarrow> bytes \<Rightarrow> bytes" where
  "BuildIPv4Packet srcIP dstIP proto payload =
    (let hdr = [0x45, 0] @ put16 (word_of_nat (20 + length payload)) @ [0, 0, 0, 0, 64, proto, 0, 0] @ srcIP @ dstIP in
     splice 10 (put16 (RawChecksum hdr)) hdr @ payload)"

text \<open>One fragment: the header with the new length, offset and checksum, and a part of the payload.\<close>

definition fragment :: "bytes \<Rightarrow> nat \<Rightarrow> nat \<Rightarrow> bool \<Rightarrow> bytes \<Rightarrow> bytes" where
  "fragment pkt ihl off more part =
    (let hdr = take ihl pkt;
         hdr = splice 2 (put16 (word_of_nat (ihl + length part))) hdr;
         hdr = splice 6 (put16 ((if more then 0x2000 else 0) OR word_of_nat (off div 8))) hdr;
         hdr = splice 10 (put16 0) hdr;
         hdr = splice 10 (put16 (RawChecksum hdr)) hdr in
     hdr @ part)"

text \<open>The loop, from the payload that is left and its offset in the datagram.\<close>

function fragmentsFrom :: "bytes \<Rightarrow> nat \<Rightarrow> nat \<Rightarrow> bool \<Rightarrow> nat \<Rightarrow> bytes \<Rightarrow> bytes list" where
  "fragmentsFrom pkt ihl n origMF off rest =
    (if n = 0 \<or> rest = [] then []
     else fragment pkt ihl off (drop n rest \<noteq> [] \<or> origMF) (take n rest) # fragmentsFrom pkt ihl n origMF (off + n) (drop n rest))"
  by pat_completeness auto
termination by (relation "measure (\<lambda>(pkt, ihl, n, mf, off, rest). length rest)") auto

declare fragmentsFrom.simps [simp del]

definition FragmentIPv4 :: "bytes \<Rightarrow> nat \<Rightarrow> bytes list option" where
  "FragmentIPv4 pkt maxSize =
    (if length pkt \<le> maxSize then Some [pkt]
     else if length pkt < 20 then None
     else if pkt ! 6 AND 0x40 \<noteq> 0 then None
     else let ihl = unat (pkt ! 0 AND 0xF) * 4 in
       if ihl < 20 \<or> length pkt < ihl then None
       else let n = (maxSize - ihl) div 8 * 8 in
         if n \<le> 0 then None
         else let origFO = be16 (pkt ! 6) (pkt ! 7);
                  origOffset = unat (origFO AND 0x1FFF) * 8 in
           if drop ihl pkt = [] then None
           else Some (fragmentsFrom pkt ihl n (origFO AND 0x2000 \<noteq> 0) origOffset (drop ihl pkt)))"

section \<open>The checksum verifies\<close>

fun wsum :: "bytes \<Rightarrow> nat" where
  "wsum (a # b # rest) = 256 * unat a + unat b + wsum rest"
| "wsum [a] = 256 * unat a"
| "wsum [] = 0"

lemma unat_byte: "unat (a :: u8) < 256"
  using unsigned_less [of a] by simp

lemma unat_word16: "unat (w :: u16) < 65536"
  using unsigned_less [of w] by simp

lemma unat_ucast_up: "unat (ucast a :: u32) = unat a" "unat (ucast w :: u32) = unat w" "unat (ucast a :: u16) = unat a" for a :: u8 and w :: u16
  using less_trans [OF unat_byte [of a]] less_trans [OF unat_word16 [of w]] by (simp_all add: unsigned_ucast_eq take_bit_nat_eq_self_iff)

lemma unat_be16: "unat (be16 a b) = 256 * unat a + unat b"
proof -
  have "take_bit 16 (push_bit 8 (unat a)) = push_bit 8 (unat a)" using unat_byte [of a] by (simp add: take_bit_nat_eq_self_iff push_bit_eq_mult)
  then have "unat (be16 a b) = int16 a b"
    by (simp add: be16_def int16_def unsigned_or_eq unsigned_push_bit_eq unat_ucast_up)
  then show ?thesis by (simp add: int16_eq)
qed

lemma wsum_bound: "wsum d \<le> 65535 * length d"
proof (induction d rule: wsum.induct)
  case (1 a b rest)
  then show ?case using unat_byte [of a] unat_byte [of b] by simp
next
  case (2 a)
  then show ?case using unat_byte [of a] by simp
qed simp

lemma addWords_nat: "unat s + wsum d < 2 ^ 32 \<Longrightarrow> unat (addWords s d) = unat s + wsum d"
proof (induction s d rule: addWords.induct)
  case (1 s a b rest)
  have "unat (s + ucast (be16 a b)) = unat s + (256 * unat a + unat b)"
    using 1(2) by (simp add: unat_word_ariths unat_ucast_up unat_be16)
  then show ?case using 1 by simp
next
  case (2 s a)
  have "unat (push_bit 8 (ucast a) :: u32) = 256 * unat a"
    using unat_byte [of a] by (simp add: push_bit_eq_mult unat_word_ariths unat_ucast_up)
  then show ?case using 2 by (simp add: unat_word_ariths)
qed simp

lemma foldCarry_nat: "unat (foldCarry s) = (if unat s = 0 then 0 else (unat s - 1) mod 65535 + 1)"
proof (induction s rule: foldCarry.induct)
  case (1 s)
  show ?case
  proof (cases "drop_bit 16 s = 0")
    case True
    then have "unat s < 65536" using unat_halves(2) [of s] by (simp add: div_eq_0_iff)
    then show ?thesis using True by (subst foldCarry.simps) auto
  next
    case False
    define t where "t = (s AND 0xFFFF) + drop_bit 16 s"
    have t: "unat t = unat s mod 65536 + unat s div 65536" by (simp add: t_def unat_carry)
    have pos: "unat s div 65536 > 0" using False unat_halves(2) [of s] by (metis neq0_conv unat_eq_0)
    then have "unat s - 1 = (unat t - 1) + unat s div 65536 * 65535"
      using t div_mult_mod_eq [of "unat s" 65536] by linarith
    then have "(unat s - 1) mod 65535 = (unat t - 1) mod 65535" by simp
    moreover have "unat s \<noteq> 0" "unat t \<noteq> 0" using pos t by auto
    ultimately show ?thesis using 1 [OF False] False by (subst foldCarry.simps) (simp add: t_def)
  qed
qed

lemma wsum_append: "even (length xs) \<Longrightarrow> wsum (xs @ ys) = wsum xs + wsum ys"
  by (induction xs rule: wsum.induct) auto

text \<open>The checksum of data that are not too long, as a number.\<close>

lemma RawChecksum_nat:
  assumes "wsum d < 2 ^ 32"
  shows "unat (RawChecksum d) = 65535 - (if wsum d = 0 then 0 else (wsum d - 1) mod 65535 + 1)"
proof -
  have f: "unat (foldCarry (addWords 0 d)) = (if wsum d = 0 then 0 else (wsum d - 1) mod 65535 + 1)"
    using foldCarry_nat addWords_nat [of 0 d] assms by simp
  then have "unat (foldCarry (addWords 0 d)) < 65536" by auto
  then have u: "unat (ucast (foldCarry (addWords 0 d)) :: u16) = unat (foldCarry (addWords 0 d))"
    by (simp add: unsigned_ucast_eq take_bit_nat_eq_self_iff)
  have "unat (NOT w) = 65535 - unat w" for w :: u16
  proof -
    have "NOT w = - 1 - w" by (simp add: not_eq_complement)
    moreover have "unat (- 1 - w) = unat (- 1 :: u16) - unat w" by (intro unat_sub) simp
    moreover have "unat (- 1 :: u16) = 65535" by (simp add: unsigned_minus_1_eq_mask mask_eq_exp_minus_1)
    ultimately show ?thesis by simp
  qed
  then show ?thesis by (simp only: RawChecksum_def u f)
qed

text \<open>A header whose own sum is stored where its zero field was sums to zero.\<close>

lemma checksum_verifies:
  assumes "length hdr \<ge> 12" "hdr ! 10 = 0" "hdr ! 11 = 0" "length hdr \<le> 60"
  shows "RawChecksum (splice 10 (put16 (RawChecksum hdr)) hdr) = 0"
proof -
  define n f c where "n = wsum hdr" and "f = (if n = 0 then 0 else (n - 1) mod 65535 + 1)" and "c = RawChecksum hdr"
  have n: "n < 2 ^ 31" using wsum_bound [of hdr] assms(4) by (simp add: n_def)
  have c: "unat c = 65535 - f" using RawChecksum_nat [of hdr] n by (simp add: c_def n_def f_def)
  have f: "f \<le> 65535" "f \<le> n" by (auto simp: f_def Suc_leI)
  have "hdr = take 10 hdr @ hdr ! 10 # hdr ! 11 # drop 12 hdr"
    using assms(1) Cons_nth_drop_Suc [of 10 hdr] Cons_nth_drop_Suc [of 11 hdr] append_take_drop_id [of 10 hdr]
    by (simp del: append_take_drop_id)
  then have "wsum hdr = wsum (take 10 hdr @ 0 # 0 # drop 12 hdr)" using assms(2,3) by simp
  also have "\<dots> = wsum (take 10 hdr) + wsum (drop 12 hdr)" using assms(1) by (subst wsum_append) simp_all
  finally have w: "n = wsum (take 10 hdr) + wsum (drop 12 hdr)" by (simp add: n_def)
  have "wsum (put16 c) = unat c" using unat_be16 [of "hi8 c" "lo8 c"] by (simp add: put16_def)
  moreover have "wsum (splice 10 (put16 c) hdr) = wsum (take 10 hdr) + (wsum (put16 c) + wsum (drop 12 hdr))"
    using assms(1) by (simp add: splice_def wsum_append)
  ultimately have s: "wsum (splice 10 (put16 c) hdr) = n + (65535 - f)" using w c by simp
  have "(n + (65535 - f) - 1) mod 65535 + 1 = 65535"
  proof (cases "n = 0")
    case False
    then have "n - 1 = 65535 * ((n - 1) div 65535) + (f - 1)" "f \<ge> 1" by (simp_all add: f_def)
    then have "n + (65535 - f) - 1 = 65535 * ((n - 1) div 65535) + 65534" using f False by linarith
    then show ?thesis by simp
  qed (simp add: f_def)
  moreover have "n + (65535 - f) \<noteq> 0" using f by simp
  ultimately have "unat (RawChecksum (splice 10 (put16 c) hdr)) = 0"
    using RawChecksum_nat [of "splice 10 (put16 c) hdr"] n by (simp add: s)
  then show ?thesis by (simp add: c_def unat_eq_0)
qed

section \<open>Fragments\<close>

lemma length_splice [simp]: "i + length b \<le> length xs \<Longrightarrow> length (splice i b xs) = length xs"
  by (simp add: splice_def)

lemma nth_splice: "i + 2 \<le> length xs \<Longrightarrow> j < length xs \<Longrightarrow>
    splice i (put16 w) xs ! j = (if j = i then hi8 w else if j = i + 1 then lo8 w else xs ! j)"
  by (auto simp: splice_def put16_def nth_append nth_Cons' min_absorb2) (metis One_nat_def Suc_1 Suc_diff_Suc Suc_lessI diff_zero linorder_neqE_nat not_less_eq not_less_zero)

text \<open>The header fields of a packet.\<close>

definition totalLength :: "bytes \<Rightarrow> nat" where "totalLength p = unat (be16 (p ! 2) (p ! 3))"
definition fragmentOffset :: "bytes \<Rightarrow> nat" where "fragmentOffset p = unat (be16 (p ! 6) (p ! 7) AND 0x1FFF) * 8"
definition moreFragments :: "bytes \<Rightarrow> bool" where "moreFragments p \<longleftrightarrow> be16 (p ! 6) (p ! 7) AND 0x2000 \<noteq> 0"

lemma offset_field:
  assumes "k < 8192"
  shows "((if more then 0x2000 else 0) OR word_of_nat k :: u16) AND 0x1FFF = word_of_nat k"
    "((if more then 0x2000 else 0) OR word_of_nat k :: u16) AND 0x2000 \<noteq> 0 \<longleftrightarrow> more"
proof -
  define w h where "w = (word_of_nat k :: u16)" and "h = (if more then 0x2000 else 0 :: u16)"
  have k: "take_bit 13 k = k" using assms by (simp add: take_bit_nat_eq_self_iff)
  have w: "bit w n \<Longrightarrow> n < 13" for n by (subst (asm) w_def, subst (asm) k [symmetric]) (simp add: bit_simps)
  have b13: "bit (0x2000 :: u16) n \<longleftrightarrow> n = 13" for n
  proof -
    have "(0x2000 :: u16) = 2 ^ 13" by simp
    then show ?thesis by (simp only: bit_exp_iff possible_bit_word) auto
  qed
  then have h: "bit h n \<longleftrightarrow> more \<and> n = 13" for n unfolding h_def by simp
  have m: "(0x1FFF :: u16) = mask 13" by (simp add: mask_eq_exp_minus_1)
  have "(h OR w) AND 0x1FFF = w" unfolding m by (rule bit_word_eqI) (use w h in \<open>auto simp: bit_simps\<close>)
  then show "((if more then 0x2000 else 0) OR word_of_nat k :: u16) AND 0x1FFF = word_of_nat k" by (simp add: h_def w_def)
  have "bit ((h OR w) AND 0x2000) n \<longleftrightarrow> more \<and> n = 13" for n using w h b13 by (auto simp: bit_and_iff bit_or_iff)
  then have "(h OR w) AND 0x2000 \<noteq> 0 \<longleftrightarrow> more" by (metis bit_0_eq bot_apply bot_bool_def bit_eqI)
  then show "((if more then 0x2000 else 0) OR word_of_nat k :: u16) AND 0x2000 \<noteq> 0 \<longleftrightarrow> more" by (simp add: h_def w_def)
qed

lemma fragment_spec:
  assumes "20 \<le> ihl" "ihl \<le> 60" "ihl \<le> length pkt" "off div 8 < 8192" "8 dvd off" "ihl + length part < 65536"
  shows "drop ihl (fragment pkt ihl off more part) = part" "length (fragment pkt ihl off more part) = ihl + length part"
    "fragmentOffset (fragment pkt ihl off more part) = off" "moreFragments (fragment pkt ihl off more part) = more"
    "totalLength (fragment pkt ihl off more part) = ihl + length part"
    "RawChecksum (take ihl (fragment pkt ihl off more part)) = 0"
    "\<forall>j < ihl. j \<notin> {2, 3, 6, 7, 10, 11} \<longrightarrow> fragment pkt ihl off more part ! j = pkt ! j"
proof -
  define w where "w = ((if more then 0x2000 else 0) OR word_of_nat (off div 8) :: u16)"
  define h0 where "h0 = splice 10 (put16 0) (splice 6 (put16 w) (splice 2 (put16 (word_of_nat (ihl + length part))) (take ihl pkt)))"
  define h where "h = splice 10 (put16 (RawChecksum h0)) h0"
  have f: "fragment pkt ihl off more part = h @ part" by (simp add: fragment_def h_def h0_def w_def Let_def)
  have l0: "length h0 = ihl" using assms(1,3) by (simp add: h0_def)
  then have l: "length h = ihl" using assms(1) by (simp add: h_def)
  have h0: "h0 ! j = (if j = 10 \<or> j = 11 then 0 else if j = 6 then hi8 w else if j = 7 then lo8 w
      else if j = 2 then hi8 (word_of_nat (ihl + length part)) else if j = 3 then lo8 (word_of_nat (ihl + length part)) else pkt ! j)" if "j < ihl" for j
    using that assms(1,3) by (simp add: h0_def nth_splice hi8_def lo8_def)
  then have hj: "h ! j = h0 ! j" if "j < ihl" "j \<noteq> 10" "j \<noteq> 11" for j
    using that assms(1) l0 by (simp add: h_def nth_splice)
  have fj: "fragment pkt ihl off more part ! j = h ! j" if "j < ihl" for j using that l by (simp add: f nth_append)
  have s: "RawChecksum h = 0"
    unfolding h_def using assms(1,2) l0 h0 [of 10] h0 [of 11] by (intro checksum_verifies) simp_all
  show "drop ihl (fragment pkt ihl off more part) = part" "length (fragment pkt ihl off more part) = ihl + length part"
    using l by (simp_all add: f)
  have w67: "be16 (fragment pkt ihl off more part ! 6) (fragment pkt ihl off more part ! 7) = w"
    using assms(1) by (simp add: fj hj h0)
  show "fragmentOffset (fragment pkt ihl off more part) = off"
    using offset_field(1) [OF assms(4), of more] assms(4,5) by (simp add: fragmentOffset_def w67 w_def unat_of_nat)
  show "moreFragments (fragment pkt ihl off more part) = more"
    using offset_field(2) [OF assms(4), of more] by (simp add: moreFragments_def w67 w_def)
  show "totalLength (fragment pkt ihl off more part) = ihl + length part"
  proof -
    have "be16 (fragment pkt ihl off more part ! 2) (fragment pkt ihl off more part ! 3) = word_of_nat (ihl + length part)"
      using assms(1) by (simp add: fj hj h0 del: of_nat_add)
    then show ?thesis using assms(6) by (simp add: totalLength_def unat_of_nat del: of_nat_add)
  qed
  show "RawChecksum (take ihl (fragment pkt ihl off more part)) = 0" using s l by (simp add: f)
  show "\<forall>j < ihl. j \<notin> {2, 3, 6, 7, 10, 11} \<longrightarrow> fragment pkt ihl off more part ! j = pkt ! j"
    by (auto simp: fj hj h0)
qed

definition fragments_ok :: "bytes \<Rightarrow> nat \<Rightarrow> nat \<Rightarrow> bool \<Rightarrow> nat \<Rightarrow> bytes \<Rightarrow> bytes list \<Rightarrow> bool" where
  "fragments_ok pkt ihl n origMF off rest fs \<longleftrightarrow>
    concat (map (drop ihl) fs) = rest \<and>
    (\<forall>i < length fs.
      length (fs ! i) \<le> ihl + n \<and> totalLength (fs ! i) = length (fs ! i) \<and> RawChecksum (take ihl (fs ! i)) = 0 \<and>
      fragmentOffset (fs ! i) = off + length (concat (map (drop ihl) (take i fs))) \<and>
      (moreFragments (fs ! i) \<longleftrightarrow> i + 1 < length fs \<or> origMF) \<and>
      (\<forall>j < ihl. j \<notin> {2, 3, 6, 7, 10, 11} \<longrightarrow> fs ! i ! j = pkt ! j))"

lemma fragmentsFrom_ok:
  assumes "20 \<le> ihl" "ihl \<le> 60" "ihl \<le> length pkt" "8 dvd n" "n > 0"
    "8 dvd off" "off + length rest \<le> 65535" "ihl + length rest < 65536"
  shows "fragments_ok pkt ihl n origMF off rest (fragmentsFrom pkt ihl n origMF off rest)"
  using assms(6-)
proof (induction "length rest" arbitrary: off rest rule: less_induct)
  case less
  show ?case
  proof (cases "rest = []")
    case False
    define f fs where "f = fragment pkt ihl off (drop n rest \<noteq> [] \<or> origMF) (take n rest)"
      and "fs = fragmentsFrom pkt ihl n origMF (off + n) (drop n rest)"
    have eq: "fragmentsFrom pkt ihl n origMF off rest = f # fs"
      using False assms(5) by (subst fragmentsFrom.simps) (simp add: f_def fs_def)
    have "off div 8 < 8192" using less.prems(2) by simp
    note fr = fragment_spec [OF assms(1-3) this less.prems(1), of "take n rest" "drop n rest \<noteq> [] \<or> origMF", folded f_def]
    have small: "ihl + length (take n rest) < 65536" using less.prems(3) by simp
    have last: "fs = [] \<longleftrightarrow> drop n rest = []"
      unfolding fs_def using assms(5) by (subst fragmentsFrom.simps) auto
    have IH: "fragments_ok pkt ihl n origMF (off + n) (drop n rest) fs" if "drop n rest \<noteq> []"
      unfolding fs_def using that less.prems assms(4,5) by (intro less.hyps) auto
    have nil: "fragments_ok pkt ihl n origMF (off + n) (drop n rest) fs" if "drop n rest = []"
      using that last by (simp add: fragments_ok_def)
    from IH nil have ok: "fragments_ok pkt ihl n origMF (off + n) (drop n rest) fs" by blast
    have "length (take n rest) = n" if "fs \<noteq> []" using that last by simp
    then show ?thesis
      unfolding eq fragments_ok_def using ok fr [OF small] last
      by (auto simp: fragments_ok_def nth_Cons' less_Suc_eq_0_disj take_Cons')
  qed (simp add: fragments_ok_def fragmentsFrom.simps)
qed

text \<open>
  C37. Fragmentation is lossless: a well-formed packet that is too long and may be fragmented is cut
  into packets of at most the size asked for, whose payloads, put at their offsets, give back the
  payload without gap or overlap; each carries its own length, the more flag exactly where more
  follows, the other header bytes of the original, and a header checksum that verifies.
\<close>

theorem fragmentation_lossless:
  assumes "FragmentIPv4 pkt maxSize = Some fs" "length pkt > maxSize" "ihl = unat (pkt ! 0 AND 0xF) * 4"
    "length pkt \<le> 65535" "fragmentOffset pkt + length pkt \<le> 65535"
  shows "concat (map (drop ihl) fs) = drop ihl pkt \<and>
    (\<forall>i < length fs. length (fs ! i) \<le> maxSize \<and> totalLength (fs ! i) = length (fs ! i) \<and> RawChecksum (take ihl (fs ! i)) = 0 \<and>
      fragmentOffset (fs ! i) = fragmentOffset pkt + length (concat (map (drop ihl) (take i fs))) \<and>
      (moreFragments (fs ! i) \<longleftrightarrow> i + 1 < length fs \<or> moreFragments pkt) \<and>
      (\<forall>j < ihl. j \<notin> {2, 3, 6, 7, 10, 11} \<longrightarrow> fs ! i ! j = pkt ! j))"
proof -
  have "unat (pkt ! 0 AND 0xF) \<le> 15"
  proof -
    have "pkt ! 0 AND 0xF \<le> 0xF" by (rule word_and_le1)
    then show ?thesis by (simp add: word_le_nat_alt)
  qed
  then have ihl: "ihl \<le> 60" using assms(3) by simp
  define n where "n = (maxSize - ihl) div 8 * 8"
  have fs: "20 \<le> ihl" "ihl \<le> length pkt" "n > 0" "fs = fragmentsFrom pkt ihl n (moreFragments pkt) (fragmentOffset pkt) (drop ihl pkt)"
    using assms(1-3) by (auto simp: FragmentIPv4_def Let_def n_def moreFragments_def fragmentOffset_def split: if_splits)
  have "8 dvd n" "8 dvd fragmentOffset pkt" "ihl + n \<le> maxSize" using fs(3) by (auto simp: n_def fragmentOffset_def)
  moreover from this have "fragments_ok pkt ihl n (moreFragments pkt) (fragmentOffset pkt) (drop ihl pkt) fs"
    unfolding fs(4) using fs(1-3) ihl assms(4,5) by (intro fragmentsFrom_ok) auto
  ultimately show ?thesis by (auto simp: fragments_ok_def intro: order_trans)
qed


definition long_packet :: bytes where
  "long_packet = [0x45, 0, 0, 44, 0, 7, 0, 0, 64, 17, 0, 0, 10, 0, 0, 1, 10, 0, 0, 2] @ replicate 24 9"

theorem fragmentation_lossless_witness:
  "\<exists>fs. FragmentIPv4 long_packet 36 = Some fs \<and> length fs = 2 \<and> concat (map (drop 20) fs) = replicate 24 9"
proof -
  have p: "long_packet ! 0 = 0x45" "long_packet ! 6 = 0" "long_packet ! 7 = 0" "length long_packet = 44" "drop 20 long_packet = replicate 24 9"
    by (simp_all add: long_packet_def)
  obtain fs where fs: "FragmentIPv4 long_packet 36 = Some fs" "fs = fragmentsFrom long_packet 20 16 False 0 (replicate 24 9)"
    by (simp add: FragmentIPv4_def p Let_def)
  have "length fs = 2" unfolding fs(2) by (simp add: fragmentsFrom.simps)
  then show ?thesis
    using fragmentation_lossless [OF fs(1), of 20] fs(1) p by (simp add: fragmentOffset_def)
qed

end
