(* ===== verification/Ipnat.thy ===== *)
theory Ipnat
  imports Ipv4 Ddp
begin

text \<open>
  The NAT engine of \<^verbatim>\<open>port/nat/ipnat.go\<close>, which carries the IP traffic of MacIP clients over
  sockets of the host.

  The entries and flows that the maps and goroutines share are cells of a heap, addressed by their
  index. Calls of the host's sockets are effects, and what they return (whether a connection came
  about, what was read) is an argument of the step, as are the clock and the random initial sequence
  number. The codec of \<^verbatim>\<open>golang.org/x/net/icmp\<close> is a parameter. A panic and a loop that never
  ends are outcomes. A goroutine's loop is its body, once per message read.
\<close>

unbundle bit_operations_syntax

section \<open>State\<close>

type_synonym ip = bytes
type_synonym osFlowKey = "u8 \<times> ip \<times> u16 \<times> ip \<times> u16"

abbreviation (input) osNATICMPTimeout :: int where "osNATICMPTimeout \<equiv> 30000000000"
abbreviation (input) osNATUDPTimeout :: int where "osNATUDPTimeout \<equiv> 30000000000"
abbreviation (input) osNATTCPTimeout :: int where "osNATTCPTimeout \<equiv> 300000000000"
abbreviation (input) osNATMaxSegment :: u16 where "osNATMaxSegment \<equiv> 546"

record icmpFwdEntry =
  icAtNet :: u16
  icAtNode :: u8
  icClientIP :: ip
  icClientID :: u16
  icNatID :: u16
  icExpiry :: int

record udpFwdFlow =
  uConn :: nat
  uAtNet :: u16
  uAtNode :: u8
  uClientIP :: ip
  uClientPort :: u16
  uExpiry :: int

record tcpFwdFlow =
  tConn :: nat
  tAtNet :: u16
  tAtNode :: u8
  tClientIP :: ip
  tServerIP :: ip
  tClientPort :: u16
  tServerPort :: u16
  ourSeq :: u32
  macSeq :: u32
  macAck :: u32
  macWindow :: u16
  mss :: u16
  tExpiry :: int
  windowAdv :: bool
  tDone :: bool

record OSNAT =
  natSocket :: u8
  natDdpType :: u8
  icmpOpen :: bool
  icmpHeap :: "icmpFwdEntry list"
  icmpByClient :: "(ip \<times> u16, nat) gomap"
  icmpByNatID :: "(u16, nat) gomap"
  icmpNextID :: u16
  udpHeap :: "udpFwdFlow list"
  udpFlows :: "(osFlowKey, nat) gomap"
  tcpHeap :: "tcpFwdFlow list"
  tcpFlows :: "(osFlowKey, nat option) gomap"
  natStopped :: bool

datatype nat_effect =
    RouteToMac Datagram
  | IcmpWrite ip bytes
  | IcmpClose
  | UdpWrite nat bytes
  | UdpClose nat
  | StartUdpRead osFlowKey nat ip
  | StartTcpConnect osFlowKey u32 u16 u16
  | TcpWrite nat bytes
  | TcpCloseWrite nat
  | TcpClose nat

definition NewOSNAT :: "u8 \<Rightarrow> u8 \<Rightarrow> bool \<Rightarrow> OSNAT" where
  "NewOSNAT socket ddpType icmpOk =
    \<lparr>natSocket = socket, natDdpType = ddpType, icmpOpen = icmpOk, icmpHeap = [], icmpByClient = [], icmpByNatID = [],
     icmpNextID = 1000, udpHeap = [], udpFlows = [], tcpHeap = [], tcpFlows = [], natStopped = False\<rparr>"

definition routeToMac :: "u16 \<Rightarrow> u8 \<Rightarrow> bytes \<Rightarrow> OSNAT \<Rightarrow> nat_effect list" where
  "routeToMac atNet atNode pkt n =
    (case FragmentIPv4 pkt MaxIPPerDDP of
       None \<Rightarrow> []
     | Some frags \<Rightarrow> map (\<lambda>frag. RouteToMac \<lparr>HopCount = 0, DestinationNetwork = atNet, SourceNetwork = 0, DestinationNode = atNode,
         SourceNode = 0, DestinationSocket = natSocket n, SourceSocket = natSocket n, DDPType = natDdpType n, Data = frag\<rparr>) frags)"

section \<open>ICMP\<close>

partial_function (option) allocICMPNatID :: "(u16, nat) gomap \<Rightarrow> u16 \<Rightarrow> (u16 \<times> u16) option" where
  "allocICMPNatID m i =
    (let next' = (if i + 1 = 0 then 1000 else i + 1) in
     if map_of m i = None then Some (i, next') else allocICMPNatID m next')"

definition forwardICMP :: "(bool \<Rightarrow> u16 \<Rightarrow> u16 \<Rightarrow> bytes \<Rightarrow> bytes option) \<Rightarrow> int \<Rightarrow> bytes \<Rightarrow> nat \<Rightarrow> u16 \<Rightarrow> u8 \<Rightarrow> OSNAT \<Rightarrow>
    (nat_effect list \<times> OSNAT) outcome" where
  "forwardICMP marshal now pkt ihl atNet atNode n =
    (if \<not> icmpOpen n \<or> length pkt < ihl + 8 \<or> pkt ! ihl \<noteq> 8 then Return ([], n)
     else
       let clientIP = take 4 (drop 12 pkt);
           dstIP = take 4 (drop 16 pkt);
           origID = be16 (pkt ! (ihl + 4)) (pkt ! (ihl + 5));
           origSeq = be16 (pkt ! (ihl + 6)) (pkt ! (ihl + 7));
           body = drop (ihl + 8) pkt;
           ck = (clientIP, origID);
           found = (case map_of (icmpByClient n) ck of
             Some p \<Rightarrow> Return (p, n)
           | None \<Rightarrow>
               (case allocICMPNatID (icmpByNatID n) (icmpNextID n) of
                  None \<Rightarrow> Diverge
                | Some (natID, next') \<Rightarrow>
                    let p = length (icmpHeap n) in
                    Return (p, n\<lparr>icmpHeap := icmpHeap n @ [\<lparr>icAtNet = atNet, icAtNode = atNode, icClientIP = clientIP, icClientID = origID,
                        icNatID = natID, icExpiry = 0\<rparr>],
                      icmpByClient := AList.update ck p (icmpByClient n), icmpByNatID := AList.update natID p (icmpByNatID n),
                      icmpNextID := next'\<rparr>))) in
       and_then found (\<lambda>(p, n).
         let n = n\<lparr>icmpHeap := (icmpHeap n)[p := (icmpHeap n ! p)\<lparr>icExpiry := now + osNATICMPTimeout\<rparr>]\<rparr> in
         Return (case marshal False (icNatID (icmpHeap n ! p)) origSeq body of Some b \<Rightarrow> [IcmpWrite dstIP b] | None \<Rightarrow> [], n)))"

text \<open>An echo reply that \<open>icmpReadLoop\<close> has read and parsed.\<close>

definition icmpReply :: "(bool \<Rightarrow> u16 \<Rightarrow> u16 \<Rightarrow> bytes \<Rightarrow> bytes option) \<Rightarrow> int \<Rightarrow> ip \<Rightarrow> u16 \<Rightarrow> u16 \<Rightarrow> bytes \<Rightarrow> OSNAT \<Rightarrow> nat_effect list \<times> OSNAT" where
  "icmpReply marshal now srcIP echoID echoSeq body n =
    (case map_of (icmpByNatID n) echoID of
       None \<Rightarrow> ([], n)
     | Some p \<Rightarrow>
         let e = icmpHeap n ! p;
             n = n\<lparr>icmpHeap := (icmpHeap n)[p := e\<lparr>icExpiry := now + osNATICMPTimeout\<rparr>]\<rparr> in
         (case marshal True (icClientID e) echoSeq body of
            None \<Rightarrow> []
          | Some reply \<Rightarrow> routeToMac (icAtNet e) (icAtNode e) (BuildIPv4Packet srcIP (icClientIP e) 1 reply) n, n))"

section \<open>UDP\<close>

text \<open>\<open>dial\<close> is the socket that \<open>net.DialUDP\<close> gives, if a new one is needed and it succeeds.\<close>

definition forwardUDP :: "int \<Rightarrow> nat option \<Rightarrow> bytes \<Rightarrow> nat \<Rightarrow> u16 \<Rightarrow> u8 \<Rightarrow> OSNAT \<Rightarrow> nat_effect list \<times> OSNAT" where
  "forwardUDP now dial pkt ihl atNet atNode n =
    (if length pkt < ihl + 8 then ([], n)
     else
       let clientIP = take 4 (drop 12 pkt);
           dstIP = take 4 (drop 16 pkt);
           clientPort = be16 (pkt ! ihl) (pkt ! (ihl + 1));
           dstPort = be16 (pkt ! (ihl + 2)) (pkt ! (ihl + 3));
           udpLen = unat (be16 (pkt ! (ihl + 4)) (pkt ! (ihl + 5))) in
       if udpLen < 8 \<or> length pkt < ihl + udpLen then ([], n)
       else
         let payload = take (udpLen - 8) (drop (ihl + 8) pkt);
             key = (17, clientIP, clientPort, dstIP, dstPort) in
         case map_of (udpFlows n) key of
           Some p \<Rightarrow>
             ([UdpWrite (uConn (udpHeap n ! p)) payload],
              n\<lparr>udpHeap := (udpHeap n)[p := (udpHeap n ! p)\<lparr>uExpiry := now + osNATUDPTimeout\<rparr>]\<rparr>)
         | None \<Rightarrow>
             (case dial of
                None \<Rightarrow> ([], n)
              | Some conn \<Rightarrow>
                  let p = length (udpHeap n) in
                  ([StartUdpRead key p dstIP, UdpWrite conn payload],
                   n\<lparr>udpHeap := udpHeap n @ [\<lparr>uConn = conn, uAtNet = atNet, uAtNode = atNode, uClientIP = clientIP, uClientPort = clientPort,
                       uExpiry = now + osNATUDPTimeout\<rparr>],
                     udpFlows := AList.update key p (udpFlows n)\<rparr>)))"

text \<open>One read of \<open>udpReadLoop\<close>: the data, and whether an error came with them.\<close>

definition udpRead :: "osFlowKey \<Rightarrow> nat \<Rightarrow> ip \<Rightarrow> bytes \<Rightarrow> bool \<Rightarrow> OSNAT \<Rightarrow> nat_effect list \<times> OSNAT" where
  "udpRead key p serverIP got err n =
    (let (_, _, _, _, dstPort) = key;
         flow = udpHeap n ! p;
         out = (if length got > 0 then
             routeToMac (uAtNet flow) (uAtNode flow) (BuildIPv4Packet serverIP (uClientIP flow) 17
               (put16 dstPort @ put16 (uClientPort flow) @ put16 (word_of_nat (8 + length got)) @ [0, 0] @ got)) n
           else []) in
     (out, if err \<and> map_of (udpFlows n) key = Some p then n\<lparr>udpFlows := AList.delete key (udpFlows n)\<rparr> else n))"

section \<open>TCP\<close>

definition updFlow :: "nat \<Rightarrow> (tcpFwdFlow \<Rightarrow> tcpFwdFlow) \<Rightarrow> OSNAT \<Rightarrow> OSNAT" where
  "updFlow p g n = n\<lparr>tcpHeap := (tcpHeap n)[p := g (tcpHeap n ! p)]\<rparr>"

definition closeConn :: "nat \<Rightarrow> OSNAT \<Rightarrow> nat_effect list \<times> OSNAT" where
  "closeConn p n = ([TcpClose (tConn (tcpHeap n ! p))], updFlow p (\<lambda>f. f\<lparr>tDone := True\<rparr>) n)"

definition tcpSegmentBytes :: "ip \<Rightarrow> ip \<Rightarrow> u16 \<Rightarrow> u16 \<Rightarrow> u32 \<Rightarrow> u32 \<Rightarrow> u8 \<Rightarrow> u8 \<Rightarrow> u16 \<Rightarrow> bytes \<Rightarrow> bytes" where
  "tcpSegmentBytes serverIP clientIP serverPort clientPort seqno ackno dataOff flags window rest =
    (let hdr = put16 serverPort @ put16 clientPort @ put32 seqno @ put32 ackno @ [dataOff, flags] @ put16 window @ put16 0 @ [0, 0] @ rest in
     splice 16 (put16 (TransportChecksum serverIP clientIP 6 hdr)) hdr)"

definition sendTCPSYNACK :: "tcpFwdFlow \<Rightarrow> u32 \<Rightarrow> OSNAT \<Rightarrow> nat_effect list" where
  "sendTCPSYNACK f ourISN n =
    routeToMac (tAtNet f) (tAtNode f) (BuildIPv4Packet (tServerIP f) (tClientIP f) 6
      (tcpSegmentBytes (tServerIP f) (tClientIP f) (tServerPort f) (tClientPort f) ourISN (macSeq f) 0x60 0x12 8192 ([2, 4] @ put16 (mss f)))) n"

definition sendTCPSegment :: "tcpFwdFlow \<Rightarrow> u32 \<Rightarrow> u32 \<Rightarrow> u8 \<Rightarrow> bytes \<Rightarrow> OSNAT \<Rightarrow> nat_effect list" where
  "sendTCPSegment f seqno ackno flags body n =
    routeToMac (tAtNet f) (tAtNode f) (BuildIPv4Packet (tServerIP f) (tClientIP f) 6
      (tcpSegmentBytes (tServerIP f) (tClientIP f) (tServerPort f) (tClientPort f) seqno ackno 0x50 flags 8192 body)) n"

definition sendTCPRST :: "ip \<Rightarrow> ip \<Rightarrow> u16 \<Rightarrow> u16 \<Rightarrow> u32 \<Rightarrow> u16 \<Rightarrow> u8 \<Rightarrow> OSNAT \<Rightarrow> nat_effect list" where
  "sendTCPRST serverIP clientIP serverPort clientPort ackno atNet atNode n =
    routeToMac atNet atNode (BuildIPv4Packet serverIP clientIP 6
      (tcpSegmentBytes serverIP clientIP serverPort clientPort 0 ackno 0x50 0x14 0 [])) n"

text \<open>The maximum segment size in the options of a SYN.\<close>

function parseMSS :: "bytes \<Rightarrow> u16 \<Rightarrow> u16" where
  "parseMSS opts m =
    (if opts = [] \<or> opts ! 0 = 0 then m
     else if opts ! 0 = 1 then parseMSS (drop 1 opts) m
     else if length opts \<le> 1 then m
     else let l = unat (opts ! 1) in
       if l < 2 \<or> l > length opts then m
       else parseMSS (drop l opts)
         (if opts ! 0 = 2 \<and> l = 4 then (let v = be16 (opts ! 2) (opts ! 3) in if v < m then v else m) else m))"
  by pat_completeness auto
termination by (relation "measure (length \<circ> fst)") auto

declare parseMSS.simps [simp del]

abbreviation (input) hasFlag :: "u8 \<Rightarrow> u8 \<Rightarrow> bool" where "hasFlag flags f \<equiv> flags AND f \<noteq> 0"

text \<open>A segment of a flow that exists.\<close>

definition tcpSegment :: "int \<Rightarrow> nat \<Rightarrow> osFlowKey \<Rightarrow> u8 \<Rightarrow> u32 \<Rightarrow> u16 \<Rightarrow> bytes \<Rightarrow> OSNAT \<Rightarrow> nat_effect list \<times> OSNAT" where
  "tcpSegment now p key flags ackno window payload n =
    (if hasFlag flags 0x04 then
       let (out, n) = closeConn p n in (out, n\<lparr>tcpFlows := AList.delete key (tcpFlows n)\<rparr>)
     else
       let hasFIN = hasFlag flags 0x01;
           hasACK = hasFlag flags 0x10;
           f = tcpHeap n ! p;
           f = f\<lparr>tExpiry := now + osNATTCPTimeout, macSeq := macSeq f + word_of_nat (length payload) + (if hasFIN then 1 else 0)\<rparr>;
           f' = (if hasACK then f\<lparr>macAck := (if sint (ackno - macAck f) > 0 then ackno else macAck f), macWindow := window, windowAdv := True\<rparr> else f);
           n = n\<lparr>tcpHeap := (tcpHeap n)[p := f']\<rparr> in
       ((if payload \<noteq> [] then [TcpWrite (tConn f) payload] else []) @
        (if hasFIN then [TcpCloseWrite (tConn f)] else []) @
        (if payload \<noteq> [] \<or> hasFIN then sendTCPSegment f' (ourSeq f) (macSeq f) 0x10 [] n else []), n))"

definition handleTCP :: "int \<Rightarrow> bytes \<Rightarrow> nat \<Rightarrow> u16 \<Rightarrow> u8 \<Rightarrow> OSNAT \<Rightarrow> (nat_effect list \<times> OSNAT) outcome" where
  "handleTCP now pkt ihl atNet atNode n =
    (if length pkt < ihl + 20 then Return ([], n)
     else
       let clientIP = take 4 (drop 12 pkt);
           serverIP = take 4 (drop 16 pkt);
           clientPort = be16 (pkt ! ihl) (pkt ! (ihl + 1));
           serverPort = be16 (pkt ! (ihl + 2)) (pkt ! (ihl + 3));
           seqno = be32 (pkt ! (ihl + 4)) (pkt ! (ihl + 5)) (pkt ! (ihl + 6)) (pkt ! (ihl + 7));
           tcpHdrLen = unat (drop_bit 4 (pkt ! (ihl + 12))) * 4 in
       if length pkt < ihl + tcpHdrLen then Return ([], n)
       else
         let flags = pkt ! (ihl + 13);
             payload = drop (ihl + tcpHdrLen) pkt;
             window = be16 (pkt ! (ihl + 14)) (pkt ! (ihl + 15));
             key = (6, clientIP, clientPort, serverIP, serverPort) in
         if hasFlag flags 0x02 \<and> \<not> hasFlag flags 0x10 then
           if map_of (tcpFlows n) key \<noteq> None then Return ([], n)
           else if tcpHdrLen < 20 then Panic
           else Return ([StartTcpConnect key seqno (parseMSS (take (tcpHdrLen - 20) (drop (ihl + 20) pkt)) osNATMaxSegment) window],
             n\<lparr>tcpFlows := AList.update key None (tcpFlows n)\<rparr>)
         else
           (case map_of (tcpFlows n) key of
              Some (Some p) \<Rightarrow>
                Return (tcpSegment now p key flags (be32 (pkt ! (ihl + 8)) (pkt ! (ihl + 9)) (pkt ! (ihl + 10)) (pkt ! (ihl + 11))) window payload n)
            | _ \<Rightarrow> Return ([], n)))"

text \<open>\<open>tcpConnect\<close>, given the connection, if the dial succeeds, and the initial sequence number.\<close>

definition tcpConnect :: "int \<Rightarrow> nat option \<Rightarrow> u32 \<Rightarrow> osFlowKey \<Rightarrow> u32 \<Rightarrow> u16 \<Rightarrow> u16 \<Rightarrow> u16 \<Rightarrow> u8 \<Rightarrow> OSNAT \<Rightarrow> nat_effect list \<times> OSNAT" where
  "tcpConnect now dial ourISN key macISN m synWindow atNet atNode n =
    (let (_, clientIP, clientPort, serverIP, serverPort) = key in
     case dial of
       None \<Rightarrow>
         let n = n\<lparr>tcpFlows := AList.delete key (tcpFlows n)\<rparr> in
         (sendTCPRST serverIP clientIP serverPort clientPort (macISN + 1) atNet atNode n, n)
     | Some conn \<Rightarrow>
         let f = \<lparr>tConn = conn, tAtNet = atNet, tAtNode = atNode, tClientIP = clientIP, tServerIP = serverIP, tClientPort = clientPort,
               tServerPort = serverPort, ourSeq = ourISN + 1, macSeq = macISN + 1, macAck = ourISN + 1, macWindow = synWindow, mss = m,
               tExpiry = now + osNATTCPTimeout, windowAdv = False, tDone = False\<rparr>;
             n = n\<lparr>tcpHeap := tcpHeap n @ [f], tcpFlows := AList.update key (Some (length (tcpHeap n))) (tcpFlows n)\<rparr> in
         (sendTCPSYNACK f ourISN n, n))"

text \<open>The function that \<open>tcpServerReadLoop\<close> defers.\<close>

definition tcpLoopExit :: "osFlowKey \<Rightarrow> nat \<Rightarrow> OSNAT \<Rightarrow> nat_effect list \<times> OSNAT" where
  "tcpLoopExit key p n =
    closeConn p (if map_of (tcpFlows n) key = Some (Some p) then n\<lparr>tcpFlows := AList.delete key (tcpFlows n)\<rparr> else n)"

text \<open>The room in the receive window of the Macintosh, which the loop waits for and reads at most.\<close>

definition windowSpace :: "tcpFwdFlow \<Rightarrow> int" where
  "windowSpace f = sint (macAck f + ucast (macWindow f) - ourSeq f)"

definition readLimit :: "tcpFwdFlow \<Rightarrow> nat" where
  "readLimit f = nat (if windowSpace f > 65535 then 65535 else windowSpace f)"

text \<open>
  One turn of the loop that waits. When both channels are ready, \<open>select\<close> takes either: \<open>pickDone\<close>
  says which.
\<close>

datatype tcp_wait = Room | Woken | Finished | Blocked

definition tcpWait :: "osFlowKey \<Rightarrow> nat \<Rightarrow> bool \<Rightarrow> OSNAT \<Rightarrow> tcp_wait \<times> nat_effect list \<times> OSNAT" where
  "tcpWait key p pickDone n =
    (let f = tcpHeap n ! p in
     if windowSpace f > 0 then (Room, [], n)
     else if tDone f \<and> (pickDone \<or> \<not> windowAdv f) then (Finished, tcpLoopExit key p n)
     else if windowAdv f then (Woken, [], updFlow p (\<lambda>f. f\<lparr>windowAdv := False\<rparr>) n)
     else (Blocked, [], n))"

text \<open>The loop that cuts what was read into segments.\<close>

partial_function (option) relayChunks :: "nat \<Rightarrow> bytes \<Rightarrow> OSNAT \<Rightarrow> (nat_effect list \<times> OSNAT) option" where
  "relayChunks p got n =
    (if got = [] then Some ([], n)
     else
       let f = tcpHeap n ! p;
           chunk = (if length got > unat (mss f) then take (unat (mss f)) got else got);
           n' = updFlow p (\<lambda>f. f\<lparr>ourSeq := ourSeq f + word_of_nat (length chunk)\<rparr>) n in
       Option.bind (relayChunks p (drop (length chunk) got) n')
         (\<lambda>(out, n''). Some (sendTCPSegment f (ourSeq f) (macSeq f) 0x18 chunk n' @ out, n'')))"

datatype readError = ReadEOF | ReadFailed

definition tcpServerRead :: "osFlowKey \<Rightarrow> nat \<Rightarrow> bytes \<Rightarrow> readError option \<Rightarrow> OSNAT \<Rightarrow> (nat_effect list \<times> OSNAT) outcome" where
  "tcpServerRead key p got err n =
    (case relayChunks p got n of
       None \<Rightarrow> Diverge
     | Some (out, n) \<Rightarrow>
         (case err of
            None \<Rightarrow> Return (out, n)
          | Some e \<Rightarrow>
              let f = tcpHeap n ! p;
                  n = updFlow p (\<lambda>f. f\<lparr>ourSeq := ourSeq f + 1\<rparr>) n;
                  fin = sendTCPSegment f (ourSeq f) (macSeq f) (case e of ReadEOF \<Rightarrow> 0x11 | ReadFailed \<Rightarrow> 0x14) [] n;
                  (cl, n) = tcpLoopExit key p n in
              Return (out @ fin @ cl, n)))"

section \<open>Dispatch and clean-up\<close>

definition Forward :: "(bool \<Rightarrow> u16 \<Rightarrow> u16 \<Rightarrow> bytes \<Rightarrow> bytes option) \<Rightarrow> int \<Rightarrow> nat option \<Rightarrow> bytes \<Rightarrow> u16 \<Rightarrow> u8 \<Rightarrow> OSNAT \<Rightarrow>
    (nat_effect list \<times> OSNAT) outcome" where
  "Forward marshal now dial pkt atNet atNode n =
    (if length pkt < 20 then Return ([], n)
     else let ihl = unat (pkt ! 0 AND 0xF) * 4 in
       if length pkt < ihl then Return ([], n)
       else if pkt ! 9 = 1 then forwardICMP marshal now pkt ihl atNet atNode n
       else if pkt ! 9 = 17 then Return (forwardUDP now dial pkt ihl atNet atNode n)
       else if pkt ! 9 = 6 then handleTCP now pkt ihl atNet atNode n
       else Return ([], n))"

definition cleanupICMP :: "int \<Rightarrow> OSNAT \<Rightarrow> OSNAT" where
  "cleanupICMP now n =
    fold (\<lambda>(ck, p) n. if now > icExpiry (icmpHeap n ! p)
       then n\<lparr>icmpByNatID := AList.delete (icNatID (icmpHeap n ! p)) (icmpByNatID n), icmpByClient := AList.delete ck (icmpByClient n)\<rparr>
       else n) (icmpByClient n) n"

definition cleanupUDP :: "int \<Rightarrow> OSNAT \<Rightarrow> nat_effect list \<times> OSNAT" where
  "cleanupUDP now n =
    (let stale = filter (\<lambda>(k, p). now > uExpiry (udpHeap n ! p)) (udpFlows n) in
     (map (\<lambda>(k, p). UdpClose (uConn (udpHeap n ! p))) stale,
      n\<lparr>udpFlows := filter (\<lambda>(k, p). \<not> now > uExpiry (udpHeap n ! p)) (udpFlows n)\<rparr>))"

definition cleanupTCP :: "int \<Rightarrow> OSNAT \<Rightarrow> nat_effect list \<times> OSNAT" where
  "cleanupTCP now n =
    fold (\<lambda>(k, q) (out, n). case q of
         Some p \<Rightarrow>
           if now > tExpiry (tcpHeap n ! p)
           then let (cl, n) = closeConn p n in (out @ cl, n\<lparr>tcpFlows := AList.delete k (tcpFlows n)\<rparr>)
           else (out, n)
       | None \<Rightarrow> (out, n)) (tcpFlows n) ([], n)"

definition cleanupTick :: "int \<Rightarrow> OSNAT \<Rightarrow> nat_effect list \<times> OSNAT" where
  "cleanupTick now n =
    (let n = cleanupICMP now n; (o1, n) = cleanupUDP now n; (o2, n) = cleanupTCP now n in (o1 @ o2, n))"

text \<open>Closing the channel a second time panics.\<close>

definition closeFlows :: "(osFlowKey, nat option) gomap \<Rightarrow> OSNAT \<Rightarrow> nat_effect list \<times> OSNAT" where
  "closeFlows fs n = fold (\<lambda>(k, q) (out, n). case q of
      Some p \<Rightarrow> let (cl, n) = closeConn p n in (out @ cl, n) | None \<Rightarrow> (out, n)) fs ([], n)"

definition natClose :: "OSNAT \<Rightarrow> (nat_effect list \<times> OSNAT) outcome" where
  "natClose n =
    (if natStopped n then Panic
     else let (cl, n') = closeFlows (tcpFlows n) (n\<lparr>natStopped := True\<rparr>) in
       Return ((if icmpOpen n then [IcmpClose] else []) @ map (\<lambda>(k, p). UdpClose (uConn (udpHeap n ! p))) (udpFlows n) @ cl, n'))"

section \<open>Identifiers of echo requests\<close>

lemma succ_id: "(1000 :: u16) \<le> i \<Longrightarrow> i + 1 \<noteq> 0 \<Longrightarrow> unat (i + 1) = unat i + 1 \<and> 1000 \<le> i + 1"
  by (metis add.commute word_le_nat_alt le_SucI Suc_eq_plus1 unatSuc add.commute)

lemma last_id: "(i :: u16) + 1 = 0 \<Longrightarrow> unat i = 65535"
proof -
  assume "i + 1 = 0"
  then have "i = - 1" by (simp add: eq_neg_iff_add_eq_0)
  then show ?thesis by (simp add: unsigned_minus_1_eq_mask mask_eq_exp_minus_1)
qed

lemma alloc_fresh:
  assumes "allocICMPNatID m i = Some (a, next')"
  shows "map_of m a = None \<and> (1000 \<le> i \<longrightarrow> 1000 \<le> a \<and> 1000 \<le> next')"
proof -
  have "map_of m (fst r) = None \<and> (1000 \<le> i \<longrightarrow> 1000 \<le> fst r \<and> 1000 \<le> snd r)" if "allocICMPNatID m i = Some r" for r
    using that
  proof (rule allocICMPNatID.raw_induct [where P = "\<lambda>m i r. map_of m (fst r) = None \<and> (1000 \<le> i \<longrightarrow> 1000 \<le> fst r \<and> 1000 \<le> snd r)", rotated])
    fix g :: "(u16, nat) gomap \<Rightarrow> u16 \<Rightarrow> (u16 \<times> u16) option" and m i r
    assume IH: "\<And>m i r. g m i = Some r \<Longrightarrow> map_of m (fst r) = None \<and> (1000 \<le> i \<longrightarrow> 1000 \<le> fst r \<and> 1000 \<le> snd r)"
      and st: "(let next' = if i + 1 = 0 then 1000 else i + 1 in if map_of m i = None then Some (i, next') else g m next') = Some r"
    define next' where "next' = (if i + 1 = 0 then 1000 else i + 1)"
    have "1000 \<le> next'" if "1000 \<le> i" using succ_id [OF that] by (auto simp: next'_def)
    then show "map_of m (fst r) = None \<and> (1000 \<le> i \<longrightarrow> 1000 \<le> fst r \<and> 1000 \<le> snd r)"
      using st IH [of m next' r] by (auto simp: next'_def [symmetric] Let_def split: if_splits)
  qed
  from this [OF assms] show ?thesis by simp
qed

text \<open>Going up from \<open>i\<close>, and round the end, a free identifier is found.\<close>

lemma alloc_above: "map_of m f = None \<Longrightarrow> 1000 \<le> i \<Longrightarrow> i \<le> f \<Longrightarrow> allocICMPNatID m i \<noteq> None"
proof (induction "unat f - unat i" arbitrary: i)
  case 0
  then have "i = f" by (simp add: word_le_nat_alt word_unat_eq_iff)
  then show ?case using 0 by (subst allocICMPNatID.simps) (simp add: Let_def)
next
  case (Suc k)
  show ?case
  proof (cases "map_of m i = None")
    case True
    then show ?thesis by (subst allocICMPNatID.simps) (simp add: Let_def)
  next
    case False
    have lt: "unat i < unat f" using Suc by simp
    then have "i + 1 \<noteq> 0" using last_id [of i] unsigned_less [of f, where 'a = nat] by auto
    note i1 = succ_id [OF Suc.prems(2) this] this
    then have "allocICMPNatID m (i + 1) \<noteq> None" using Suc lt by (intro Suc.hyps) (auto simp: word_le_nat_alt)
    then show ?thesis using False i1 by (subst allocICMPNatID.simps) (simp add: Let_def)
  qed
qed

lemma alloc_wraps: "allocICMPNatID m 1000 \<noteq> None \<Longrightarrow> 1000 \<le> i \<Longrightarrow> allocICMPNatID m i \<noteq> None"
proof (induction "65535 - unat i" arbitrary: i)
  case 0
  show ?case
  proof (cases "i + 1 = 0")
    case True
    then show ?thesis using 0(2) by (subst allocICMPNatID.simps) (simp add: Let_def)
  next
    case False
    then have "unat (i + 1) = unat i + 1" using succ_id 0(3) by blast
    then show ?thesis using 0(1) unsigned_less [of "i + 1", where 'a = nat] by simp
  qed
next
  case (Suc k)
  then have "i + 1 \<noteq> 0" using last_id [of i] by auto
  note i1 = succ_id [OF Suc.prems(2) this] this
  have "k = 65535 - unat (i + 1)" using Suc.hyps(2) i1(1) by arith
  then have "allocICMPNatID m (i + 1) \<noteq> None" by (rule Suc.hyps(1)) (use Suc.prems(1) i1(1) in simp_all)
  then show ?case using i1(2) by (subst allocICMPNatID.simps) (simp add: Let_def)
qed

lemma alloc_returns:
  assumes "1000 \<le> i" "length m < 64536"
  shows "allocICMPNatID m i \<noteq> None"
proof -
  have "card {a :: u16. 1000 \<le> a} = 64536"
  proof -
    have "bij_betw unat {a :: u16. 1000 \<le> a} {1000..<65536}"
      by (rule bij_betw_byWitness [where f' = word_of_nat]) (auto simp: word_le_nat_alt unat_of_nat unat_word16)
    then show ?thesis by (simp add: bij_betw_same_card)
  qed
  moreover have "card (fst ` set m) < 64536"
    using assms(2) card_length [of "map fst m"] by simp
  ultimately have "\<not> {a :: u16. 1000 \<le> a} \<subseteq> fst ` set m"
    by (metis List.finite_set card_mono finite_imageI linorder_not_less)
  then obtain f where "1000 \<le> f" "map_of m f = None" by (auto simp: map_of_eq_None_iff)
  then show ?thesis using alloc_above [of m f 1000] alloc_wraps [OF _ assms(1)] by blast
qed

section \<open>Runs\<close>

datatype nat_op =
    NForward int "nat option" bytes u16 u8
  | NIcmpReply int ip u16 u16 bytes
  | NUdpRead osFlowKey nat ip bytes bool
  | NTcpConnect int "nat option" u32 osFlowKey u32 u16 u16 u16 u8
  | NTcpRead osFlowKey nat bytes "readError option"
  | NTcpWait osFlowKey nat bool
  | NCleanup int
  | NClose

fun nat_step :: "(bool \<Rightarrow> u16 \<Rightarrow> u16 \<Rightarrow> bytes \<Rightarrow> bytes option) \<Rightarrow> nat_op \<Rightarrow> OSNAT \<Rightarrow> (nat_effect list \<times> OSNAT) outcome" where
  "nat_step marshal (NForward now dial pkt net nd) n = Forward marshal now dial pkt net nd n"
| "nat_step marshal (NIcmpReply now srcIP i s body) n = Return (icmpReply marshal now srcIP i s body n)"
| "nat_step marshal (NUdpRead key p server got err) n = Return (udpRead key p server got err n)"
| "nat_step marshal (NTcpConnect now dial isn key macISN m w net nd) n = Return (tcpConnect now dial isn key macISN m w net nd n)"
| "nat_step marshal (NTcpRead key p got err) n = tcpServerRead key p got err n"
| "nat_step marshal (NTcpWait key p pickDone) n = Return (snd (tcpWait key p pickDone n))"
| "nat_step marshal NClose n = natClose n"
| "nat_step marshal (NCleanup now) n = Return (cleanupTick now n)"

primrec nat_run :: "(bool \<Rightarrow> u16 \<Rightarrow> u16 \<Rightarrow> bytes \<Rightarrow> bytes option) \<Rightarrow> nat_op list \<Rightarrow> OSNAT \<Rightarrow> OSNAT outcome" where
  "nat_run marshal [] n = Return n"
| "nat_run marshal (op # ops) n = and_then (nat_step marshal op n) (\<lambda>(out, n). nat_run marshal ops n)"

section \<open>The maps of echo requests\<close>

definition icmp_inv :: "OSNAT \<Rightarrow> bool" where
  "icmp_inv n \<longleftrightarrow>
    1000 \<le> icmpNextID n \<and> wf_gomap (icmpByClient n) \<and> wf_gomap (icmpByNatID n) \<and>
    (\<forall>ck p. map_of (icmpByClient n) ck = Some p \<longrightarrow> p < length (icmpHeap n) \<and>
       ck = (icClientIP (icmpHeap n ! p), icClientID (icmpHeap n ! p)) \<and> map_of (icmpByNatID n) (icNatID (icmpHeap n ! p)) = Some p) \<and>
    (\<forall>i p. map_of (icmpByNatID n) i = Some p \<longrightarrow> p < length (icmpHeap n) \<and>
       i = icNatID (icmpHeap n ! p) \<and> map_of (icmpByClient n) (icClientIP (icmpHeap n ! p), icClientID (icmpHeap n ! p)) = Some p)"

lemma icmp_invD:
  assumes "icmp_inv n"
  shows "1000 \<le> icmpNextID n" "wf_gomap (icmpByClient n)" "wf_gomap (icmpByNatID n)"
    "map_of (icmpByClient n) ck = Some p \<Longrightarrow> p < length (icmpHeap n) \<and>
       ck = (icClientIP (icmpHeap n ! p), icClientID (icmpHeap n ! p)) \<and> map_of (icmpByNatID n) (icNatID (icmpHeap n ! p)) = Some p"
    "map_of (icmpByNatID n) i = Some p \<Longrightarrow> p < length (icmpHeap n) \<and>
       i = icNatID (icmpHeap n ! p) \<and> map_of (icmpByClient n) (icClientIP (icmpHeap n ! p), icClientID (icmpHeap n ! p)) = Some p"
  using assms unfolding icmp_inv_def by blast+

lemma icmp_invI:
  assumes "icmpHeap n = h" "icmpByClient n = A" "icmpByNatID n = B" "1000 \<le> icmpNextID n" "wf_gomap A" "wf_gomap B"
    and "\<And>ck p. map_of A ck = Some p \<Longrightarrow> p < length h \<and> ck = (icClientIP (h ! p), icClientID (h ! p)) \<and> map_of B (icNatID (h ! p)) = Some p"
    and "\<And>i p. map_of B i = Some p \<Longrightarrow> p < length h \<and> i = icNatID (h ! p) \<and> map_of A (icClientIP (h ! p), icClientID (h ! p)) = Some p"
  shows "icmp_inv n"
  unfolding icmp_inv_def assms(1-3) using assms(4-8) by blast

definition same_icmp :: "OSNAT \<Rightarrow> OSNAT \<Rightarrow> bool" where
  "same_icmp n n' \<longleftrightarrow> icmpHeap n' = icmpHeap n \<and> icmpByClient n' = icmpByClient n \<and> icmpByNatID n' = icmpByNatID n \<and> icmpNextID n' = icmpNextID n"

lemma icmp_inv_same: "icmp_inv n \<Longrightarrow> same_icmp n n' \<Longrightarrow> icmp_inv n'"
  unfolding icmp_inv_def same_icmp_def by (elim conjE) (simp only:)

lemma same_icmp_refl [simp]: "same_icmp n n"
  by (simp add: same_icmp_def)

lemma same_icmp_trans: "same_icmp a b \<Longrightarrow> same_icmp b c \<Longrightarrow> same_icmp a c"
  by (simp add: same_icmp_def)

lemma same_icmp_updFlow [simp]: "same_icmp n (updFlow p g n)" "same_icmp n (snd (closeConn p n))"
  by (simp_all add: same_icmp_def updFlow_def closeConn_def)

lemma same_icmp_udp: "same_icmp n (snd (forwardUDP now dial pkt ihl net nd n))"
  by (auto simp: same_icmp_def forwardUDP_def Let_def split: option.split)

lemma same_icmp_udpRead: "same_icmp n (snd (udpRead key p server got err n))"
  by (cases key) (auto simp: same_icmp_def udpRead_def Let_def)

lemma same_icmp_tcp: "handleTCP now pkt ihl net nd n = Return r \<Longrightarrow> same_icmp n (snd r)"
  by (auto simp: handleTCP_def tcpSegment_def same_icmp_def closeConn_def updFlow_def Let_def split: if_splits option.splits)

lemma same_icmp_connect: "same_icmp n (snd (tcpConnect now dial isn key macISN m w net nd n))"
  by (cases key) (auto simp: tcpConnect_def same_icmp_def Let_def split: option.split)

lemma same_icmp_relay:
  assumes "relayChunks p got n = Some r"
  shows "same_icmp n (snd r)"
  using assms
proof (rule relayChunks.raw_induct [where P = "\<lambda>p got n r. same_icmp n (snd r)", rotated])
  fix g :: "nat \<Rightarrow> bytes \<Rightarrow> OSNAT \<Rightarrow> (nat_effect list \<times> OSNAT) option" and p got n r
  assume IH: "\<And>p got n r. g p got n = Some r \<Longrightarrow> same_icmp n (snd r)"
    and st: "(if got = [] then Some ([], n)
     else
       let f = tcpHeap n ! p;
           chunk = (if length got > unat (mss f) then take (unat (mss f)) got else got);
           n' = updFlow p (\<lambda>f. f\<lparr>ourSeq := ourSeq f + word_of_nat (length chunk)\<rparr>) n in
       Option.bind (g p (drop (length chunk) got) n')
         (\<lambda>(out, n''). Some (sendTCPSegment f (ourSeq f) (macSeq f) 0x18 chunk n' @ out, n''))) = Some r"
  show "same_icmp n (snd r)"
  proof (cases "got = []")
    case False
    then obtain c h out n'' where r: "g p (drop c got) (updFlow p h n) = Some (out, n'')" "snd r = n''"
      using st by (auto simp: Let_def bind_eq_Some_conv simp del: length_take)
    then show ?thesis using same_icmp_trans [OF same_icmp_updFlow(1)] IH [OF r(1)] by force
  qed (use st in auto)
qed

lemma same_icmp_server:
  assumes "tcpServerRead key p got err n = Return r"
  shows "same_icmp n (snd r)"
proof -
  obtain out n' where n': "relayChunks p got n = Some (out, n')" using assms by (cases "relayChunks p got n") (auto simp: tcpServerRead_def)
  then have "same_icmp n n'" using same_icmp_relay by force
  moreover have "same_icmp n' (snd r)"
    using assms n' by (auto simp: tcpServerRead_def tcpLoopExit_def same_icmp_def closeConn_def updFlow_def Let_def split: option.splits)
  ultimately show ?thesis by (rule same_icmp_trans)
qed

lemma same_icmp_wait: "same_icmp n (snd (snd (tcpWait key p pickDone n)))"
  by (auto simp: tcpWait_def tcpLoopExit_def same_icmp_def closeConn_def updFlow_def Let_def)

lemma same_icmp_close:
  assumes "natClose n = Return r"
  shows "same_icmp n (snd r)"
proof -
  have fl: "same_icmp n (snd (fold (\<lambda>(k, q) (out, n). case q of
      Some p \<Rightarrow> let (cl, n) = closeConn p n in (out @ cl, n) | None \<Rightarrow> (out, n)) fs (out0, n0)))" if "same_icmp n n0" for fs out0 n0
    using that
    by (induction fs arbitrary: out0 n0) (auto simp: case_prod_beta closeConn_def updFlow_def same_icmp_def Let_def split: option.split)
  have "same_icmp n (snd (closeFlows fs (n\<lparr>natStopped := True\<rparr>)))" for fs
    unfolding closeFlows_def by (rule fl) (simp add: same_icmp_def)
  then show ?thesis using assms by (auto simp: natClose_def case_prod_beta split: if_splits)
qed

lemma same_icmp_cleanup: "same_icmp n (snd (cleanupUDP now n))" "same_icmp n (snd (cleanupTCP now n))"
proof -
  show "same_icmp n (snd (cleanupUDP now n))" by (simp add: cleanupUDP_def same_icmp_def Let_def)
  have "same_icmp n (snd (fold (\<lambda>(k, q) (out, n). case q of
         Some p \<Rightarrow>
           if now > tExpiry (tcpHeap n ! p)
           then let (cl, n) = closeConn p n in (out @ cl, n\<lparr>tcpFlows := AList.delete k (tcpFlows n)\<rparr>)
           else (out, n)
       | None \<Rightarrow> (out, n)) xs (out0, n0)))" if "same_icmp n n0" for xs out0 n0
    using that
    by (induction xs arbitrary: out0 n0) (auto simp: case_prod_beta closeConn_def updFlow_def same_icmp_def Let_def split: option.split)
  then show "same_icmp n (snd (cleanupTCP now n))" unfolding cleanupTCP_def by simp
qed


lemma icmp_inv_touch:
  assumes "icmp_inv n"
  shows "icmp_inv (n\<lparr>icmpHeap := (icmpHeap n)[p := (icmpHeap n ! p)\<lparr>icExpiry := t\<rparr>]\<rparr>)"
proof -
  let ?h = "(icmpHeap n)[p := (icmpHeap n ! p)\<lparr>icExpiry := t\<rparr>]"
  have keep: "icNatID (?h ! q) = icNatID (icmpHeap n ! q)" "icClientIP (?h ! q) = icClientIP (icmpHeap n ! q)"
      "icClientID (?h ! q) = icClientID (icmpHeap n ! q)" for q
    by (cases "p < length (icmpHeap n)"; cases "p = q"; simp add: list_update_beyond)+
  show ?thesis using assms unfolding icmp_inv_def by (simp add: keep del: split_paired_All)
qed

lemma icmp_inv_add:
  assumes inv: "icmp_inv n" and new: "map_of (icmpByClient n) ck = None" "map_of (icmpByNatID n) a = None" "1000 \<le> next'"
    and e: "ck = (icClientIP e, icClientID e)" "a = icNatID e"
  shows "icmp_inv (n\<lparr>icmpHeap := icmpHeap n @ [e], icmpByClient := AList.update ck (length (icmpHeap n)) (icmpByClient n),
    icmpByNatID := AList.update a (length (icmpHeap n)) (icmpByNatID n), icmpNextID := next'\<rparr>)"
proof -
  note D = icmp_invD [OF inv]
  have app: "(icmpHeap n @ [e]) ! q = icmpHeap n ! q" if "q < length (icmpHeap n)" for q using that by (simp add: nth_append)
  have A: "p < length (icmpHeap n) \<and> k = (icClientIP (icmpHeap n ! p), icClientID (icmpHeap n ! p)) \<and>
      map_of (icmpByNatID n) (icNatID (icmpHeap n ! p)) = Some p \<and> icNatID (icmpHeap n ! p) \<noteq> a" if "map_of (icmpByClient n) k = Some p" for k p
    using D(4) [OF that] new(2) by auto
  have B: "p < length (icmpHeap n) \<and> i = icNatID (icmpHeap n ! p) \<and>
      map_of (icmpByClient n) (icClientIP (icmpHeap n ! p), icClientID (icmpHeap n ! p)) = Some p \<and>
      (icClientIP (icmpHeap n ! p), icClientID (icmpHeap n ! p)) \<noteq> ck" if "map_of (icmpByNatID n) i = Some p" for i p
    using D(5) [OF that] new(1) by auto
  let ?L = "length (icmpHeap n)" and ?h = "icmpHeap n @ [e]"
  have X: "p < length ?h \<and> k = (icClientIP (?h ! p), icClientID (?h ! p)) \<and> ((map_of (icmpByNatID n))(a \<mapsto> ?L)) (icNatID (?h ! p)) = Some p"
    if "((map_of (icmpByClient n))(ck \<mapsto> ?L)) k = Some p" for k p
    using that A [of k p] e by (cases "k = ck") (auto simp: app nth_append)
  have Y: "p < length ?h \<and> i = icNatID (?h ! p) \<and>
      ((map_of (icmpByClient n))(ck \<mapsto> ?L)) (icClientIP (?h ! p), icClientID (?h ! p)) = Some p"
    if "((map_of (icmpByNatID n))(a \<mapsto> ?L)) i = Some p" for i p
    using that B [of i p] e by (cases "i = a") (auto simp: app nth_append)
  show ?thesis
  proof (rule icmp_invI [where h = ?h and A = "AList.update ck ?L (icmpByClient n)" and B = "AList.update a ?L (icmpByNatID n)"], goal_cases)
    case 7 then show ?case using X unfolding update_conv' by blast
  next
    case 8 then show ?case using Y unfolding update_conv' by blast
  qed (use new(3) D(2,3) in simp_all)
qed

lemma icmp_inv_delete:
  assumes inv: "icmp_inv n" and p: "map_of (icmpByClient n) ck = Some p"
  shows "icmp_inv (n\<lparr>icmpByNatID := AList.delete (icNatID (icmpHeap n ! p)) (icmpByNatID n), icmpByClient := AList.delete ck (icmpByClient n)\<rparr>)"
proof -
  note D = icmp_invD [OF inv]
  note P = D(4) [OF p]
  have A: "icNatID (icmpHeap n ! q) \<noteq> icNatID (icmpHeap n ! p)" if "map_of (icmpByClient n) k = Some q" "k \<noteq> ck" for k q
    using D(4) [OF that(1)] P that(2) by (metis option.inject)
  have B: "(icClientIP (icmpHeap n ! q), icClientID (icmpHeap n ! q)) \<noteq> ck"
    if "map_of (icmpByNatID n) i = Some q" "i \<noteq> icNatID (icmpHeap n ! p)" for i q
    using D(5) [OF that(1)] p that(2) by (metis option.inject)
  let ?a = "icNatID (icmpHeap n ! p)"
  have X: "q < length (icmpHeap n) \<and> k = (icClientIP (icmpHeap n ! q), icClientID (icmpHeap n ! q)) \<and>
      ((map_of (icmpByNatID n))(?a := None)) (icNatID (icmpHeap n ! q)) = Some q"
    if "((map_of (icmpByClient n))(ck := None)) k = Some q" for k q
    using that A [of k q] D(4) [of k q] by (cases "k = ck") simp_all
  have Y: "q < length (icmpHeap n) \<and> i = icNatID (icmpHeap n ! q) \<and>
      ((map_of (icmpByClient n))(ck := None)) (icClientIP (icmpHeap n ! q), icClientID (icmpHeap n ! q)) = Some q"
    if "((map_of (icmpByNatID n))(?a := None)) i = Some q" for i q
    using that B [of i q] D(5) [of i q] by (cases "i = ?a") simp_all
  show ?thesis
  proof (rule icmp_invI [where h = "icmpHeap n" and A = "AList.delete ck (icmpByClient n)" and B = "AList.delete ?a (icmpByNatID n)"], goal_cases)
    case 7 then show ?case using X unfolding delete_conv' by blast
  next
    case 8 then show ?case using Y unfolding delete_conv' by blast
  qed (use D(1-3) in simp_all)
qed

lemma icmp_inv_new: "icmp_inv (NewOSNAT socket ddpType icmpOk)"
  by (simp add: icmp_inv_def NewOSNAT_def)

text \<open>The state with a new mapping.\<close>

definition addMapping :: "ip \<times> u16 \<Rightarrow> u16 \<Rightarrow> u16 \<Rightarrow> u16 \<Rightarrow> u8 \<Rightarrow> OSNAT \<Rightarrow> OSNAT" where
  "addMapping ck a next' net nd n =
    n\<lparr>icmpHeap := icmpHeap n @ [\<lparr>icAtNet = net, icAtNode = nd, icClientIP = fst ck, icClientID = snd ck, icNatID = a, icExpiry = 0\<rparr>],
      icmpByClient := AList.update ck (length (icmpHeap n)) (icmpByClient n),
      icmpByNatID := AList.update a (length (icmpHeap n)) (icmpByNatID n), icmpNextID := next'\<rparr>"

lemma icmp_inv_addMapping:
  "icmp_inv n \<Longrightarrow> map_of (icmpByClient n) ck = None \<Longrightarrow> map_of (icmpByNatID n) a = None \<Longrightarrow> 1000 \<le> next' \<Longrightarrow> icmp_inv (addMapping ck a next' net nd n)"
  unfolding addMapping_def by (rule icmp_inv_add) simp_all

text \<open>An echo request that is let through: the mapping it uses, in the state before its expiry is set.\<close>

lemma forwardICMP_found:
  assumes inv: "icmp_inv n" and r: "forwardICMP marshal now pkt ihl net nd n = Return (out, n')"
    and ok: "icmpOpen n" "ihl + 8 \<le> length pkt" "pkt ! ihl = 8"
    and ck: "ck = (take 4 (drop 12 pkt), be16 (pkt ! (ihl + 4)) (pkt ! (ihl + 5)))"
  obtains p n1 where
      "n1 = n \<and> map_of (icmpByClient n) ck = Some p \<or>
       (\<exists>a next'. map_of (icmpByClient n) ck = None \<and> map_of (icmpByNatID n) a = None \<and> 1000 \<le> next' \<and>
         p = length (icmpHeap n) \<and> n1 = addMapping ck a next' net nd n)"
      "n' = n1\<lparr>icmpHeap := (icmpHeap n1)[p := (icmpHeap n1 ! p)\<lparr>icExpiry := now + osNATICMPTimeout\<rparr>]\<rparr>"
      "p < length (icmpHeap n1)"
      "out = (case marshal False (icNatID (icmpHeap n1 ! p)) (be16 (pkt ! (ihl + 6)) (pkt ! (ihl + 7))) (drop (ihl + 8) pkt) of
        Some b \<Rightarrow> [IcmpWrite (take 4 (drop 16 pkt)) b] | None \<Rightarrow> [])"
proof (cases "map_of (icmpByClient n) ck")
  case (Some p)
  then have "p < length (icmpHeap n)" using icmp_invD(4) [OF inv] by blast
  then show ?thesis using Some r ok by (intro that [of n p]) (auto simp: forwardICMP_def ck Let_def)
next
  case None
  obtain a next' where al: "allocICMPNatID (icmpByNatID n) (icmpNextID n) = Some (a, next')"
    using r ok None by (cases "allocICMPNatID (icmpByNatID n) (icmpNextID n)") (auto simp: forwardICMP_def ck Let_def)
  have fresh: "map_of (icmpByNatID n) a = None" "1000 \<le> next'" using alloc_fresh [OF al] icmp_invD(1) [OF inv] by auto
  then show ?thesis using None r ok al
    by (intro that [of "addMapping ck a next' net nd n" "length (icmpHeap n)"]) (auto simp: forwardICMP_def addMapping_def ck Let_def)
qed

text \<open>
  The mapping of identifier \<open>a\<close>: the client, where it is, and a time before which it does not expire.
\<close>

definition maps_to :: "u16 \<Rightarrow> ip \<times> u16 \<Rightarrow> u16 \<times> u8 \<Rightarrow> int \<Rightarrow> OSNAT \<Rightarrow> bool" where
  "maps_to a ck addr E n \<longleftrightarrow> (\<exists>p. map_of (icmpByNatID n) a = Some p \<and> (let e = icmpHeap n ! p in
     ck = (icClientIP e, icClientID e) \<and> addr = (icAtNet e, icAtNode e) \<and> E \<le> icExpiry e))"

lemma maps_to_same: "maps_to a ck addr E n \<Longrightarrow> same_icmp n n' \<Longrightarrow> maps_to a ck addr E n'"
  by (simp add: maps_to_def same_icmp_def)

lemma maps_to_touch:
  assumes "maps_to a ck addr E n" "E \<le> t"
  shows "maps_to a ck addr E (n\<lparr>icmpHeap := (icmpHeap n)[p := (icmpHeap n ! p)\<lparr>icExpiry := t\<rparr>]\<rparr>)"
proof -
  let ?h = "(icmpHeap n)[p := (icmpHeap n ! p)\<lparr>icExpiry := t\<rparr>]"
  have "icClientIP (?h ! q) = icClientIP (icmpHeap n ! q)" "icClientID (?h ! q) = icClientID (icmpHeap n ! q)"
      "icAtNet (?h ! q) = icAtNet (icmpHeap n ! q)" "icAtNode (?h ! q) = icAtNode (icmpHeap n ! q)"
      "E \<le> icExpiry (icmpHeap n ! q) \<Longrightarrow> E \<le> icExpiry (?h ! q)" for q
    using assms(2) by (cases "p < length (icmpHeap n)"; cases "p = q"; simp add: list_update_beyond)+
  then show ?thesis using assms(1) by (auto simp: maps_to_def Let_def)
qed

lemma maps_to_addMapping:
  assumes "icmp_inv n" "maps_to a ck addr E n" "map_of (icmpByNatID n) a' = None"
  shows "maps_to a ck addr E (addMapping ck' a' next' net nd n)"
proof -
  obtain p where "map_of (icmpByNatID n) a = Some p" "p < length (icmpHeap n)"
    using assms(2) icmp_invD(5) [OF assms(1)] by (auto simp: maps_to_def)
  then show ?thesis using assms(2,3) by (auto simp: maps_to_def addMapping_def update_conv' nth_append)
qed

lemma icmp_forward:
  assumes inv: "icmp_inv n" and st: "forwardICMP marshal now pkt ihl net nd n = Return (out, n')"
  shows "icmp_inv n'" "maps_to a ck addr E n \<Longrightarrow> E \<le> now + osNATICMPTimeout \<Longrightarrow> maps_to a ck addr E n'"
proof -
  have "icmp_inv n' \<and> (maps_to a ck addr E n \<longrightarrow> E \<le> now + osNATICMPTimeout \<longrightarrow> maps_to a ck addr E n')"
  proof (cases "icmpOpen n \<and> ihl + 8 \<le> length pkt \<and> pkt ! ihl = 8")
    case True
    let ?ck = "(take 4 (drop 12 pkt), be16 (pkt ! (ihl + 4)) (pkt ! (ihl + 5)))"
    obtain p n1 where n1: "n1 = n \<and> map_of (icmpByClient n) ?ck = Some p \<or>
       (\<exists>a next'. map_of (icmpByClient n) ?ck = None \<and> map_of (icmpByNatID n) a = None \<and> 1000 \<le> next' \<and>
         p = length (icmpHeap n) \<and> n1 = addMapping ?ck a next' net nd n)"
      and n': "n' = n1\<lparr>icmpHeap := (icmpHeap n1)[p := (icmpHeap n1 ! p)\<lparr>icExpiry := now + osNATICMPTimeout\<rparr>]\<rparr>"
      by (rule forwardICMP_found [OF assms, of ?ck]) (use True in simp_all)
    have "icmp_inv n1" using n1 inv icmp_inv_addMapping by blast
    moreover have "maps_to a ck addr E n \<Longrightarrow> maps_to a ck addr E n1" using n1 maps_to_addMapping [OF inv] by blast
    ultimately show ?thesis unfolding n' using icmp_inv_touch maps_to_touch by blast
  qed (use assms in \<open>auto simp: forwardICMP_def\<close>)
  then show "icmp_inv n'" "maps_to a ck addr E n \<Longrightarrow> E \<le> now + osNATICMPTimeout \<Longrightarrow> maps_to a ck addr E n'" by auto
qed

lemma icmp_reply:
  "icmp_inv n \<Longrightarrow> icmp_inv (snd (icmpReply marshal now srcIP i s body n))"
  "maps_to a ck addr E n \<Longrightarrow> E \<le> now + osNATICMPTimeout \<Longrightarrow> maps_to a ck addr E (snd (icmpReply marshal now srcIP i s body n))"
  by (auto simp: icmpReply_def Let_def icmp_inv_touch maps_to_touch split: option.split)

lemma maps_to_delete:
  assumes "icmp_inv n" "map_of (icmpByClient n) ck' = Some q" "icExpiry (icmpHeap n ! q) < E" "maps_to a ck addr E n"
  shows "maps_to a ck addr E (n\<lparr>icmpByNatID := AList.delete (icNatID (icmpHeap n ! q)) (icmpByNatID n), icmpByClient := AList.delete ck' (icmpByClient n)\<rparr>)"
proof -
  have "map_of (icmpByNatID n) (icNatID (icmpHeap n ! q)) = Some q" using icmp_invD(4) [OF assms(1,2)] by blast
  then have "icNatID (icmpHeap n ! q) \<noteq> a" using assms(3,4) by (auto simp: maps_to_def Let_def)
  then show ?thesis using assms(4) by (simp add: maps_to_def delete_conv')
qed

lemma icmp_cleanup:
  assumes "icmp_inv n"
  shows "icmp_inv (cleanupICMP now n)" "maps_to a ck addr E n \<Longrightarrow> now \<le> E \<Longrightarrow> maps_to a ck addr E (cleanupICMP now n)"
proof -
  let ?f = "fold (\<lambda>(ck, p) n. if now > icExpiry (icmpHeap n ! p)
       then n\<lparr>icmpByNatID := AList.delete (icNatID (icmpHeap n ! p)) (icmpByNatID n), icmpByClient := AList.delete ck (icmpByClient n)\<rparr>
       else n)"
  have fl: "icmp_inv (?f xs n) \<and> (maps_to a ck addr E n \<longrightarrow> now \<le> E \<longrightarrow> maps_to a ck addr E (?f xs n))"
    if "icmp_inv n" "\<And>ck p. (ck, p) \<in> set xs \<Longrightarrow> map_of (icmpByClient n) ck = Some p" "wf_gomap xs" for xs n
    using that
  proof (induction xs arbitrary: n)
    case (Cons x xs)
    obtain c p where x: "x = (c, p)" by (cases x) auto
    have p: "map_of (icmpByClient n) c = Some p" using Cons.prems(2) x by simp
    have rest: "map_of (icmpByClient n) k = Some q" "k \<noteq> c" if "(k, q) \<in> set xs" for k q
    proof -
      show "map_of (icmpByClient n) k = Some q" using that Cons.prems(2) by simp
      have "k \<in> fst ` set xs" using that by (metis fst_conv imageI)
      then show "k \<noteq> c" using Cons.prems(3) x by auto
    qed
    define n1 where "n1 = (if now > icExpiry (icmpHeap n ! p)
       then n\<lparr>icmpByNatID := AList.delete (icNatID (icmpHeap n ! p)) (icmpByNatID n), icmpByClient := AList.delete c (icmpByClient n)\<rparr> else n)"
    have i1: "icmp_inv n1" unfolding n1_def using icmp_inv_delete [OF Cons.prems(1) p] Cons.prems(1) by simp
    have m1: "maps_to a ck addr E n \<Longrightarrow> now \<le> E \<Longrightarrow> maps_to a ck addr E n1"
      unfolding n1_def using maps_to_delete [OF Cons.prems(1) p] by simp
    have r1: "map_of (icmpByClient n1) k = Some q" if "(k, q) \<in> set xs" for k q
      using rest [OF that] by (simp add: n1_def delete_conv')
    have wf: "wf_gomap xs" using Cons.prems(3) by simp
    have "?f (x # xs) n = ?f xs n1" by (simp add: x n1_def)
    then show ?case using Cons.IH [OF i1 r1 wf] m1 by simp
  qed simp
  have "icmp_inv (cleanupICMP now n) \<and> (maps_to a ck addr E n \<longrightarrow> now \<le> E \<longrightarrow> maps_to a ck addr E (cleanupICMP now n))"
    unfolding cleanupICMP_def by (rule fl [OF assms]) (use icmp_invD(2) [OF assms] in \<open>simp_all only: wf_gomap_mem_iff\<close>)
  then show "icmp_inv (cleanupICMP now n)" "maps_to a ck addr E n \<Longrightarrow> now \<le> E \<Longrightarrow> maps_to a ck addr E (cleanupICMP now n)" by auto
qed

lemma Forward_cases:
  assumes "Forward marshal now dial pkt net nd n = Return (out, n')"
  obtains (kept) "n' = n" | (icmp) ihl where "forwardICMP marshal now pkt ihl net nd n = Return (out, n')"
    | (same) "same_icmp n n'"
proof -
  consider "n' = n" | ihl where "forwardICMP marshal now pkt ihl net nd n = Return (out, n')"
    | ihl where "forwardUDP now dial pkt ihl net nd n = (out, n')" | ihl where "handleTCP now pkt ihl net nd n = Return (out, n')"
    using assms unfolding Forward_def Let_def by (auto split: if_splits)
  then show ?thesis
  proof cases
    case (3 ihl) then show ?thesis using same same_icmp_udp [of n now dial pkt ihl net nd] by simp
  next
    case 4 from same_icmp_tcp [OF this] show ?thesis using same by simp
  qed (use kept icmp in blast)+
qed

text \<open>Clocks read after \<open>lo\<close>, and no clean-up later than \<open>osNATICMPTimeout\<close> after it.\<close>

fun within_timeout :: "int \<Rightarrow> nat_op \<Rightarrow> bool" where
  "within_timeout lo (NForward t dial pkt net nd) \<longleftrightarrow> lo \<le> t"
| "within_timeout lo (NIcmpReply t srcIP i s body) \<longleftrightarrow> lo \<le> t"
| "within_timeout lo (NCleanup t) \<longleftrightarrow> t \<le> lo + osNATICMPTimeout"
| "within_timeout lo op \<longleftrightarrow> True"

lemma icmp_other_step:
  assumes "nat_step marshal op n = Return (out, n')"
  obtains (same) "same_icmp n n'" | (forward) t dial pkt net nd where "op = NForward t dial pkt net nd"
    | (reply) t srcIP i s body where "op = NIcmpReply t srcIP i s body" | (cleanup) t where "op = NCleanup t"
proof (cases op)
  case (NUdpRead key p server got err)
  then show ?thesis using assms same same_icmp_udpRead [of n key p server got err] by simp
next
  case (NTcpConnect now dial isn key macISN m w net nd)
  then show ?thesis using assms same same_icmp_connect [of n now dial isn key macISN m w net nd] by simp
next
  case (NTcpRead key p got err)
  then show ?thesis using assms same same_icmp_server [of key p got err n] by simp
next
  case (NTcpWait key p pickDone)
  then show ?thesis using assms same same_icmp_wait [of n key p pickDone] by simp
next
  case NClose
  then show ?thesis using assms same same_icmp_close [of n] by simp
qed (use forward reply cleanup in blast)+

lemma icmp_tick:
  assumes "icmp_inv n"
  shows "icmp_inv (snd (cleanupTick now n))" "maps_to a ck addr E n \<Longrightarrow> now \<le> E \<Longrightarrow> maps_to a ck addr E (snd (cleanupTick now n))"
proof -
  have "same_icmp (cleanupICMP now n) (snd (cleanupTick now n))"
    using same_icmp_trans [OF same_icmp_cleanup(1) same_icmp_cleanup(2)] by (simp add: cleanupTick_def Let_def case_prod_beta)
  then show "icmp_inv (snd (cleanupTick now n))" "maps_to a ck addr E n \<Longrightarrow> now \<le> E \<Longrightarrow> maps_to a ck addr E (snd (cleanupTick now n))"
    using icmp_cleanup [OF assms] icmp_inv_same maps_to_same by blast+
qed

lemma icmp_step:
  assumes inv: "icmp_inv n" and st: "nat_step marshal op n = Return (out, n')"
  shows "icmp_inv n' \<and> (maps_to a ck addr (lo + osNATICMPTimeout) n \<longrightarrow> within_timeout lo op \<longrightarrow> maps_to a ck addr (lo + osNATICMPTimeout) n')"
  using st
proof (cases rule: icmp_other_step)
  case same
  then show ?thesis using inv icmp_inv_same maps_to_same by blast
next
  case (forward t dial pkt net nd)
  then have "Forward marshal t dial pkt net nd n = Return (out, n')" using st by simp
  then show ?thesis
  proof (cases rule: Forward_cases)
    case (icmp ihl)
    then show ?thesis using icmp_forward [OF inv icmp] forward by auto
  qed (use inv icmp_inv_same maps_to_same in blast)+
next
  case (reply t srcIP i s body)
  then have "n' = snd (icmpReply marshal t srcIP i s body n)" using st by auto
  then show ?thesis using icmp_reply inv reply by auto
next
  case (cleanup t)
  then have "n' = snd (cleanupTick t n)" using st by auto
  then show ?thesis using icmp_tick [OF inv] cleanup by auto
qed

lemma icmp_run:
  assumes "icmp_inv n" "nat_run marshal ops n = Return n'"
  shows "icmp_inv n' \<and> (maps_to a ck addr (lo + osNATICMPTimeout) n \<longrightarrow> list_all (within_timeout lo) ops \<longrightarrow> maps_to a ck addr (lo + osNATICMPTimeout) n')"
  using assms
proof (induction ops arbitrary: n)
  case (Cons op ops)
  then obtain out n1 where "nat_step marshal op n = Return (out, n1)" "nat_run marshal ops n1 = Return n'" by auto
  then show ?case using Cons icmp_step [OF Cons.prems(1), of marshal op out n1 a ck addr lo] by auto
qed simp

lemma reply_routed:
  assumes "maps_to a ck addr E n"
  shows "fst (icmpReply marshal now srcIP a s body n) = (case marshal True (snd ck) s body of
      None \<Rightarrow> [] | Some reply \<Rightarrow> routeToMac (fst addr) (snd addr) (BuildIPv4Packet srcIP (fst ck) 1 reply) n)"
  using assms by (auto simp: maps_to_def icmpReply_def routeToMac_def Let_def split: option.split)

lemma forwardICMP_returns:
  assumes "icmp_inv n" "length (icmpByNatID n) < 64536"
  shows "\<exists>out n'. forwardICMP marshal now pkt ihl net nd n = Return (out, n')"
  using alloc_returns [OF icmp_invD(1) [OF assms(1)] assms(2)]
  by (auto simp: forwardICMP_def Let_def split: option.split)

text \<open>
  C35. An echo request of a Macintosh goes out under an identifier of its own, and answers find their
  way back. In every state that the engine reaches, as long as fewer than 64536 identifiers are in use,
  an echo request is forwarded with an identifier that no other (address, identifier) pair of a client
  has; and whatever the engine does afterwards, other clients' traffic and clean-ups up to 30 seconds
  later included, a reply that carries this identifier is sent to the address the request came from,
  under the client's own identifier, at the AppleTalk node that made the mapping.
\<close>

theorem icmp_nat_roundtrip:
  assumes run: "nat_run marshal ops (NewOSNAT socket ddpType icmpOk) = Return n" "icmpOpen n" "length (icmpByNatID n) < 64536"
    and pkt: "20 \<le> length pkt" "pkt ! 9 = 1" "ihl = unat (pkt ! 0 AND 0xF) * 4" "ihl + 8 \<le> length pkt" "pkt ! ihl = 8"
    and ck: "ck = (take 4 (drop 12 pkt), be16 (pkt ! (ihl + 4)) (pkt ! (ihl + 5)))"
    and addr: "addr = (case map_of (icmpByClient n) ck of None \<Rightarrow> (net, nd) | Some p \<Rightarrow> (icAtNet (icmpHeap n ! p), icAtNode (icmpHeap n ! p)))"
  shows "\<exists>a out n'. Forward marshal now dial pkt net nd n = Return (out, n') \<and>
    out = (case marshal False a (be16 (pkt ! (ihl + 6)) (pkt ! (ihl + 7))) (drop (ihl + 8) pkt) of
      Some b \<Rightarrow> [IcmpWrite (take 4 (drop 16 pkt)) b] | None \<Rightarrow> []) \<and>
    (\<forall>ck' p. map_of (icmpByClient n') ck' = Some p \<and> icNatID (icmpHeap n' ! p) = a \<longrightarrow> ck' = ck) \<and>
    (\<forall>ops' n''. nat_run marshal ops' n' = Return n'' \<longrightarrow> list_all (within_timeout now) ops' \<longrightarrow>
      (\<forall>now' srcIP s body. fst (icmpReply marshal now' srcIP a s body n'') = (case marshal True (snd ck) s body of
        None \<Rightarrow> [] | Some reply \<Rightarrow> routeToMac (fst addr) (snd addr) (BuildIPv4Packet srcIP (fst ck) 1 reply) n'')))"
proof -
  have inv: "icmp_inv n" using icmp_run [OF icmp_inv_new run(1)] by blast
  obtain out n' where f: "forwardICMP marshal now pkt ihl net nd n = Return (out, n')"
    using forwardICMP_returns [OF inv run(3)] by blast
  have fw: "Forward marshal now dial pkt net nd n = Return (out, n')" using f pkt by (simp add: Forward_def Let_def)
  note inv' = icmp_forward(1) [OF inv f]
  obtain p n1 where n1: "n1 = n \<and> map_of (icmpByClient n) ck = Some p \<or>
       (\<exists>a next'. map_of (icmpByClient n) ck = None \<and> map_of (icmpByNatID n) a = None \<and> 1000 \<le> next' \<and>
         p = length (icmpHeap n) \<and> n1 = addMapping ck a next' net nd n)"
    and n': "n' = n1\<lparr>icmpHeap := (icmpHeap n1)[p := (icmpHeap n1 ! p)\<lparr>icExpiry := now + osNATICMPTimeout\<rparr>]\<rparr>" "p < length (icmpHeap n1)"
    and out: "out = (case marshal False (icNatID (icmpHeap n1 ! p)) (be16 (pkt ! (ihl + 6)) (pkt ! (ihl + 7))) (drop (ihl + 8) pkt) of
        Some b \<Rightarrow> [IcmpWrite (take 4 (drop 16 pkt)) b] | None \<Rightarrow> [])"
    by (rule forwardICMP_found [OF inv f run(2) pkt(4,5) ck])
  let ?a = "icNatID (icmpHeap n1 ! p)"
  have "map_of (icmpByClient n1) ck = Some p" using n1 by (auto simp: addMapping_def update_conv')
  then have c: "map_of (icmpByClient n') ck = Some p" using n' by simp
  have a: "icNatID (icmpHeap n' ! p) = ?a" "icExpiry (icmpHeap n' ! p) = now + osNATICMPTimeout"
      "icAtNet (icmpHeap n' ! p) = icAtNet (icmpHeap n1 ! p)" "icAtNode (icmpHeap n' ! p) = icAtNode (icmpHeap n1 ! p)"
    using n' by simp_all
  have D: "ck = (icClientIP (icmpHeap n' ! p), icClientID (icmpHeap n' ! p))" "map_of (icmpByNatID n') ?a = Some p"
    using icmp_invD(4) [OF inv' c] a(1) by metis+
  have "addr = (icAtNet (icmpHeap n1 ! p), icAtNode (icmpHeap n1 ! p))" using n1 addr by (auto simp: addMapping_def)
  then have m: "maps_to ?a ck addr (now + osNATICMPTimeout) n'"
    unfolding maps_to_def Let_def using D a by (intro exI [of _ p]) simp
  have "ck' = ck" if "map_of (icmpByClient n') ck' = Some q" "icNatID (icmpHeap n' ! q) = ?a" for ck' q
    using icmp_invD(4) [OF inv' that(1)] that(2) D by (metis option.inject)
  moreover have "fst (icmpReply marshal now' srcIP ?a s body n'') = (case marshal True (snd ck) s body of
        None \<Rightarrow> [] | Some reply \<Rightarrow> routeToMac (fst addr) (snd addr) (BuildIPv4Packet srcIP (fst ck) 1 reply) n'')"
    if "nat_run marshal ops' n' = Return n''" "list_all (within_timeout now) ops'" for ops' n'' now' srcIP s body
    using icmp_run [OF inv' that(1)] m that(2) reply_routed by blast
  ultimately show ?thesis using fw out by blast
qed

definition demo_marshal :: "bool \<Rightarrow> u16 \<Rightarrow> u16 \<Rightarrow> bytes \<Rightarrow> bytes option" where
  "demo_marshal reply i s body = Some ([if reply then 0 else 8, 0, 0, 0] @ put16 i @ put16 s @ body)"

definition demo_ping :: bytes where
  "demo_ping = [0x45, 0, 0, 29, 0, 0, 0, 0, 64, 1, 0, 0, 192, 168, 100, 2, 10, 0, 0, 1, 8, 0, 0, 0, 0x12, 0x34, 0, 7, 0xAA]"

theorem icmp_nat_roundtrip_witness:
  "\<exists>a out n'. Forward demo_marshal 0 None demo_ping 3 4 (NewOSNAT 72 22 True) = Return (out, n') \<and>
    out = (case demo_marshal False a 7 [0xAA] of Some b \<Rightarrow> [IcmpWrite [10, 0, 0, 1] b] | None \<Rightarrow> []) \<and>
    fst (icmpReply demo_marshal 1 [10, 0, 0, 1] a 7 [0xAA] n') =
      routeToMac 3 4 (BuildIPv4Packet [10, 0, 0, 1] [192, 168, 100, 2] 1 [0, 0, 0, 0, 0x12, 0x34, 0, 7, 0xAA]) n'"
proof -
  have r: "nat_run demo_marshal [] (NewOSNAT 72 22 True) = Return (NewOSNAT 72 22 True)" by simp
  have p: "20 \<le> length demo_ping" "demo_ping ! 9 = 1" "20 = unat (demo_ping ! 0 AND 0xF) * 4" "20 + 8 \<le> length demo_ping" "demo_ping ! 20 = 8"
    by (simp_all add: demo_ping_def)
  have ck: "([192, 168, 100, 2], 0x1234) = (take 4 (drop 12 demo_ping), be16 (demo_ping ! (20 + 4)) (demo_ping ! (20 + 5)))" by code_simp
  have ad: "(3, 4) = (case map_of (icmpByClient (NewOSNAT 72 22 True)) ([192, 168, 100, 2], 0x1234) of None \<Rightarrow> (3, 4)
      | Some p \<Rightarrow> (icAtNet (icmpHeap (NewOSNAT 72 22 True) ! p), icAtNode (icmpHeap (NewOSNAT 72 22 True) ! p)))"
    by (simp add: NewOSNAT_def)
  have v: "be16 (demo_ping ! (20 + 6)) (demo_ping ! (20 + 7)) = 7" "drop (20 + 8) demo_ping = [0xAA]" "take 4 (drop 16 demo_ping) = [10, 0, 0, 1]"
      "demo_marshal True 0x1234 7 [0xAA] = Some [0, 0, 0, 0, 0x12, 0x34, 0, 7, 0xAA]"
    by code_simp+
  obtain a out n' where f: "Forward demo_marshal 0 None demo_ping 3 4 (NewOSNAT 72 22 True) = Return (out, n')"
    and o: "out = (case demo_marshal False a 7 [0xAA] of Some b \<Rightarrow> [IcmpWrite [10, 0, 0, 1] b] | None \<Rightarrow> [])"
    and rep: "\<And>ops' n''. nat_run demo_marshal ops' n' = Return n'' \<Longrightarrow> list_all (within_timeout 0) ops' \<Longrightarrow>
      (\<forall>now' srcIP s body. fst (icmpReply demo_marshal now' srcIP a s body n'') = (case demo_marshal True 0x1234 s body of
        None \<Rightarrow> [] | Some reply \<Rightarrow> routeToMac 3 4 (BuildIPv4Packet srcIP [192, 168, 100, 2] 1 reply) n''))"
    using icmp_nat_roundtrip [OF r _ _ p ck ad, of 0 None] unfolding v fst_conv snd_conv by (auto simp: NewOSNAT_def)
  have "fst (icmpReply demo_marshal 1 [10, 0, 0, 1] a 7 [0xAA] n') = (case demo_marshal True 0x1234 7 [0xAA] of
        None \<Rightarrow> [] | Some reply \<Rightarrow> routeToMac 3 4 (BuildIPv4Packet [10, 0, 0, 1] [192, 168, 100, 2] 1 reply) n')"
    using rep [of "[]"] by simp
  then show ?thesis using f o unfolding v(4) option.case by blast
qed

section \<open>What the relay sends\<close>

lemma parseMSS_le: "parseMSS opts m \<le> m"
proof (induction opts m rule: parseMSS.induct)
  case (1 opts m)
  show ?case
    by (subst parseMSS.simps) (use 1 in \<open>auto simp: Let_def intro: order_trans\<close>)
qed

text \<open>The flow that a SYN leads to: four-byte addresses, and segments that fit in a datagram.\<close>

lemma syn_flow_fits:
  assumes "handleTCP now pkt ihl net nd n = Return (out, n')" "StartTcpConnect (pr, clientIP, cp, serverIP, sp) isn m w \<in> set out" "20 \<le> length pkt"
  shows "length clientIP = 4" "length serverIP = 4" "m \<le> osNATMaxSegment"
  using assms parseMSS_le
  by (auto simp: handleTCP_def tcpSegment_def closeConn_def sendTCPSegment_def routeToMac_def Let_def split: if_splits option.splits)

function cut :: "nat \<Rightarrow> bytes \<Rightarrow> bytes list" where
  "cut m got = (if m = 0 \<or> got = [] then [] else take m got # cut m (drop m got))"
  by pat_completeness auto
termination by (relation "measure (length \<circ> snd)") auto

declare cut.simps [simp del]

lemma cut_parts: "0 < m \<Longrightarrow> concat (cut m got) = got \<and> (\<forall>c \<in> set (cut m got). c \<noteq> [] \<and> length c \<le> m)"
proof (induction m got rule: cut.induct)
  case (1 m got)
  then show ?case by (subst (1 2) cut.simps) auto
qed

lemma sendTCPSegment_flow [simp]:
  "sendTCPSegment (f\<lparr>ourSeq := s\<rparr>) a b c d n = sendTCPSegment f a b c d n" "sendTCPSegment f a b c d (updFlow p g n) = sendTCPSegment f a b c d n"
  by (auto simp: sendTCPSegment_def routeToMac_def updFlow_def split: option.split)

lemma updFlow_twice: "p < length (tcpHeap n) \<Longrightarrow> updFlow p g (updFlow p h n) = updFlow p (g \<circ> h) n"
  by (simp add: updFlow_def)

lemma relay_cut:
  assumes "p < length (tcpHeap n)" "f = tcpHeap n ! p" "m = unat (mss f)" "0 < m"
  shows "relayChunks p got n = Some
    (concat (map (\<lambda>k. sendTCPSegment f (ourSeq f + word_of_nat (length (concat (take k (cut m got))))) (macSeq f) 0x18 (cut m got ! k) n) [0..<length (cut m got)]),
     updFlow p (\<lambda>f. f\<lparr>ourSeq := ourSeq f + word_of_nat (length got)\<rparr>) n)"
  using assms
proof (induction m got arbitrary: n f rule: cut.induct)
  case (1 m got)
  show ?case
  proof (cases "got = []")
    case True
    then show ?thesis using 1(2) by (simp add: relayChunks.simps cut.simps updFlow_def)
  next
    case False
    let ?c = "take m got"
    let ?s = "ourSeq f + word_of_nat (length ?c)"
    let ?n = "updFlow p (\<lambda>f. f\<lparr>ourSeq := ourSeq f + word_of_nat (length ?c)\<rparr>) n"
    have f': "tcpHeap ?n ! p = f\<lparr>ourSeq := ?s\<rparr>" using 1(2,3) by (simp add: updFlow_def)
    have pl: "p < length (tcpHeap ?n)" using 1(2) by (simp add: updFlow_def)
    have IH: "relayChunks p (drop m got) ?n = Some
      (concat (map (\<lambda>k. sendTCPSegment f (?s + word_of_nat (length (concat (take k (cut m (drop m got)))))) (macSeq f) 0x18 (cut m (drop m got) ! k) n)
         [0..<length (cut m (drop m got))]),
       updFlow p (\<lambda>f. f\<lparr>ourSeq := ourSeq f + word_of_nat (length (drop m got))\<rparr>) ?n)"
      using 1(1) [OF _ pl f' [symmetric]] 1(4,5) False by (simp del: length_take length_drop)
    have len: "word_of_nat (length ?c) + word_of_nat (length (drop m got)) = (word_of_nat (length got) :: u32)"
      by (metis append_take_drop_id length_append of_nat_add)
    have up: "updFlow p (\<lambda>f. f\<lparr>ourSeq := ourSeq f + word_of_nat (length (drop m got))\<rparr>) ?n = updFlow p (\<lambda>f. f\<lparr>ourSeq := ourSeq f + word_of_nat (length got)\<rparr>) n"
      using 1(2) by (simp add: updFlow_twice comp_def add.assoc len del: length_take length_drop)
    have C: "(if length got > unat (mss f) then take (unat (mss f)) got else got) = ?c" "drop (length ?c) got = drop m got"
      using 1(4) by (auto simp: min_def)
    have "relayChunks p got n = Option.bind (relayChunks p (drop m got) ?n)
        (\<lambda>(out, n''). Some (sendTCPSegment f (ourSeq f) (macSeq f) 0x18 ?c n @ out, n''))"
      by (subst relayChunks.simps) (simp only: False if_False Let_def 1(3) [symmetric] C sendTCPSegment_flow)
    moreover have "cut m got = ?c # cut m (drop m got)" using False 1(5) by (subst cut.simps) simp
    ultimately show ?thesis
      unfolding IH up by (simp add: upt_conv_Cons map_Suc_upt [symmetric] comp_def add.assoc del: upt_Suc length_take)
  qed
qed

lemma sint_room: "0 \<le> sint (x - word_of_nat k)" if "int k \<le> sint x" for x :: u32
proof -
  have "sint x < 2 ^ 31" using sint_lt [of x] by simp
  then have "sint (word_of_int (sint x - int k) :: u32) = sint x - int k"
    using that by (simp only: signed_of_int) (simp add: signed_take_bit_int_eq_self)
  then show ?thesis using that by simp
qed

lemma length_packet: "length s = 4 \<Longrightarrow> length d = 4 \<Longrightarrow> length (BuildIPv4Packet s d pr pay) = 20 + length pay"
  by (simp add: BuildIPv4Packet_def splice_def Let_def put16_def)

lemma length_tcpSegmentBytes: "length (tcpSegmentBytes s d sp cp sq ak off fl w rest) = 20 + length rest"
  by (simp add: tcpSegmentBytes_def splice_def Let_def put16_def put32_def)

text \<open>The datagram that carries one segment to the Macintosh.\<close>

definition segmentDatagram :: "tcpFwdFlow \<Rightarrow> OSNAT \<Rightarrow> u32 \<Rightarrow> bytes \<Rightarrow> Datagram" where
  "segmentDatagram f n sq c = \<lparr>HopCount = 0, DestinationNetwork = tAtNet f, SourceNetwork = 0, DestinationNode = tAtNode f,
     SourceNode = 0, DestinationSocket = natSocket n, SourceSocket = natSocket n, DDPType = natDdpType n,
     Data = BuildIPv4Packet (tServerIP f) (tClientIP f) 6
       (tcpSegmentBytes (tServerIP f) (tClientIP f) (tServerPort f) (tClientPort f) sq (macSeq f) 0x50 0x18 8192 c)\<rparr>"

lemma sendTCPSegment_one:
  assumes "length (tServerIP f) = 4" "length (tClientIP f) = 4" "length c \<le> 546"
  shows "sendTCPSegment f sq (macSeq f) 0x18 c n = [RouteToMac (segmentDatagram f n sq c)]"
  using assms by (simp add: sendTCPSegment_def routeToMac_def FragmentIPv4_def length_packet length_tcpSegmentBytes segmentDatagram_def)

lemma room_int: "l \<le> nat (if w > 65535 then 65535 else w) \<Longrightarrow> 0 < l \<Longrightarrow> int l \<le> w"
  by (simp add: le_nat_iff split: if_splits)

lemma concat_singletons: "(\<And>k. k < N \<Longrightarrow> g k = [h k]) \<Longrightarrow> concat (map g [0..<N]) = map h [0..<N]"
  by (induction N) simp_all


definition demo_flow :: tcpFwdFlow where
  "demo_flow = \<lparr>tConn = 9, tAtNet = 3, tAtNode = 4, tClientIP = [192, 168, 100, 2], tServerIP = [10, 0, 0, 1], tClientPort = 2048, tServerPort = 80,
     ourSeq = 0xFFFFFFFE, macSeq = 7, macAck = 0xFFFFFFFE, macWindow = 100, mss = 2, tExpiry = 0, windowAdv = False, tDone = False\<rparr>"


section \<open>What the handler takes on trust\<close>

text \<open>A maximum segment size of 0, which a SYN may carry, makes the relay send empty segments for ever.\<close>

lemma mss_zero_diverges:
  assumes "mss (tcpHeap n ! p) = 0" "got \<noteq> []"
  shows "tcpServerRead key p got err n = Diverge"
proof -
  have "relayChunks p got n \<noteq> Some r" for r
  proof
    assume "relayChunks p got n = Some r"
    then have "got = [] \<or> mss (tcpHeap n ! p) \<noteq> 0"
    proof (rule relayChunks.raw_induct [where P = "\<lambda>p got n r. got = [] \<or> mss (tcpHeap n ! p) \<noteq> 0", rotated])
      fix g :: "nat \<Rightarrow> bytes \<Rightarrow> OSNAT \<Rightarrow> (nat_effect list \<times> OSNAT) option" and p got n r
      assume IH: "\<And>p got n r. g p got n = Some r \<Longrightarrow> got = [] \<or> mss (tcpHeap n ! p) \<noteq> 0"
        and st: "(if got = [] then Some ([], n)
         else
           let f = tcpHeap n ! p;
               chunk = (if length got > unat (mss f) then take (unat (mss f)) got else got);
               n' = updFlow p (\<lambda>f. f\<lparr>ourSeq := ourSeq f + word_of_nat (length chunk)\<rparr>) n in
           Option.bind (g p (drop (length chunk) got) n')
             (\<lambda>(out, n''). Some (sendTCPSegment f (ourSeq f) (macSeq f) 0x18 chunk n' @ out, n''))) = Some r"
      show "got = [] \<or> mss (tcpHeap n ! p) \<noteq> 0"
      proof (rule ccontr)
        assume "\<not> (got = [] \<or> mss (tcpHeap n ! p) \<noteq> 0)"
        then have z: "got \<noteq> []" "mss (tcpHeap n ! p) = 0" by auto
        then obtain r' where "g p got (updFlow p (\<lambda>f. f) n) = Some r'"
          using st by (auto simp: Let_def bind_eq_Some_conv)
        from IH [OF this] z show False by (simp add: updFlow_def)
      qed
    qed
    then show False using assms by blast
  qed
  then show ?thesis by (cases "relayChunks p got n") (auto simp: tcpServerRead_def)
qed

text \<open>A SYN whose data offset is below 5 panics.\<close>

lemma short_offset_panics:
  assumes "ihl + 20 \<le> length pkt" "drop_bit 4 (pkt ! (ihl + 12)) < (5 :: u8)" "hasFlag (pkt ! (ihl + 13)) 0x02" "\<not> hasFlag (pkt ! (ihl + 13)) 0x10"
    and "map_of (tcpFlows n) (6, take 4 (drop 12 pkt), be16 (pkt ! ihl) (pkt ! (ihl + 1)), take 4 (drop 16 pkt), be16 (pkt ! (ihl + 2)) (pkt ! (ihl + 3))) = None"
  shows "handleTCP now pkt ihl net nd n = Panic"
proof -
  have "unat (drop_bit 4 (pkt ! (ihl + 12))) < 5" using assms(2) by (simp add: word_less_nat_alt)
  then show ?thesis using assms(1,3-5) by (simp add: handleTCP_def Let_def)
qed

text \<open>
  The sequence number of a segment is not looked at: data that the Macintosh sends again, because the
  acknowledgement got lost, are written to the server again.
\<close>

lemma retransmission_written_again:
  assumes pkt: "ihl + 20 \<le> length pkt" "hl = unat (drop_bit 4 (pkt ! (ihl + 12))) * 4" "ihl + hl < length pkt"
    and flags: "\<not> hasFlag (pkt ! (ihl + 13)) 0x02" "\<not> hasFlag (pkt ! (ihl + 13)) 0x04"
    and flow: "map_of (tcpFlows n) (6, take 4 (drop 12 pkt), be16 (pkt ! ihl) (pkt ! (ihl + 1)), take 4 (drop 16 pkt), be16 (pkt ! (ihl + 2)) (pkt ! (ihl + 3))) = Some (Some p)"
      "p < length (tcpHeap n)"
  shows "\<exists>out1 n1 out2 n2. handleTCP now pkt ihl net nd n = Return (out1, n1) \<and> handleTCP now' pkt ihl net nd n1 = Return (out2, n2) \<and>
    TcpWrite (tConn (tcpHeap n ! p)) (drop (ihl + hl) pkt) \<in> set out1 \<and> TcpWrite (tConn (tcpHeap n ! p)) (drop (ihl + hl) pkt) \<in> set out2"
proof -
  let ?key = "(6, take 4 (drop 12 pkt), be16 (pkt ! ihl) (pkt ! (ihl + 1)), take 4 (drop 16 pkt), be16 (pkt ! (ihl + 2)) (pkt ! (ihl + 3)))"
  have step: "\<exists>out n1. handleTCP t pkt ihl net nd n = Return (out, n1) \<and> tcpFlows n1 = tcpFlows n \<and> length (tcpHeap n1) = length (tcpHeap n) \<and>
      tConn (tcpHeap n1 ! p) = tConn (tcpHeap n ! p) \<and> TcpWrite (tConn (tcpHeap n ! p)) (drop (ihl + hl) pkt) \<in> set out"
    if "map_of (tcpFlows n) ?key = Some (Some p)" "p < length (tcpHeap n)" for n t
    using pkt flags that by (auto simp: handleTCP_def tcpSegment_def Let_def)
  obtain out1 n1 where s1: "handleTCP now pkt ihl net nd n = Return (out1, n1)" "tcpFlows n1 = tcpFlows n" "length (tcpHeap n1) = length (tcpHeap n)"
      "tConn (tcpHeap n1 ! p) = tConn (tcpHeap n ! p)" "TcpWrite (tConn (tcpHeap n ! p)) (drop (ihl + hl) pkt) \<in> set out1"
    using step [OF flow, of now] by blast
  moreover obtain out2 n2 where "handleTCP now' pkt ihl net nd n1 = Return (out2, n2)" "TcpWrite (tConn (tcpHeap n1 ! p)) (drop (ihl + hl) pkt) \<in> set out2"
    using step [of n1 now'] flow s1 by auto
  ultimately show ?thesis by auto
qed

end
