(* ===== verification/Cnid.thy ===== *)
theory Cnid
  imports Go_Prelude "HOL-Library.Sublist"
begin

text \<open>
  The catalog node identifiers of a volume: the in-memory store of \<^verbatim>\<open>pkg/cnid/memory.go\<close>. Every
  method holds the mutex of the store, so it is one step. Paths are strings; \<open>Clean\<close> is the lexical
  normalisation of \<^verbatim>\<open>path/filepath\<close> on Unix. The maps are association lists, so a statement about
  every list covers every order in which \<open>range\<close> may visit a map.
\<close>

section \<open>Paths\<close>

abbreviation (input) slash :: char where "slash \<equiv> CHR ''/''"

fun splitSlash :: "string \<Rightarrow> string list" where
  "splitSlash [] = [[]]"
| "splitSlash (c # cs) = (if c = slash then [] # splitSlash cs else (c # hd (splitSlash cs)) # tl (splitSlash cs))"

fun joinSlash :: "string list \<Rightarrow> string" where
  "joinSlash [] = []"
| "joinSlash [n] = n"
| "joinSlash (n # ns) = n @ slash # joinSlash ns"

text \<open>One element of a path, on the stack of those kept so far.\<close>

definition cleanStep :: "bool \<Rightarrow> string \<Rightarrow> string list \<Rightarrow> string list" where
  "cleanStep rooted n st =
    (if n = [] \<or> n = ''.'' then st
     else if n = ''..'' then
       (if st \<noteq> [] \<and> hd st \<noteq> ''..'' then tl st else if rooted then st else n # st)
     else n # st)"

definition Clean :: "string \<Rightarrow> string" where
  "Clean p =
    (let rooted = (p \<noteq> [] \<and> hd p = slash);
         out = (if rooted then [slash] else []) @ joinSlash (rev (fold (cleanStep rooted) (splitSlash p) [])) in
     if out = [] then ''.'' else out)"

section \<open>The store\<close>

abbreviation (input) Root :: u32 where "Root \<equiv> 2"
abbreviation (input) firstDynamic :: u32 where "firstDynamic \<equiv> 3"

record MemoryStore =
  cnidToPath :: "(u32, string) gomap"
  pathToCNID :: "(string, u32) gomap"
  nextCNID :: u32
  shortnames :: "(string, (string, string) gomap) gomap"

definition NewMemoryStore :: MemoryStore where
  "NewMemoryStore = \<lparr>cnidToPath = [], pathToCNID = [], nextCNID = firstDynamic, shortnames = []\<rparr>"

definition RootID :: "MemoryStore \<Rightarrow> u32" where
  "RootID s = Root"

definition Path :: "u32 \<Rightarrow> MemoryStore \<Rightarrow> string option" where
  "Path cnid s = map_of (cnidToPath s) cnid"

definition CNID :: "string \<Rightarrow> MemoryStore \<Rightarrow> u32 option" where
  "CNID path s = map_of (pathToCNID s) (Clean path)"

partial_function (option) nextAvailableCNID :: "(u32, string) gomap \<Rightarrow> u32 \<Rightarrow> (u32 \<times> u32) option" where
  "nextAvailableCNID m next' =
    (if next' < firstDynamic then nextAvailableCNID m (next' + 1)
     else if map_of m next' = None then Some (next', next' + 1)
     else nextAvailableCNID m (next' + 1))"

definition Ensure :: "string \<Rightarrow> MemoryStore \<Rightarrow> (u32 \<times> MemoryStore) outcome" where
  "Ensure path s =
    (let path = Clean path in
     case map_of (pathToCNID s) path of
       Some cnid \<Rightarrow> Return (cnid, s)
     | None \<Rightarrow>
         (case nextAvailableCNID (cnidToPath s) (nextCNID s) of
            None \<Rightarrow> Diverge
          | Some (cnid, next') \<Rightarrow>
              Return (cnid, s\<lparr>nextCNID := next', cnidToPath := AList.update cnid path (cnidToPath s),
                pathToCNID := AList.update path cnid (pathToCNID s)\<rparr>)))"

definition EnsureReserved :: "string \<Rightarrow> u32 \<Rightarrow> MemoryStore \<Rightarrow> u32 \<times> MemoryStore" where
  "EnsureReserved path cnid s =
    (let path = Clean path in
     case map_of (pathToCNID s) path of
       Some existing \<Rightarrow> (existing, s)
     | None \<Rightarrow>
         let p2c = (case map_of (cnidToPath s) cnid of
               Some existingPath \<Rightarrow> if existingPath \<noteq> path then AList.delete existingPath (pathToCNID s) else pathToCNID s
             | None \<Rightarrow> pathToCNID s);
             next' = (if cnid \<ge> nextCNID s then (if cnid + 1 < firstDynamic then firstDynamic else cnid + 1) else nextCNID s) in
         (cnid, s\<lparr>cnidToPath := AList.update cnid path (cnidToPath s), pathToCNID := AList.update path cnid p2c, nextCNID := next'\<rparr>))"

text \<open>The body of the loops of \<open>Rebind\<close> and \<open>Remove\<close>, for one entry of the map.\<close>

abbreviation (input) at_or_below :: "string \<Rightarrow> string \<Rightarrow> bool" where
  "at_or_below dir p \<equiv> p = dir \<or> prefix (dir @ [slash]) p"

definition rebindOne :: "string \<Rightarrow> string \<Rightarrow> u32 \<times> string \<Rightarrow> MemoryStore \<Rightarrow> MemoryStore" where
  "rebindOne oldPath newPath e s =
    (let (cnid, path) = e in
     if path \<noteq> oldPath \<and> \<not> prefix (oldPath @ [slash]) path then s
     else
       let suffix = drop (length oldPath) path;
           mapped = Clean (newPath @ suffix) in
       s\<lparr>cnidToPath := AList.update cnid mapped (cnidToPath s),
         pathToCNID := AList.update mapped cnid (AList.delete path (pathToCNID s))\<rparr>)"

definition Rebind :: "string \<Rightarrow> string \<Rightarrow> MemoryStore \<Rightarrow> MemoryStore" where
  "Rebind oldPath newPath s = fold (rebindOne (Clean oldPath) (Clean newPath)) (cnidToPath s) s"

definition removeOne :: "string \<Rightarrow> u32 \<times> string \<Rightarrow> MemoryStore \<Rightarrow> MemoryStore" where
  "removeOne path e s =
    (let (cnid, current) = e in
     if current = path \<or> prefix (path @ [slash]) current
     then s\<lparr>cnidToPath := AList.delete cnid (cnidToPath s), pathToCNID := AList.delete current (pathToCNID s)\<rparr>
     else s)"

definition Remove :: "string \<Rightarrow> MemoryStore \<Rightarrow> MemoryStore" where
  "Remove path s = fold (removeOne (Clean path)) (cnidToPath s) s"

text \<open>Short names. \<open>GetShort\<close> searches the maps in the order \<open>range\<close> gives.\<close>

definition GetShort :: "string \<Rightarrow> MemoryStore \<Rightarrow> string option" where
  "GetShort short s = map_option fst (find (\<lambda>(long, existing). existing = short) (concat (map snd (shortnames s))))"

definition LookupShort :: "string \<Rightarrow> string \<Rightarrow> MemoryStore \<Rightarrow> string option" where
  "LookupShort dir long s = (case map_of (shortnames s) dir of Some m \<Rightarrow> map_of m long | None \<Rightarrow> None)"

definition PutShort :: "string \<Rightarrow> string \<Rightarrow> string \<Rightarrow> MemoryStore \<Rightarrow> MemoryStore" where
  "PutShort dir long short s =
    (let m = (case map_of (shortnames s) dir of Some m \<Rightarrow> m | None \<Rightarrow> []) in
     s\<lparr>shortnames := AList.update dir (AList.update long short m) (shortnames s)\<rparr>)"

datatype Op = OpCreate | OpRename | OpModify | OpDelete | OpAttrChange

record Event =
  evOp :: Op
  HostPath :: string
  OldPath :: string
  Origin :: string

definition OnVFSEvent :: "Event \<Rightarrow> MemoryStore \<Rightarrow> MemoryStore outcome" where
  "OnVFSEvent ev s =
    (if Origin ev = ''afp'' then Return s
     else case evOp ev of
       OpCreate \<Rightarrow> and_then (Ensure (HostPath ev) s) (\<lambda>(cnid, s). Return s)
     | OpDelete \<Rightarrow> Return (Remove (HostPath ev) s)
     | OpRename \<Rightarrow> Return (Rebind (OldPath ev) (HostPath ev) s)
     | _ \<Rightarrow> Return s)"

section \<open>Absolute paths\<close>

text \<open>A clean absolute path is the root followed by proper names.\<close>

definition valid_name :: "string \<Rightarrow> bool" where
  "valid_name n \<longleftrightarrow> n \<noteq> [] \<and> slash \<notin> set n \<and> n \<noteq> ''.'' \<and> n \<noteq> ''..''"

definition pathOf :: "string list \<Rightarrow> string" where
  "pathOf ns = slash # joinSlash ns"

lemma splitSlash_nonempty [simp]: "splitSlash p \<noteq> []"
  by (induction p) auto

lemma splitSlash_plain: "slash \<notin> set n \<Longrightarrow> splitSlash n = [n]"
  by (induction n) auto

lemma splitSlash_append: "splitSlash (p @ slash # q) = splitSlash p @ splitSlash q"
  by (induction p) auto

lemma splitSlash_join: "ns \<noteq> [] \<Longrightarrow> \<forall>n \<in> set ns. slash \<notin> set n \<Longrightarrow> splitSlash (joinSlash ns) = ns"
  by (induction ns rule: joinSlash.induct) (auto simp: splitSlash_append splitSlash_plain)

lemma splitSlash_names: "n \<in> set (splitSlash p) \<Longrightarrow> slash \<notin> set n"
proof (induction p arbitrary: n)
  case (Cons c p)
  obtain m ms where "splitSlash p = m # ms" by (cases "splitSlash p") auto
  then show ?case using Cons by (auto split: if_splits)
qed simp

lemma splitSlash_pathOf: "\<forall>n \<in> set ns. valid_name n \<Longrightarrow> splitSlash (pathOf ns) = [] # (if ns = [] then [[]] else ns)"
  by (simp add: pathOf_def splitSlash_join valid_name_def)

lemma pathOf_inj:
  assumes "\<forall>n \<in> set ns. valid_name n" "\<forall>n \<in> set ms. valid_name n"
  shows "pathOf ns = pathOf ms \<longleftrightarrow> ns = ms"
proof
  assume "pathOf ns = pathOf ms"
  from arg_cong [OF this, of splitSlash]
  have eq: "(if ns = [] then [[]] else ns) = (if ms = [] then [[]] else ms)"
    unfolding splitSlash_pathOf [OF assms(1)] splitSlash_pathOf [OF assms(2)] by (rule list.inject [THEN iffD1, THEN conjunct2])
  have "\<not> valid_name []" by (simp add: valid_name_def)
  then have "ns \<noteq> [[]]" "ms \<noteq> [[]]" using assms by (metis list.set_intros(1))+
  with eq show "ns = ms" by (cases "ns = []"; cases "ms = []") auto
qed simp

lemma clean_valid: "\<forall>n \<in> set ns. valid_name n \<Longrightarrow> fold (cleanStep r) ns st = rev ns @ st"
  by (induction ns arbitrary: st) (auto simp: cleanStep_def valid_name_def)

lemma cleanStep_valid:
  "\<forall>n \<in> set ns. slash \<notin> set n \<Longrightarrow> \<forall>n \<in> set st. valid_name n \<Longrightarrow> \<forall>n \<in> set (fold (cleanStep True) ns st). valid_name n"
proof (induction ns arbitrary: st)
  case (Cons n ns)
  have "\<forall>n \<in> set (cleanStep True n st). valid_name n"
    using Cons.prems by (cases st) (auto simp: cleanStep_def valid_name_def)
  then show ?case using Cons by simp
qed simp

abbreviation (input) absolute :: "string \<Rightarrow> bool" where
  "absolute p \<equiv> p \<noteq> [] \<and> hd p = slash"

lemma Clean_absolute:
  assumes "absolute p"
  obtains ns where "\<forall>n \<in> set ns. valid_name n" "Clean p = pathOf ns"
proof
  let ?ns = "rev (fold (cleanStep True) (splitSlash p) [])"
  show "\<forall>n \<in> set ?ns. valid_name n" using cleanStep_valid [of "splitSlash p" "[]"] splitSlash_names by auto
  show "Clean p = pathOf ?ns" using assms by (simp add: Clean_def pathOf_def Let_def)
qed

lemma Clean_pathOf: "\<forall>n \<in> set ns. valid_name n \<Longrightarrow> Clean (pathOf ns) = pathOf ns"
  unfolding Clean_def splitSlash_pathOf by (simp add: pathOf_def clean_valid Let_def cleanStep_def)

lemma Clean_below:
  assumes "\<forall>n \<in> set ns. valid_name n" "\<forall>n \<in> set ms. valid_name n" "ms \<noteq> []"
  shows "Clean (pathOf ns @ slash # joinSlash ms) = pathOf (ns @ ms)"
proof -
  have "splitSlash (pathOf ns @ slash # joinSlash ms) = [] # (if ns = [] then [[]] else ns) @ ms"
    using assms by (simp add: splitSlash_append splitSlash_pathOf splitSlash_join valid_name_def)
  moreover have "fold (cleanStep True) ([] # (if ns = [] then [[]] else ns) @ ms) [] = rev (ns @ ms)"
    using assms clean_valid [of "ns @ ms" True "[]"] by (auto simp: cleanStep_def)
  ultimately show ?thesis unfolding Clean_def by (simp add: pathOf_def Let_def)
qed

text \<open>What lies below a directory other than the root.\<close>

lemma pathOf_snoc: "ns \<noteq> [] \<Longrightarrow> ms \<noteq> [] \<Longrightarrow> pathOf (ns @ ms) = pathOf ns @ slash # joinSlash ms"
  unfolding pathOf_def by (induction ns rule: joinSlash.induct) (auto simp: neq_Nil_conv)

lemma prefix_pathOf:
  assumes "\<forall>n \<in> set os. valid_name n" "\<forall>n \<in> set ps. valid_name n" "os \<noteq> []"
  shows "at_or_below (pathOf os) (pathOf ps) \<longleftrightarrow> prefix os ps"
proof
  assume "at_or_below (pathOf os) (pathOf ps)"
  then show "prefix os ps"
  proof
    assume "pathOf ps = pathOf os"
    then show ?thesis using pathOf_inj [OF assms(2,1)] by simp
  next
    assume "prefix (pathOf os @ [slash]) (pathOf ps)"
    then obtain r where r: "pathOf ps = pathOf os @ slash # r" by (auto simp: prefix_def)
    then have ne: "ps \<noteq> []" by (auto simp: pathOf_def)
    have "[] # ps = ([] # os) @ splitSlash r"
      using arg_cong [OF r, of splitSlash] assms ne by (simp add: splitSlash_append splitSlash_pathOf)
    then show ?thesis by simp
  qed
next
  assume "prefix os ps"
  then obtain r where "ps = os @ r" by (auto simp: prefix_def)
  then show "at_or_below (pathOf os) (pathOf ps)" using pathOf_snoc [OF assms(3), of r] by (cases "r = []") auto
qed

section \<open>Identifiers\<close>

lemma next_free:
  assumes "nextAvailableCNID m i = Some (c, next')"
  shows "map_of m c = None \<and> firstDynamic \<le> c"
proof -
  have "map_of m (fst r) = None \<and> firstDynamic \<le> fst r" if "nextAvailableCNID m i = Some r" for r
    using that
    by (rule nextAvailableCNID.raw_induct [where P = "\<lambda>m i r. map_of m (fst r) = None \<and> firstDynamic \<le> fst r", rotated])
      (auto split: if_splits)
  from this [OF assms] show ?thesis by simp
qed

text \<open>A free identifier ahead is found, wherever the counter stands: it wraps.\<close>

lemma next_reaches: "map_of m f = None \<Longrightarrow> firstDynamic \<le> f \<Longrightarrow> nextAvailableCNID m i \<noteq> None"
proof (induction "unat (f - i)" arbitrary: i)
  case 0
  then have "i = f" by (simp add: unat_eq_0)
  then show ?case using 0 by (subst nextAvailableCNID.simps) (simp add: not_less [symmetric])
next
  case (Suc k)
  have "unat (f - (i + 1)) = k"
  proof -
    have "f - i \<noteq> 0" using Suc.hyps(2) by auto
    then have "unat (f - i - 1) = unat (f - i) - 1" by (simp add: unat_minus_one)
    then show ?thesis using Suc.hyps(2) by (simp add: diff_diff_eq)
  qed
  then have "nextAvailableCNID m (i + 1) \<noteq> None" using Suc by metis
  then show ?case by (subst nextAvailableCNID.simps) simp
qed

lemma next_returns:
  assumes "length m < 2 ^ 32 - 3"
  shows "nextAvailableCNID m i \<noteq> None"
proof -
  have "card {c :: u32. firstDynamic \<le> c} = 2 ^ 32 - 3"
  proof -
    have "bij_betw unat {c :: u32. firstDynamic \<le> c} {3..<2 ^ 32}"
    proof (rule bij_betw_byWitness [where f' = word_of_nat])
      show "unat ` {c :: u32. firstDynamic \<le> c} \<subseteq> {3..<2 ^ 32}" using unsigned_less [where 'a = nat and 'b = 32] by (auto simp: word_le_nat_alt)
    qed (auto simp: word_le_nat_alt unat_of_nat)
    then show ?thesis by (simp add: bij_betw_same_card)
  qed
  moreover have "card (fst ` set m) < 2 ^ 32 - 3"
    using assms card_length [of "map fst m"] by simp
  ultimately have "\<not> {c :: u32. firstDynamic \<le> c} \<subseteq> fst ` set m"
    by (metis List.finite_set card_mono finite_imageI linorder_not_less)
  then obtain f where "firstDynamic \<le> f" "map_of m f = None" by (auto simp: map_of_eq_None_iff)
  then show ?thesis using next_reaches by blast
qed

section \<open>The two maps are inverse\<close>

definition names_ok :: "string list \<Rightarrow> bool" where
  "names_ok ns \<longleftrightarrow> (\<forall>n \<in> set ns. valid_name n)"

definition cnid_inv :: "MemoryStore \<Rightarrow> bool" where
  "cnid_inv s \<longleftrightarrow> wf_gomap (cnidToPath s) \<and> wf_gomap (pathToCNID s) \<and>
    (\<forall>c p. map_of (cnidToPath s) c = Some p \<longleftrightarrow> map_of (pathToCNID s) p = Some c) \<and>
    (\<forall>c p. map_of (cnidToPath s) c = Some p \<longrightarrow> (\<exists>ns. names_ok ns \<and> p = pathOf ns))"

lemma cnid_invD:
  assumes "cnid_inv s"
  shows "wf_gomap (cnidToPath s)" "wf_gomap (pathToCNID s)"
    "map_of (cnidToPath s) c = Some p \<longleftrightarrow> map_of (pathToCNID s) p = Some c"
    "map_of (cnidToPath s) c = Some p \<Longrightarrow> \<exists>ns. names_ok ns \<and> p = pathOf ns"
  using assms unfolding cnid_inv_def by blast+

lemma cnid_inv_add:
  assumes inv: "cnid_inv s" and new: "map_of (cnidToPath s) c = None" "map_of (pathToCNID s) p = None" and p: "\<exists>ns. names_ok ns \<and> p = pathOf ns"
  shows "cnid_inv (s\<lparr>nextCNID := k, cnidToPath := AList.update c p (cnidToPath s), pathToCNID := AList.update p c (pathToCNID s)\<rparr>)"
proof -
  note D = cnid_invD [OF inv]
  have "map_of (pathToCNID s) q \<noteq> Some c" "map_of (cnidToPath s) d \<noteq> Some p" for q d using D(3) new by (metis option.distinct(1))+
  then have "((map_of (cnidToPath s))(c \<mapsto> p)) d = Some q \<longleftrightarrow> ((map_of (pathToCNID s))(p \<mapsto> c)) q = Some d" for d q
    using D(3) [of d q] by auto
  moreover have "\<exists>ns. names_ok ns \<and> q = pathOf ns" if "((map_of (cnidToPath s))(c \<mapsto> p)) d = Some q" for d q
    using that D(4) [of d q] p by (auto split: if_splits)
  ultimately show ?thesis using D(1,2) by (simp add: cnid_inv_def update_conv' del: fun_upd_apply)
qed

lemma cnid_inv_delete:
  assumes inv: "cnid_inv s" and c: "map_of (cnidToPath s) c = Some p"
  shows "cnid_inv (s\<lparr>cnidToPath := AList.delete c (cnidToPath s), pathToCNID := AList.delete p (pathToCNID s)\<rparr>)"
proof -
  note D = cnid_invD [OF inv]
  have "((map_of (cnidToPath s))(c := None)) d = Some q \<longleftrightarrow> ((map_of (pathToCNID s))(p := None)) q = Some d" for d q
    using D(3) [of d q] D(3) [of c q] D(3) [of d p] D(3) [of c p] c by auto
  moreover have "\<exists>ns. names_ok ns \<and> q = pathOf ns" if "((map_of (cnidToPath s))(c := None)) d = Some q" for d q
    using that D(4) [of d q] by (auto split: if_splits)
  ultimately show ?thesis using D(1,2) by (simp add: cnid_inv_def delete_conv' del: fun_upd_apply)
qed

definition in_tree :: "string list \<Rightarrow> string \<Rightarrow> bool" where
  "in_tree ns q \<longleftrightarrow> (\<exists>r. names_ok (ns @ r) \<and> q = pathOf (ns @ r))"

lemma names_ok_append [simp]: "names_ok (a @ b) \<longleftrightarrow> names_ok a \<and> names_ok b"
  by (auto simp: names_ok_def)

lemma pathOf_eq: "names_ok ns \<Longrightarrow> names_ok ms \<Longrightarrow> pathOf ns = pathOf ms \<longleftrightarrow> ns = ms"
  unfolding names_ok_def by (rule pathOf_inj)

lemma in_tree_iff:
  assumes "names_ok os" "os \<noteq> []" "names_ok ps"
  shows "at_or_below (pathOf os) (pathOf ps) \<longleftrightarrow> in_tree os (pathOf ps)"
proof -
  have "at_or_below (pathOf os) (pathOf ps) \<longleftrightarrow> prefix os ps" using prefix_pathOf assms unfolding names_ok_def by blast
  also have "\<dots> \<longleftrightarrow> in_tree os (pathOf ps)" using assms pathOf_eq by (auto simp: in_tree_def prefix_def)
  finally show ?thesis .
qed

lemma mapped_path:
  assumes "names_ok os" "os \<noteq> []" "names_ok ns" "names_ok r"
  shows "Clean (pathOf ns @ drop (length (pathOf os)) (pathOf (os @ r))) = pathOf (ns @ r)"
proof (cases "r = []")
  case True
  then show ?thesis using Clean_pathOf assms by (simp add: names_ok_def)
next
  case False
  then show ?thesis using pathOf_snoc [OF assms(2) False] Clean_below assms by (simp add: names_ok_def)
qed

lemma cnid_inv_reserve:
  assumes inv: "cnid_inv s" and p: "absolute path"
  shows "cnid_inv (snd (EnsureReserved path c s))"
proof (cases "map_of (pathToCNID s) (Clean path)")
  case None
  note D = cnid_invD [OF inv]
  obtain ns where ns: "names_ok ns" "Clean path = pathOf ns" using Clean_absolute [OF p] names_ok_def by metis
  let ?p = "Clean path"
  let ?q = "case map_of (cnidToPath s) c of Some e \<Rightarrow> if e \<noteq> ?p then AList.delete e (pathToCNID s) else pathToCNID s | None \<Rightarrow> pathToCNID s"
  have "((map_of (cnidToPath s))(c \<mapsto> ?p)) d = Some q \<longleftrightarrow> ((map_of ?q)(?p \<mapsto> c)) q = Some d" for d q
    using D(3) [of d q] D(3) [of c q] D(3) [of d ?p] D(3) [of c ?p] None
    by (cases "map_of (cnidToPath s) c") (auto simp: delete_conv')
  moreover have "\<exists>ns. names_ok ns \<and> q = pathOf ns" if "((map_of (cnidToPath s))(c \<mapsto> ?p)) d = Some q" for d q
    using that D(4) [of d q] ns by (auto split: if_splits)
  moreover have "wf_gomap ?q" using D(2) by (simp split: option.split)
  ultimately show ?thesis using None D(1,2) by (simp add: EnsureReserved_def Let_def cnid_inv_def update_conv' del: fun_upd_apply)
qed (use inv in \<open>simp add: EnsureReserved_def Let_def\<close>)

lemma cnid_inv_ensure:
  assumes inv: "cnid_inv s" and p: "absolute path" and r: "Ensure path s = Return (c, s')"
  shows "cnid_inv s'"
proof (cases "map_of (pathToCNID s) (Clean path)")
  case None
  obtain next' where n: "nextAvailableCNID (cnidToPath s) (nextCNID s) = Some (c, next')"
    and s': "s' = s\<lparr>nextCNID := next', cnidToPath := AList.update c (Clean path) (cnidToPath s), pathToCNID := AList.update (Clean path) c (pathToCNID s)\<rparr>"
    using r None by (auto simp: Ensure_def Let_def split: option.splits)
  have "\<exists>ns. names_ok ns \<and> Clean path = pathOf ns" using Clean_absolute [OF p] names_ok_def by metis
  then show ?thesis unfolding s' using cnid_inv_add [OF inv] next_free [OF n] None by blast
qed (use inv r in \<open>simp add: Ensure_def Let_def\<close>)

text \<open>What \<open>Remove\<close> leaves.\<close>

lemma remove_fold:
  assumes "cnid_inv s" "\<And>c p. (c, p) \<in> set xs \<Longrightarrow> map_of (cnidToPath s) c = Some p" "wf_gomap xs"
  shows "cnid_inv (fold (removeOne d) xs s) \<and>
    map_of (cnidToPath (fold (removeOne d) xs s)) = (\<lambda>c. if \<exists>p. (c, p) \<in> set xs \<and> at_or_below d p then None else map_of (cnidToPath s) c)"
  using assms
proof (induction xs arbitrary: s)
  case (Cons x xs)
  obtain c p where x: "x = (c, p)" by (cases x) auto
  have p: "map_of (cnidToPath s) c = Some p" using Cons.prems(2) x by simp
  have rest: "map_of (cnidToPath s) k = Some q" "k \<noteq> c" if "(k, q) \<in> set xs" for k q
  proof -
    show "map_of (cnidToPath s) k = Some q" using that Cons.prems(2) by simp
    have "k \<in> fst ` set xs" using that by (metis fst_conv imageI)
    then show "k \<noteq> c" using Cons.prems(3) x by auto
  qed
  let ?s = "removeOne d x s"
  have i1: "cnid_inv ?s" using cnid_inv_delete [OF Cons.prems(1) p] Cons.prems(1) by (simp add: removeOne_def x)
  have m1: "map_of (cnidToPath ?s) = (if at_or_below d p then (map_of (cnidToPath s))(c := None) else map_of (cnidToPath s))"
    by (simp add: removeOne_def x delete_conv')
  have r1: "map_of (cnidToPath ?s) k = Some q" if "(k, q) \<in> set xs" for k q
    using rest [OF that] by (simp add: m1)
  have wf: "wf_gomap xs" using Cons.prems(3) by simp
  have "fold (removeOne d) (x # xs) s = fold (removeOne d) xs ?s" by simp
  then show ?case using Cons.IH [OF i1 r1 wf] m1 x by (auto simp: fun_eq_iff)
qed simp

lemma Remove_effect:
  assumes "cnid_inv s"
  shows "cnid_inv (Remove path s)" "map_of (cnidToPath (Remove path s)) c =
    (case map_of (cnidToPath s) c of Some p \<Rightarrow> if at_or_below (Clean path) p then None else Some p | None \<Rightarrow> None)"
proof -
  note D = cnid_invD(1) [OF assms]
  have "cnid_inv (Remove path s) \<and> map_of (cnidToPath (Remove path s)) =
      (\<lambda>c. if \<exists>p. (c, p) \<in> set (cnidToPath s) \<and> at_or_below (Clean path) p then None else map_of (cnidToPath s) c)"
    unfolding Remove_def by (rule remove_fold [OF assms]) (use D in \<open>simp_all only: wf_gomap_mem_iff\<close>)
  then show "cnid_inv (Remove path s)" "map_of (cnidToPath (Remove path s)) c =
    (case map_of (cnidToPath s) c of Some p \<Rightarrow> if at_or_below (Clean path) p then None else Some p | None \<Rightarrow> None)"
    by (auto simp: wf_gomap_mem_iff [OF D] split: option.split)
qed


text \<open>What \<open>Rebind\<close> does to one path, and to all of them.\<close>

definition moved :: "string list \<Rightarrow> string list \<Rightarrow> string \<Rightarrow> string" where
  "moved os ns p = (if at_or_below (pathOf os) p then Clean (pathOf ns @ drop (length (pathOf os)) p) else p)"

lemma moved_in: "names_ok os \<Longrightarrow> os \<noteq> [] \<Longrightarrow> names_ok ns \<Longrightarrow> names_ok r \<Longrightarrow> moved os ns (pathOf (os @ r)) = pathOf (ns @ r)"
  using in_tree_iff [of os "os @ r"] mapped_path by (auto simp: moved_def in_tree_def)

lemma moved_out: "names_ok os \<Longrightarrow> os \<noteq> [] \<Longrightarrow> names_ok ps \<Longrightarrow> \<not> in_tree os (pathOf ps) \<Longrightarrow> moved os ns (pathOf ps) = pathOf ps"
  using in_tree_iff [of os ps] by (simp add: moved_def)

lemma rebindOne_moved:
  assumes "cnid_inv s" "map_of (cnidToPath s) c = Some p"
  shows "map_of (cnidToPath (rebindOne (pathOf os) (pathOf ns) (c, p) s)) = (map_of (cnidToPath s))(c \<mapsto> moved os ns p)"
    "map_of (pathToCNID (rebindOne (pathOf os) (pathOf ns) (c, p) s)) = ((map_of (pathToCNID s))(p := None))(moved os ns p \<mapsto> c)"
    "wf_gomap (cnidToPath (rebindOne (pathOf os) (pathOf ns) (c, p) s))" "wf_gomap (pathToCNID (rebindOne (pathOf os) (pathOf ns) (c, p) s))"
  using assms(2) cnid_invD [OF assms(1)] by (auto simp: rebindOne_def moved_def Let_def update_conv' delete_conv' fun_upd_idem_iff)

lemma inverse_move:
  assumes "\<And>d q. A d = Some q \<longleftrightarrow> B q = Some d" "A c = Some p" "\<And>d. A d = Some m \<Longrightarrow> d = c"
  shows "(A(c \<mapsto> m)) d = Some q \<longleftrightarrow> ((B(p := None))(m \<mapsto> c)) q = Some d"
proof (cases "d = c")
  case True
  have "B q = Some c \<Longrightarrow> q = p" using assms(1) [of c q] assms(2) by simp
  then show ?thesis using True by (cases "q = m") auto
next
  case False
  have "B p = Some c" using assms(1,2) by simp
  then have "A d \<noteq> Some p" using assms(1) [of d p] False by simp
  then show ?thesis using False assms(1) [of d q] assms(3) [of d] by (cases "q = m"; cases "q = p") auto
qed

lemma cnid_inv_rebindOne:
  assumes inv: "cnid_inv s" and c: "map_of (cnidToPath s) c = Some p" and ok: "names_ok os" "os \<noteq> []" "names_ok ns"
    and free: "\<And>d. map_of (cnidToPath s) d = Some (moved os ns p) \<Longrightarrow> d = c"
  shows "cnid_inv (rebindOne (pathOf os) (pathOf ns) (c, p) s)"
proof -
  note D = cnid_invD [OF inv]
  note R = rebindOne_moved [OF inv c, of os ns]
  obtain ps where ps: "names_ok ps" "p = pathOf ps" using D(4) [OF c] by blast
  have m: "\<exists>qs. names_ok qs \<and> moved os ns p = pathOf qs"
  proof (cases "in_tree os p")
    case True
    then obtain r where "p = pathOf (os @ r)" "names_ok r" by (auto simp: in_tree_def)
    then have "moved os ns p = pathOf (ns @ r)" using moved_in ok by simp
    then show ?thesis using ok(3) \<open>names_ok r\<close> names_ok_append by blast
  next
    case False
    then show ?thesis using moved_out ok ps by metis
  qed
  note iff = inverse_move [of "map_of (cnidToPath s)" "map_of (pathToCNID s)", OF D(3) c free]
  have "\<exists>qs. names_ok qs \<and> q = pathOf qs" if "((map_of (cnidToPath s))(c \<mapsto> moved os ns p)) d = Some q" for d q
    using that m D(4) [of d q] by (cases "d = c") simp_all
  then show ?thesis unfolding cnid_inv_def R(1,2) using R(3,4) iff by blast
qed

lemma moved_cases:
  assumes "names_ok os" "os \<noteq> []" "names_ok ns" "cnid_inv s" "map_of (cnidToPath s) c = Some p"
  obtains (below) r where "names_ok r" "p = pathOf (os @ r)" "moved os ns p = pathOf (ns @ r)" | (other) "\<not> in_tree os p" "moved os ns p = p"
proof (cases "in_tree os p")
  case True
  then obtain r where "p = pathOf (os @ r)" "names_ok r" by (auto simp: in_tree_def)
  then show ?thesis using below moved_in assms(1-3) by blast
next
  case False
  then show ?thesis using other moved_out assms(1-3) cnid_invD(4) [OF assms(4,5)] by metis
qed

lemma moved_free:
  assumes ok: "names_ok os" "os \<noteq> []" "names_ok ns" and inv: "cnid_inv s" and c: "map_of (cnidToPath s) c = Some p"
    and d: "map_of (cnidToPath s) d = Some (moved os ns p)"
    and target: "in_tree ns (moved os ns p) \<Longrightarrow> \<exists>r. names_ok r \<and> moved os ns p = pathOf (ns @ r) \<and> p \<noteq> pathOf (os @ r)"
  shows "d = c"
  using ok inv c
proof (cases rule: moved_cases)
  case (below r)
  then have "in_tree ns (moved os ns p)" using ok(3) by (auto simp: in_tree_def)
  then obtain r' where r': "names_ok r'" "moved os ns p = pathOf (ns @ r')" "p \<noteq> pathOf (os @ r')" using target by blast
  then have "r' = r" using pathOf_eq [of "ns @ r" "ns @ r'"] below ok(3) by simp
  then show ?thesis using r'(3) below by simp
next
  case other
  then show ?thesis using d c cnid_invD(3) [OF inv, of d p] cnid_invD(3) [OF inv, of c p] by simp
qed

text \<open>
  The loop of \<open>Rebind\<close>, when nothing is tracked at or below the new place: what already lies there was
  moved by the loop, from a path other than those still to come.
\<close>

lemma rebind_fold:
  assumes ok: "names_ok os" "os \<noteq> []" "names_ok ns"
    and "cnid_inv s" "\<And>c p. (c, p) \<in> set xs \<Longrightarrow> map_of (cnidToPath s) c = Some p" "wf_gomap xs"
    and "\<And>d q. map_of (cnidToPath s) d = Some q \<Longrightarrow> in_tree ns q \<Longrightarrow>
      \<exists>r. names_ok r \<and> q = pathOf (ns @ r) \<and> (\<forall>c p. (c, p) \<in> set xs \<longrightarrow> p \<noteq> pathOf (os @ r) \<and> c \<noteq> d)"
  shows "cnid_inv (fold (rebindOne (pathOf os) (pathOf ns)) xs s) \<and>
    map_of (cnidToPath (fold (rebindOne (pathOf os) (pathOf ns)) xs s)) =
      (\<lambda>c. if c \<in> fst ` set xs then map_option (moved os ns) (map_of (cnidToPath s) c) else map_of (cnidToPath s) c)"
  using assms(4-)
proof (induction xs arbitrary: s)
  case (Cons x xs)
  obtain c p where x: "x = (c, p)" by (cases x) auto
  note inv = Cons.prems(1)
  have c: "map_of (cnidToPath s) c = Some p" using Cons.prems(2) x by simp
  have cxs: "c \<notin> fst ` set xs" using Cons.prems(3) x by simp
  have rest: "map_of (cnidToPath s) k = Some q" "k \<noteq> c" "q \<noteq> p" if kq: "(k, q) \<in> set xs" for k q
  proof -
    show k: "map_of (cnidToPath s) k = Some q" using kq Cons.prems(2) by simp
    show kc: "k \<noteq> c" using kq cxs by (metis fst_conv imageI)
    show "q \<noteq> p" using cnid_invD(3) [OF inv, of k q] cnid_invD(3) [OF inv, of c p] k c kc by auto
  qed
  let ?s = "rebindOne (pathOf os) (pathOf ns) x s"
  note R = rebindOne_moved [OF inv c, of os ns, folded x]
  have free: "d = c" if d: "map_of (cnidToPath s) d = Some (moved os ns p)" for d
    by (rule moved_free [OF ok inv c d]) (use Cons.prems(4) [OF d] x in auto)
  have i1: "cnid_inv ?s" unfolding x by (rule cnid_inv_rebindOne [OF inv c ok free])
  have r1: "map_of (cnidToPath ?s) k = Some q" if "(k, q) \<in> set xs" for k q
    using rest [OF that] by (simp add: R(1))
  have wf: "wf_gomap xs" using Cons.prems(3) by simp
  have t1: "\<exists>r. names_ok r \<and> q = pathOf (ns @ r) \<and> (\<forall>k p. (k, p) \<in> set xs \<longrightarrow> p \<noteq> pathOf (os @ r) \<and> k \<noteq> d)"
    if d: "map_of (cnidToPath ?s) d = Some q" "in_tree ns q" for d q
  proof -
    have old: ?thesis if sq: "map_of (cnidToPath s) d = Some q"
    proof -
      obtain r where "names_ok r" "q = pathOf (ns @ r)" "\<forall>k p. (k, p) \<in> set (x # xs) \<longrightarrow> p \<noteq> pathOf (os @ r) \<and> k \<noteq> d"
        using Cons.prems(4) [OF sq d(2)] by blast
      then show ?thesis by (intro exI [of _ r]) simp
    qed
    have new: ?thesis if "d = c" "names_ok r" "p = pathOf (os @ r)" "q = pathOf (ns @ r)" for r
      using that rest by blast
    have "q = moved os ns p" if "d = c" using d that R(1) by simp
    with ok inv c show ?thesis using old new d R(1) by (cases rule: moved_cases; cases "d = c") (simp_all)
  qed
  have "fold (rebindOne (pathOf os) (pathOf ns)) (x # xs) s = fold (rebindOne (pathOf os) (pathOf ns)) xs ?s" by simp
  moreover have "map_of (cnidToPath ?s) k = (if k = c then Some (moved os ns p) else map_of (cnidToPath s) k)" for k by (simp add: R(1))
  ultimately show ?case using Cons.IH [OF i1 r1 wf t1] cxs c x by (auto simp: fun_eq_iff)
qed simp

section \<open>Histories of the store\<close>

text \<open>A rename whose source is not the root, to a place where nothing is tracked.\<close>

definition rename_ok :: "string \<Rightarrow> string \<Rightarrow> string list \<Rightarrow> string list \<Rightarrow> MemoryStore \<Rightarrow> bool" where
  "rename_ok old new os ns s \<longleftrightarrow> names_ok os \<and> os \<noteq> [] \<and> names_ok ns \<and> Clean old = pathOf os \<and> Clean new = pathOf ns \<and>
    (\<forall>c q. Path c s = Some q \<longrightarrow> \<not> in_tree ns q)"

inductive cnid_reach :: "MemoryStore \<Rightarrow> bool" where
  new: "cnid_reach NewMemoryStore"
| ensure: "cnid_reach s \<Longrightarrow> absolute path \<Longrightarrow> Ensure path s = Return (c, s') \<Longrightarrow> cnid_reach s'"
| reserve: "cnid_reach s \<Longrightarrow> absolute path \<Longrightarrow> cnid_reach (snd (EnsureReserved path c s))"
| rebind: "cnid_reach s \<Longrightarrow> rename_ok old new os ns s \<Longrightarrow> cnid_reach (Rebind old new s)"
| remove: "cnid_reach s \<Longrightarrow> cnid_reach (Remove path s)"
| put: "cnid_reach s \<Longrightarrow> cnid_reach (PutShort dir long short s)"
| event: "cnid_reach s \<Longrightarrow> absolute (HostPath ev) \<Longrightarrow> (evOp ev = OpRename \<Longrightarrow> rename_ok (OldPath ev) (HostPath ev) os ns s) \<Longrightarrow>
    OnVFSEvent ev s = Return s' \<Longrightarrow> cnid_reach s'"

lemma Rebind_effect:
  assumes inv: "cnid_inv s" and ok: "rename_ok old new os ns s"
  shows "cnid_inv (Rebind old new s)" "map_of (cnidToPath (Rebind old new s)) c = map_option (moved os ns) (map_of (cnidToPath s) c)"
proof -
  note D = cnid_invD(1) [OF inv]
  have n: "names_ok os" "os \<noteq> []" "names_ok ns" and cl: "Clean old = pathOf os" "Clean new = pathOf ns"
    and free: "\<And>c q. map_of (cnidToPath s) c = Some q \<Longrightarrow> in_tree ns q \<Longrightarrow> False"
    using ok by (auto simp: rename_ok_def Path_def)
  have eff: "cnid_inv (Rebind old new s) \<and> map_of (cnidToPath (Rebind old new s)) =
      (\<lambda>c. if c \<in> fst ` set (cnidToPath s) then map_option (moved os ns) (map_of (cnidToPath s) c) else map_of (cnidToPath s) c)"
    unfolding Rebind_def cl
    by (rule rebind_fold [OF n inv]) (use D free in \<open>(simp_all only: wf_gomap_mem_iff)?; blast\<close>)+
  moreover have "map_of (cnidToPath s) c = None" if "c \<notin> fst ` set (cnidToPath s)" using that by (simp add: map_of_eq_None_iff)
  ultimately show "cnid_inv (Rebind old new s)" "map_of (cnidToPath (Rebind old new s)) c = map_option (moved os ns) (map_of (cnidToPath s) c)"
    by (auto simp: fun_eq_iff)
qed

lemma reach_inv: "cnid_reach s \<Longrightarrow> cnid_inv s"
proof (induction rule: cnid_reach.induct)
  case new
  show ?case by (simp add: cnid_inv_def NewMemoryStore_def)
next
  case (put s dir long short)
  then show ?case by (simp add: PutShort_def cnid_inv_def Let_def)
next
  case (event s ev os ns s')
  show ?case
  proof (cases "Origin ev = ''afp''")
    case False
    show ?thesis
    proof (cases "evOp ev")
      case OpCreate
      then obtain c where "Ensure (HostPath ev) s = Return (c, s')" using event.hyps(4) False by (auto simp: OnVFSEvent_def)
      then show ?thesis using cnid_inv_ensure event by blast
    next
      case OpRename
      then have "s' = Rebind (OldPath ev) (HostPath ev) s" using event.hyps(4) False by (simp add: OnVFSEvent_def)
      then show ?thesis using Rebind_effect(1) [OF event.IH event.hyps(3) [OF OpRename]] by simp
    next
      case OpDelete
      then have "s' = Remove (HostPath ev) s" using event.hyps(4) False by (simp add: OnVFSEvent_def)
      then show ?thesis using Remove_effect(1) [OF event.IH] by simp
    qed (use event.IH event.hyps(4) False in \<open>simp_all add: OnVFSEvent_def\<close>)
  qed (use event.IH event.hyps(4) in \<open>simp add: OnVFSEvent_def\<close>)
next
  case (rebind s old new os ns)
  then show ?case using Rebind_effect(1) by blast
next
  case (reserve s path c)
  then show ?case using cnid_inv_reserve by blast
next
  case (ensure s path c s')
  then show ?case using cnid_inv_ensure by blast
next
  case (remove s path)
  then show ?case using Remove_effect(1) by blast
qed



text \<open>
  C39. A rename keeps identifiers. When a file or directory other than the root is renamed to a place
  where nothing is tracked, the same identifiers are in use before and after; those of the renamed
  object and of everything below it name the paths with the new prefix, and those paths give them back;
  every other identifier keeps its path; and nothing is found any more at the old place, unless the new
  place lies there.
\<close>

theorem cnid_rename_keeps_ids:
  assumes reach: "cnid_reach s" and ok: "rename_ok old new os ns s"
  shows "(Path c s = None \<longleftrightarrow> Path c (Rebind old new s) = None) \<and>
    (\<forall>r. names_ok r \<and> Path c s = Some (pathOf (os @ r)) \<longrightarrow>
      Path c (Rebind old new s) = Some (pathOf (ns @ r)) \<and> CNID (pathOf (ns @ r)) (Rebind old new s) = Some c) \<and>
    (\<forall>q. Path c s = Some q \<and> \<not> in_tree os q \<longrightarrow> Path c (Rebind old new s) = Some q \<and> CNID q (Rebind old new s) = Some c) \<and>
    (\<forall>q. in_tree os q \<and> \<not> in_tree ns q \<longrightarrow> CNID q (Rebind old new s) = None)"
proof -
  let ?s = "Rebind old new s"
  note inv = reach_inv [OF reach]
  note E = Rebind_effect [OF inv ok]
  note D = cnid_invD [OF E(1)]
  have n: "names_ok os" "os \<noteq> []" "names_ok ns" using ok by (simp_all add: rename_ok_def)
  have there: "CNID q ?s = Some d" if "Path d ?s = Some q" for d q
    using D(3) [of d q] D(4) [of d q] Clean_pathOf that by (auto simp: CNID_def Path_def names_ok_def)
  have "Path c ?s = Some (pathOf (ns @ r))" if "names_ok r" "Path c s = Some (pathOf (os @ r))" for r
    using that E(2) [of c] moved_in n by (simp add: Path_def)
  moreover have "Path c ?s = Some q" if q: "Path c s = Some q" "\<not> in_tree os q" for q
    using n inv q(1) [unfolded Path_def] by (cases rule: moved_cases) (use q E(2) [of c] n in \<open>auto simp: Path_def in_tree_def\<close>)
  moreover have "CNID q ?s = None" if q: "in_tree os q" "\<not> in_tree ns q" for q
  proof (rule ccontr)
    obtain r where "q = pathOf (os @ r)" "names_ok (os @ r)" using q(1) by (auto simp: in_tree_def)
    then have cl: "Clean q = q" using Clean_pathOf by (simp add: names_ok_def)
    assume "CNID q ?s \<noteq> None"
    then obtain d where "map_of (cnidToPath ?s) d = Some q" using D(3) cl by (auto simp: CNID_def)
    then obtain p where p: "map_of (cnidToPath s) d = Some p" "q = moved os ns p" using E(2) [of d] by auto
    show False using n inv p(1) by (cases rule: moved_cases) (use q p n in \<open>auto simp: in_tree_def\<close>)
  qed
  ultimately show ?thesis using E(2) [of c] there by (auto simp: Path_def)
qed


theorem cnid_rename_keeps_ids_witness:
  "\<exists>s. cnid_reach s \<and> Path 3 s = Some ''/v/a'' \<and> Path 3 (Rebind ''/v/a'' ''/v/b'' s) = Some ''/v/b'' \<and> CNID ''/v/b'' (Rebind ''/v/a'' ''/v/b'' s) = Some 3"
proof -
  define s where "s = \<lparr>cnidToPath = [(3, ''/v/a'')], pathToCNID = [(''/v/a'', 3)], nextCNID = 4, shortnames = []\<rparr>"
  have "Clean ''/v/a'' = ''/v/a''" by code_simp
  moreover have "nextAvailableCNID [] 3 = Some (3, 4)" by (subst nextAvailableCNID.simps) simp
  ultimately have e: "Ensure ''/v/a'' NewMemoryStore = Return (3, s)"
    by (simp add: Ensure_def NewMemoryStore_def Let_def s_def)
  have s: "Path 3 s = Some ''/v/a''" "\<forall>c q. Path c s = Some q \<longrightarrow> q = ''/v/a''" by (simp_all add: Path_def s_def)
  have r: "cnid_reach s" using cnid_reach.ensure [OF cnid_reach.new _ e] by simp
  have p: "Clean ''/v/a'' = pathOf [''v'', ''a'']" "Clean ''/v/b'' = pathOf [''v'', ''b'']" "pathOf [''v'', ''a''] = ''/v/a''" "pathOf [''v'', ''b''] = ''/v/b''"
    by code_simp+
  have n: "names_ok [''v'', ''a'']" "names_ok [''v'', ''b'']" by code_simp+
  have "\<not> in_tree [''v'', ''b''] ''/v/a''"
  proof
    assume "in_tree [''v'', ''b''] ''/v/a''"
    then obtain x where "names_ok ([''v'', ''b''] @ x)" "pathOf [''v'', ''a''] = pathOf ([''v'', ''b''] @ x)" unfolding in_tree_def p(3) by blast
    then show False using pathOf_eq [OF n(1)] by auto
  qed
  then have "rename_ok ''/v/a'' ''/v/b'' [''v'', ''a''] [''v'', ''b''] s" using p n s(2) unfolding rename_ok_def by auto
  from cnid_rename_keeps_ids [OF r this, of 3] have "\<forall>r. names_ok r \<and> Path 3 s = Some (pathOf ([''v'', ''a''] @ r)) \<longrightarrow>
      Path 3 (Rebind ''/v/a'' ''/v/b'' s) = Some (pathOf ([''v'', ''b''] @ r)) \<and> CNID (pathOf ([''v'', ''b''] @ r)) (Rebind ''/v/a'' ''/v/b'' s) = Some 3"
    by blast
  from spec [OF this, of "[]"] r s(1) p show ?thesis by (auto simp: names_ok_def)
qed

text \<open>A rename to a path that is tracked leaves two identifiers with that path.\<close>

lemma rename_onto_tracked:
  "let s = Rebind ''/a'' ''/b'' \<lparr>cnidToPath = [(3, ''/a''), (4, ''/b'')], pathToCNID = [(''/a'', 3), (''/b'', 4)], nextCNID = 5, shortnames = []\<rparr> in
   Path 3 s = Some ''/b'' \<and> Path 4 s = Some ''/b'' \<and> CNID ''/b'' s = Some 3"
  by code_simp

end
