(* ===== verification/Spec2Isabelle.thy ===== *)
theory Spec2Isabelle
  imports Ddp Rtmp Zip Atp Asp Ethertalk Tashtalk Ipxgw Macip_Pool Ipnat Cnid
begin

text \<open>
  A verification library for ClassicStack, a router and server suite for the AppleTalk family of
  protocols written in Go.

  \<^bold>\<open>The program.\<close> Ports (LocalTalk, EtherTalk) receive frames and hand DDP datagrams to the
  router. The router delivers a datagram to the service that listens on its socket or forwards it
  by the routing table. RTMP keeps the routing table up to date, ZIP keeps the zone table, NBP
  answers name lookups, AEP answers echo requests, ATP carries request and response transactions
  on which the ASP sessions of the file server rest. The MacIP gateway lends IP addresses to
  AppleTalk nodes, and a NAT engine carries their IP traffic over sockets of the host. Beside it
  stands an IPX stack, with its own router, RIP and SAP, and a gateway that brings the IPX
  traffic of MacIPX clients from AppleTalk to it.

  \<^bold>\<open>The theories.\<close> Each follows one part of the source; definitions keep the names of the code.

  \<^item> \<open>Go_Prelude\<close>: fixed-width integers, byte slices, big-endian packing, Go maps; the locales
    of a wire codec and of a guarded state machine with an invariant.
  \<^item> \<open>Binutil\<close> (\<^verbatim>\<open>pkg/binutil\<close>): every helper. Each pair of a \<open>Put\<close> and a \<open>Get\<close> provides the
    locale \<open>wire_field\<close>: what was written is read back, nothing else of the buffer changes, and
    a short buffer is an error.
  \<^item> \<open>Mac_Roman\<close> (\<^verbatim>\<open>pkg/encoding/macroman.go\<close>): the case folding that decides zone equality.
  \<^item> \<open>Ddp\<close> (\<^verbatim>\<open>protocol/ddp\<close>): the datagram, its checksum and both header codecs. The codecs are
    lossless on what the encoders accept; the checksum catches a change of one byte.
  \<^item> \<open>Zone_Table\<close> (\<^verbatim>\<open>router/zone_information_table.go\<close>): the five maps of the code, an
    invariant that makes them agree after any history, and the refinement of the abstract
    relation between network ranges and zones.
  \<^item> \<open>Routing_Table\<close> (\<^verbatim>\<open>router/routing_table.go\<close>): the two indices over shared entries, ageing,
    and loops over \<open>uint16\<close>; the invariant of the indices, which routes are accepted, and when
    unrefreshed routes disappear.
  \<^item> \<open>Router\<close> (\<^verbatim>\<open>router/router.go\<close>, \<^verbatim>\<open>router/dynamic.go\<close>): membership, start and stop, dispatch,
    forwarding and replies; forwarding changes at most the hop count and ends after fifteen hops.
  \<^item> \<open>Rtmp\<close> (\<^verbatim>\<open>service/rtmp\<close>): building and hearing advertisements; distances stay bounded.
  \<^item> \<open>Nbp\<close> (\<^verbatim>\<open>protocol/llap\<close>, \<^verbatim>\<open>protocol/nbp\<close>, \<^verbatim>\<open>service/zip/name_information.go\<close>, \<^verbatim>\<open>service/aep\<close>):
    frames, names, the name registry as a map up to case, lookups, and the echo handler.
  \<^item> \<open>Zip\<close> (\<^verbatim>\<open>service/zip/responding.go\<close>, \<^verbatim>\<open>service/zip/sending.go\<close>): queries and replies,
    GetNetInfo and the paged zone lists.
  \<^item> \<open>Atp\<close> (\<^verbatim>\<open>protocol/atp\<close>, \<^verbatim>\<open>service/atp/transaction.go\<close>): the transaction engine over a store
    of control blocks; runs of arbitrary calls, packets and timer callbacks keep its tables well
    formed, assemble responses in any order of arrival, execute exactly once, and give up.
  \<^item> \<open>Asp\<close> (\<^verbatim>\<open>protocol/asp\<close>, \<^verbatim>\<open>service/asp\<close>): sessions over the transaction engine; the session table stays
    consistent, a command is answered once and cut to what the requester takes, a write runs in
    its two phases, and a silent session is closed.
  \<^item> \<open>Localtalk\<close> (\<^verbatim>\<open>port/localtalk/localtalk.go\<close>, \<^verbatim>\<open>service/llap\<close>): address acquisition and the RTS and CTS
    handshake, with the timers and the goroutine that transmits; what a claimed address and a sent
    data frame presuppose.
  \<^item> \<open>Tashtalk\<close> (\<^verbatim>\<open>port/localtalk/tashtalk.go\<close>, \<^verbatim>\<open>ltoudp.go\<close>, \<^verbatim>\<open>virtual.go\<close>): the LocalTalk transports; the serial
    framing is lossless however the line cuts the bytes.
  \<^item> \<open>Ethertalk\<close> (\<^verbatim>\<open>port/ethertalk/ethertalk.go\<close>): address acquisition, AARP with held datagrams,
    framing and reception, with panics and endless loops as outcomes.
  \<^item> \<open>Macip_Pool\<close> (\<^verbatim>\<open>service/macip/pool.go\<close>): the address pool with leases, DHCP records and pins.
  \<^item> \<open>Ipv4\<close> and \<open>Ipnat\<close> (\<^verbatim>\<open>port/nat\<close>): the IPv4 helpers, with lossless fragmentation and checksums that
    verify, and the NAT engine over stores of its entries and flows; echo replies find their client
    whatever happens in between, and data of a server reach the Macintosh whole and in its window.
    The codec of \<^verbatim>\<open>golang.org/x/net/icmp\<close> is a parameter of which nothing is assumed.
  \<^item> \<open>Ipx\<close> (\<^verbatim>\<open>protocol/ipx\<close>, \<^verbatim>\<open>router/ipx\<close>, \<^verbatim>\<open>port/ipx\<close>, \<^verbatim>\<open>service/ipx\<close>): the datagram, the router, the Ethernet port with
    its suppression of duplicates, RIP and SAP; frames are delivered once and unchanged, and
    advertisements tell exactly the registry.
  \<^item> \<open>Ipxgw\<close> (\<^verbatim>\<open>protocol/macipx\<close>, \<^verbatim>\<open>service/ipxgw\<close>): the MacIPX gateway over the IPX stack; a registered client
    sends and receives, and broadcasts reach exactly the clients that listen.
  \<^item> \<open>Cnid\<close> (\<^verbatim>\<open>pkg/cnid/memory.go\<close>): the in-memory store of catalog identifiers, with the path
    normalisation of the Go library; identifiers and paths stay in one-to-one correspondence, and
    a rename keeps every identifier of the subtree it moves.
  \<^item> This theory: the properties that span components.

  \<^bold>\<open>Conventions.\<close> A Go integer is a word of its width, so overflow wraps as in Go; lengths and
  loop counters of type \<open>int\<close> that stay small are \<open>nat\<close> or \<open>int\<close>. A Go map is an association
  list with distinct keys whose order stands for the unspecified order of \<open>range\<close>; a statement
  about every such list holds for every order of iteration. Pointers that the code compares or
  shares are indices into a store. An operation that holds a mutex for its whole body is one
  atomic step; one that gives the mutex up is several, and anything may happen between them.
  Calls that leave the component (on ports, services, senders, timers, the clock) are the effects
  an operation returns, in the order of the code. The time read from the clock is an argument.
  Errors are values of sum or option types. Go's library functions that are not transcribed (the
  shuffle of the random source, the case orbits of Unicode) are arguments of the definitions that
  use them.

  \<^bold>\<open>Fuel.\<close> Loops over slices and maps are structural recursion. The loops over \<open>uint16\<close> ranges
  of the routing table may run forever in the code (a range that ends at 0xFFFF never ends);
  their model returns an option whose \<open>None\<close> is that case, and \<open>SetPortRange_spec\<close> proves
  exactly when it arises. The loops of the EtherTalk receiver and of address acquisition have the
  outcome \<open>Diverge\<close> for the same purpose, and the properties exclude or characterise it. So have
  the searches for a free identifier of the NAT engine and of the catalog and the relay loop, which are
  partial functions into an option: the searches return while an identifier is free, the relay unless
  the segment size is 0.

  \<^bold>\<open>Left for later.\<close> The DSI sessions (\<^verbatim>\<open>service/dsi\<close>), the short names and AppleDouble formats of the
  file server, and NetBIOS with its transports.

  \<^bold>\<open>Not modelled.\<close> Devices, sockets, packet capture, raw links and process life cycle are input
  and output; configuration, the management plane, logging and metrics do not change what the
  protocols do; the Mac Garden client scrapes a web site; the file-system side of the AFP and SMB
  servers rests on the operating system. Goroutine scheduling is modelled only as the order of
  atomic steps: data races in the sense of the Go memory model are outside the model.
\<close>



end
